(* ===== verification/Prelude.thy ===== *)
theory Prelude
  imports Main "HOL-Library.Char_ord"
    "HOL-Library.Code_Target_Nat"
    "HOL-Library.Code_Target_Int" "HOL-Library.List_Lexorder" "HOL-Library.Product_Lexorder"
begin

text \<open>
  What the components share: Rust's 64-bit unsigned arithmetic on \<open>nat\<close> with saturation and
  wrap-around written out, \<open>Result\<close> as a sum, the standard library's ordered map as a sorted
  association list, and the generic lemmas their proofs rest on.

  A \<open>u64\<close> or \<open>usize\<close> (64 bits wide on the platforms the program supports) is a \<open>nat\<close>; the
  operations that may pass its width say what they do there: \<open>sadd\<close>, \<open>smul\<close> saturate, \<open>wadd\<close>,
  \<open>wsub\<close> wrap, as a release build's \<open>+\<close> and \<open>-\<close> do. Saturating subtraction is subtraction of
  naturals.
\<close>

named_theorems u64_simps \<open>unfolds the fixed-width operations\<close>
named_theorems btree_simps \<open>lookups after an ordered map changes\<close>

subsection \<open>Unsigned 64-bit arithmetic\<close>

definition U64_MAX :: nat where
  "U64_MAX = 18446744073709551615"

definition sadd :: "nat \<Rightarrow> nat \<Rightarrow> nat" where
  "sadd a b = min U64_MAX (a + b)"

definition smul :: "nat \<Rightarrow> nat \<Rightarrow> nat" where
  "smul a b = min U64_MAX (a * b)"

definition wadd :: "nat \<Rightarrow> nat \<Rightarrow> nat" where
  "wadd a b = (a + b) mod (U64_MAX + 1)"

definition wsub :: "nat \<Rightarrow> nat \<Rightarrow> nat" where
  "wsub a b = (a + (U64_MAX + 1) - b) mod (U64_MAX + 1)"

definition checked_add :: "nat \<Rightarrow> nat \<Rightarrow> nat option" where
  "checked_add a b = (if a + b \<le> U64_MAX then Some (a + b) else None)"

text \<open>The levels a schema's types or a JSON value may nest (\<open>crates/rdlt-wire/src/limits.rs\<close>).\<close>

definition NESTING_DEPTH :: nat where
  "NESTING_DEPTH = 64"

definition clamp :: "nat \<Rightarrow> nat \<Rightarrow> nat \<Rightarrow> nat" where
  "clamp x lo hi = (if x < lo then lo else if hi < x then hi else x)"

lemma sadd_le_max [simp]: "sadd a b \<le> U64_MAX"
  by (simp add: sadd_def)

lemma smul_le_max [simp]: "smul a b \<le> U64_MAX"
  by (simp add: smul_def)

lemma sadd_exact: "a + b \<le> U64_MAX \<Longrightarrow> sadd a b = a + b"
  by (simp add: sadd_def)

lemma smul_exact: "a * b \<le> U64_MAX \<Longrightarrow> smul a b = a * b"
  by (simp add: smul_def)

lemma sadd_0 [simp]: "a \<le> U64_MAX \<Longrightarrow> sadd a 0 = a" "b \<le> U64_MAX \<Longrightarrow> sadd 0 b = b"
  by (simp_all add: sadd_def)

lemma sadd_le_iff: "c < U64_MAX \<Longrightarrow> sadd a b \<le> c \<longleftrightarrow> a + b \<le> c"
  by (auto simp: sadd_def)

lemma sadd_le: "sadd a b \<le> a + b"
  by (simp add: sadd_def)

lemma sadd_mono: "a \<le> a' \<Longrightarrow> b \<le> b' \<Longrightarrow> sadd a b \<le> sadd a' b'"
  by (auto simp: sadd_def)

lemma sadd_commute: "sadd a b = sadd b a"
  by (simp add: sadd_def add.commute)

lemma sadd_assoc: "sadd (sadd a b) c = sadd a (sadd b c)"
  by (auto simp: sadd_def)

lemma smul_le: "smul a b \<le> a * b"
  by (simp add: smul_def)

lemma sadd_1_less: "b \<le> U64_MAX \<Longrightarrow> sadd a (Suc 0) < b \<longleftrightarrow> Suc a < b"
  by (auto simp: sadd_def)

lemma le_sadd_1: "a \<le> U64_MAX \<Longrightarrow> a \<le> sadd b (Suc 0) \<longleftrightarrow> a \<le> Suc b"
  by (auto simp: sadd_def)

lemma wadd_exact: "a + b \<le> U64_MAX \<Longrightarrow> wadd a b = a + b"
  by (simp add: wadd_def)

lemma wadd_le_max [simp]: "wadd a b \<le> U64_MAX"
  using mod_less_divisor [of "U64_MAX + 1" "a + b"] by (simp add: wadd_def)

lemma wsub_exact: "b \<le> a \<Longrightarrow> a \<le> U64_MAX \<Longrightarrow> wsub a b = a - b"
proof -
  assume "b \<le> a" and "a \<le> U64_MAX"
  then have "a + (U64_MAX + 1) - b = (a - b) + (U64_MAX + 1)" and "a - b < U64_MAX + 1"
    by simp_all
  then show ?thesis by (simp only: wsub_def mod_add_self2 mod_less)
qed

lemma checked_add_Some [simp]:
  "checked_add a b = Some c \<longleftrightarrow> c = a + b \<and> a + b \<le> U64_MAX"
  by (auto simp: checked_add_def)

lemma clamp_bounds: "lo \<le> hi \<Longrightarrow> lo \<le> clamp x lo hi \<and> clamp x lo hi \<le> hi"
  by (simp add: clamp_def)

lemmas [u64_simps] = sadd_def smul_def wadd_def wsub_def checked_add_def clamp_def U64_MAX_def

subsection \<open>Results\<close>

text \<open>A \<open>Result\<close> is a sum, \<open>Inl\<close> the error; \<open>rbind\<close> is the question mark operator.\<close>

fun rbind :: "'e + 'a \<Rightarrow> ('a \<Rightarrow> 'e + 'b) \<Rightarrow> 'e + 'b" where
  "rbind (Inl e) f = Inl e"
| "rbind (Inr x) f = f x"

lemma rbind_Inr [simp]: "rbind r f = Inr y \<longleftrightarrow> (\<exists>x. r = Inr x \<and> f x = Inr y)"
  by (cases r) auto

lemma rbind_Inl: "rbind r f = Inl e \<longleftrightarrow> r = Inl e \<or> (\<exists>x. r = Inr x \<and> f x = Inl e)"
  by (cases r) auto

text \<open>\<open>collect\<close> into a \<open>Result\<close> of a vector: the first error, in order, else every value.\<close>

fun collect :: "('e + 'a) list \<Rightarrow> 'e + 'a list" where
  "collect [] = Inr []"
| "collect (r # rs) = rbind r (\<lambda>x. rbind (collect rs) (\<lambda>xs. Inr (x # xs)))"

lemma collect_Inr: "collect rs = Inr xs \<longleftrightarrow> rs = map Inr xs"
  by (induction rs arbitrary: xs) (auto simp: Cons_eq_map_conv)

subsection \<open>Vectors\<close>

text \<open>
  \<open>partition_point p\<close> of a slice partitioned by \<open>p\<close>, which is what it is asked of: the index of
  the first element \<open>p\<close> is false of.
\<close>

definition partition_point :: "('a \<Rightarrow> bool) \<Rightarrow> 'a list \<Rightarrow> nat" where
  "partition_point p xs = length (takeWhile p xs)"

definition vec_get :: "'a list \<Rightarrow> nat \<Rightarrow> 'a option" where
  "vec_get xs i = (if i < length xs then Some (xs ! i) else None)"

definition vec_insert :: "nat \<Rightarrow> 'a \<Rightarrow> 'a list \<Rightarrow> 'a list" where
  "vec_insert i x xs = take i xs @ x # drop i xs"

definition vec_remove :: "nat \<Rightarrow> 'a list \<Rightarrow> 'a list" where
  "vec_remove i xs = take i xs @ drop (Suc i) xs"

lemma vec_get_append [simp]:
  "vec_get (xs @ ys) (length xs) = (case ys of [] \<Rightarrow> None | y # _ \<Rightarrow> Some y)"
  by (cases ys) (auto simp: vec_get_def)

lemma vec_get_append_Suc:
  "vec_get (xs @ y # ys) (Suc (length xs)) = (case ys of [] \<Rightarrow> None | z # _ \<Rightarrow> Some z)"
  using vec_get_append [of "xs @ [y]" ys] by simp

lemma vec_get_length [simp]: "vec_get xs (length xs) = None"
  by (simp add: vec_get_def)

lemma vec_insert_length [simp]: "vec_insert (length xs) x xs = xs @ [x]"
  by (simp add: vec_insert_def)

lemma vec_insert_append [simp]: "vec_insert (length xs) x (xs @ ys) = xs @ x # ys"
  by (simp add: vec_insert_def)

lemma vec_remove_append_Suc [simp]:
  "vec_remove (Suc (length xs)) (xs @ y # z # ys) = xs @ y # ys"
  by (simp add: vec_remove_def)

lemma set_vec_insert [simp]: "set (vec_insert i x xs) = insert x (set xs)"
  using append_take_drop_id [of i xs, THEN arg_cong [where f = set]]
  by (auto simp: vec_insert_def simp del: append_take_drop_id)

lemma sum_list_filter_le: "sum_list (map (f :: 'a \<Rightarrow> nat) (filter P xs)) \<le> sum_list (map f xs)"
  by (induction xs) auto

subsection \<open>Ordered maps\<close>

text \<open>
  A \<open>BTreeMap\<close> is the list of its entries in ascending order of their keys, so iterating it is
  walking the list.
\<close>

type_synonym ('k, 'v) btree = "('k \<times> 'v) list"

abbreviation bt_get :: "('k, 'v) btree \<Rightarrow> 'k \<Rightarrow> 'v option" where
  "bt_get m k \<equiv> map_of m k"

fun bt_insert :: "'k::linorder \<Rightarrow> 'v \<Rightarrow> ('k, 'v) btree \<Rightarrow> ('k, 'v) btree" where
  "bt_insert k v [] = [(k, v)]"
| "bt_insert k v ((k', v') # m) =
     (if k < k' then (k, v) # (k', v') # m
      else if k = k' then (k, v) # m
      else (k', v') # bt_insert k v m)"

definition bt_remove :: "'k \<Rightarrow> ('k, 'v) btree \<Rightarrow> ('k, 'v) btree" where
  "bt_remove k m = filter (\<lambda>(k', _). k' \<noteq> k) m"

definition bt_wf :: "('k::linorder, 'v) btree \<Rightarrow> bool" where
  "bt_wf m \<longleftrightarrow> sorted_wrt (<) (map fst m)"

definition bt_keys :: "('k, 'v) btree \<Rightarrow> 'k list" where
  "bt_keys m = map fst m"

definition bt_map :: "('v \<Rightarrow> 'w) \<Rightarrow> ('k, 'v) btree \<Rightarrow> ('k, 'w) btree" where
  "bt_map f m = map (\<lambda>(k, v). (k, f v)) m"

definition bt_of_list :: "('k::linorder \<times> 'v) list \<Rightarrow> ('k, 'v) btree" where
  "bt_of_list kvs = fold (\<lambda>(k, v). bt_insert k v) kvs []"

lemma bt_get_insert [btree_simps]: "bt_get (bt_insert k v m) k' = (if k' = k then Some v else bt_get m k')"
  by (induction k v m rule: bt_insert.induct) auto

lemma bt_get_remove [btree_simps]: "bt_get (bt_remove k m) k' = (if k' = k then None else bt_get m k')"
  unfolding bt_remove_def by (induction m) (auto split: if_splits)

lemma bt_get_map [btree_simps]: "bt_get (bt_map f m) k = map_option f (bt_get m k)"
  unfolding bt_map_def by (induction m) auto

lemma set_bt_insert: "set (map fst (bt_insert k v m)) = insert k (set (map fst m))"
  by (induction k v m rule: bt_insert.induct) auto

lemma bt_wf_Nil [simp]: "bt_wf []"
  by (simp add: bt_wf_def)

lemma bt_wf_insert [simp, intro]: "bt_wf m \<Longrightarrow> bt_wf (bt_insert k v m)"
proof (induction k v m rule: bt_insert.induct)
  case (1 k v)
  then show ?case by (simp add: bt_wf_def)
next
  case (2 k v k' v' m)
  have "set (map fst (bt_insert k v m)) = insert k (set (map fst m))"
    by (rule set_bt_insert)
  with 2 show ?case by (auto simp: bt_wf_def)
qed

lemma sorted_wrt_filter_map: "sorted_wrt P (map f xs) \<Longrightarrow> sorted_wrt P (map f (filter Q xs))"
  by (induction xs) auto

lemma bt_wf_remove [simp, intro]: "bt_wf m \<Longrightarrow> bt_wf (bt_remove k m)"
  unfolding bt_wf_def bt_remove_def by (rule sorted_wrt_filter_map)

lemma bt_wf_map [simp]: "bt_wf (bt_map f m) = bt_wf m"
  by (simp add: bt_wf_def bt_map_def o_def case_prod_beta)

lemma bt_wf_distinct: "bt_wf m \<Longrightarrow> distinct (map fst m)"
  unfolding bt_wf_def by (induction m) auto

lemma bt_wf_filter: "bt_wf m \<Longrightarrow> bt_wf (filter P m)"
  unfolding bt_wf_def by (rule sorted_wrt_filter_map)

lemma bt_get_in_set: "bt_wf m \<Longrightarrow> bt_get m k = Some v \<longleftrightarrow> (k, v) \<in> set m"
  using bt_wf_distinct by (metis map_of_SomeD map_of_is_SomeI)

lemma bt_ext:
  assumes "bt_wf m" and "bt_wf m'" and "\<And>k. bt_get m k = bt_get m' k"
  shows "m = m'"
proof -
  have "set m = set m'"
    using assms bt_get_in_set [OF assms(1)] bt_get_in_set [OF assms(2)] by auto
  then show ?thesis
    using assms(1,2) unfolding bt_wf_def
  proof (induction m arbitrary: m')
    case Nil
    then show ?case by simp
  next
    case (Cons x m)
    then obtain y n where m': "m' = y # n" by (cases m') auto
    have "x = y"
    proof (rule ccontr)
      assume "x \<noteq> y"
      with Cons.prems m' have "x \<in> set n" and "y \<in> set m" by auto
      with Cons.prems m' have "fst y < fst x" and "fst x < fst y" by auto
      then show False by simp
    qed
    with Cons.prems m' have "set m = set n" by auto
    with Cons.IH Cons.prems m' \<open>x = y\<close> show ?case by simp
  qed
qed

text \<open>\<open>entry(k).or_default()\<close> followed by a change of the value, and a change through \<open>get_mut\<close>.\<close>

definition bt_entry :: "'k::linorder \<Rightarrow> 'v \<Rightarrow> ('v \<Rightarrow> 'v) \<Rightarrow> ('k, 'v) btree \<Rightarrow> ('k, 'v) btree" where
  "bt_entry k d f m = bt_insert k (f (case bt_get m k of Some v \<Rightarrow> v | None \<Rightarrow> d)) m"

definition bt_modify :: "'k::linorder \<Rightarrow> ('v \<Rightarrow> 'v) \<Rightarrow> ('k, 'v) btree \<Rightarrow> ('k, 'v) btree" where
  "bt_modify k f m = (case bt_get m k of Some v \<Rightarrow> bt_insert k (f v) m | None \<Rightarrow> m)"

definition bt_default :: "'v \<Rightarrow> ('k, 'v) btree \<Rightarrow> 'k \<Rightarrow> 'v" where
  "bt_default d m k = (case bt_get m k of Some v \<Rightarrow> v | None \<Rightarrow> d)"

lemma bt_get_entry [btree_simps]:
  "bt_get (bt_entry k d f m) k' = (if k' = k then Some (f (bt_default d m k)) else bt_get m k')"
  by (simp add: bt_entry_def bt_default_def btree_simps)

lemma bt_get_modify [btree_simps]:
  "bt_get (bt_modify k f m) k' = (if k' = k then map_option f (bt_get m k) else bt_get m k')"
  by (auto simp: bt_modify_def btree_simps split: option.splits)

lemma bt_default_entry [btree_simps]:
  "bt_default d (bt_entry k d f m) k' = (if k' = k then f (bt_default d m k) else bt_default d m k')"
  by (simp add: bt_default_def [of d "bt_entry k d f m"] btree_simps) (simp add: bt_default_def)

lemma bt_default_modify [btree_simps]:
  "f d = d \<Longrightarrow> bt_default d (bt_modify k f m) k' = (if k' = k then f (bt_default d m k) else bt_default d m k')"
  by (auto simp: bt_default_def btree_simps split: option.splits)

lemma bt_default_insert [btree_simps]: "bt_default d (bt_insert k v m) k' = (if k' = k then v else bt_default d m k')"
  by (simp add: bt_default_def btree_simps)

lemma bt_default_remove [btree_simps]: "bt_default d (bt_remove k m) k' = (if k' = k then d else bt_default d m k')"
  by (simp add: bt_default_def btree_simps)

lemma bt_wf_entry [simp, intro]: "bt_wf m \<Longrightarrow> bt_wf (bt_entry k d f m)"
  by (simp add: bt_entry_def)

lemma bt_wf_modify [simp, intro]: "bt_wf m \<Longrightarrow> bt_wf (bt_modify k f m)"
  by (simp add: bt_modify_def split: option.splits)

text \<open>The sum of a measure of the values of an ordered map.\<close>

definition bt_sum :: "('v \<Rightarrow> nat) \<Rightarrow> ('k, 'v) btree \<Rightarrow> nat" where
  "bt_sum f m = sum_list (map (\<lambda>(_, v). f v) m)"

lemma bt_sum_simps [simp]: "bt_sum f [] = 0" "bt_sum f ((k, v) # m) = f v + bt_sum f m"
  by (simp_all add: bt_sum_def)

lemma bt_wf_Cons: "bt_wf ((k, v) # m) \<longleftrightarrow> bt_wf m \<and> (\<forall>k'\<in>fst ` set m. k < k')"
  by (auto simp: bt_wf_def)

lemma bt_wf_get_Cons: "bt_wf ((k, v) # m) \<Longrightarrow> bt_get m k = None"
  by (auto simp: bt_wf_Cons map_of_eq_None_iff)

lemma bt_sum_insert:
  "bt_wf m \<Longrightarrow> bt_sum f (bt_insert k v m) + (case bt_get m k of Some old \<Rightarrow> f old | None \<Rightarrow> 0) = bt_sum f m + f v"
proof (induction k v m rule: bt_insert.induct)
  case (2 k v k' v' m)
  then have wf: "bt_wf m" "\<forall>x\<in>fst ` set m. k' < x" by (simp_all add: bt_wf_Cons)
  consider "k < k'" | "k = k'" | "k' < k" by fastforce
  then show ?case
  proof cases
    case 1
    then have "bt_get m k = None" using wf(2) by (auto simp: map_of_eq_None_iff)
    with 1 show ?thesis by auto
  qed (use 2 wf in auto)
qed simp

lemma bt_remove_absent: "bt_get m k = None \<Longrightarrow> bt_remove k m = m"
  unfolding bt_remove_def by (induction m) (auto split: if_splits)

lemma bt_sum_remove:
  "bt_wf m \<Longrightarrow> bt_sum f (bt_remove k m) + (case bt_get m k of Some old \<Rightarrow> f old | None \<Rightarrow> 0) = bt_sum f m"
proof (induction m)
  case (Cons x m)
  obtain k' v' where x: "x = (k', v')" by (cases x)
  show ?case
  proof (cases "k' = k")
    case True
    then have "bt_get m k = None" using bt_wf_get_Cons [of k' v' m] Cons.prems x by simp
    then have "bt_remove k (x # m) = m" using True x bt_remove_absent [of m k] by (simp add: bt_remove_def)
    then show ?thesis using True x by simp
  next
    case False
    then have "bt_remove k (x # m) = x # bt_remove k m" using x by (simp add: bt_remove_def)
    then show ?thesis using Cons False x by (simp add: bt_wf_Cons)
  qed
qed (simp add: bt_remove_def)

lemma bt_sum_get_le: "bt_get m k = Some v \<Longrightarrow> f v \<le> bt_sum f m"
  by (induction m) (auto split: if_splits)

subsection \<open>Stores of keyed records\<close>

text \<open>
  The contract of a store that keeps one value a key: what a lookup returns after a put and after a
  delete, and that both keep the store well formed. A batch of changes applied in order then leaves
  each key at its last change.
\<close>

datatype ('k, 'v) change = Put_key 'k 'v | Delete_key 'k

fun change_key :: "('k, 'v) change \<Rightarrow> 'k" where
  "change_key (Put_key k v) = k"
| "change_key (Delete_key k) = k"

fun change_value :: "('k, 'v) change \<Rightarrow> 'v option" where
  "change_value (Put_key k v) = Some v"
| "change_value (Delete_key k) = None"

fun last_change :: "'k \<Rightarrow> ('k, 'v) change list \<Rightarrow> ('k, 'v) change option" where
  "last_change k [] = None"
| "last_change k (c # cs) =
     (case last_change k cs of
        Some d \<Rightarrow> Some d
      | None \<Rightarrow> if change_key c = k then Some c else None)"

locale keyed_store =
  fixes get :: "'s \<Rightarrow> 'k \<Rightarrow> 'v option"
    and put :: "'k \<Rightarrow> 'v \<Rightarrow> 's \<Rightarrow> 's"
    and del :: "'k \<Rightarrow> 's \<Rightarrow> 's"
    and wf :: "'s \<Rightarrow> bool"
  assumes get_put: "get (put k v s) k' = (if k' = k then Some v else get s k')"
    and get_del: "get (del k s) k' = (if k' = k then None else get s k')"
    and wf_put: "wf s \<Longrightarrow> wf (put k v s)"
    and wf_del: "wf s \<Longrightarrow> wf (del k s)"
begin

definition apply_change :: "('k, 'v) change \<Rightarrow> 's \<Rightarrow> 's" where
  "apply_change c s = (case c of Put_key k v \<Rightarrow> put k v s | Delete_key k \<Rightarrow> del k s)"

lemma get_apply_change:
  "get (apply_change c s) k = (if k = change_key c then change_value c else get s k)"
  by (cases c) (simp_all add: apply_change_def get_put get_del)

lemma wf_apply_changes: "wf s \<Longrightarrow> wf (fold apply_change cs s)"
proof (induction cs arbitrary: s)
  case Nil
  then show ?case by simp
next
  case (Cons c cs)
  have "wf (apply_change c s)"
    using Cons.prems by (cases c) (simp_all add: apply_change_def wf_put wf_del)
  with Cons.IH show ?case by simp
qed

lemma get_apply_changes:
  "get (fold apply_change cs s) k =
     (case last_change k cs of Some c \<Rightarrow> change_value c | None \<Rightarrow> get s k)"
  by (induction cs arbitrary: s) (auto simp: get_apply_change split: option.splits)

end

interpretation bt: keyed_store map_of bt_insert bt_remove bt_wf
  by unfold_locales (auto simp: btree_simps)

end
