(* ===== verification/Segments.thy ===== *)
theory Segments
  imports Prelude
begin

text \<open>
  Segment ids and the sets of them a commit names (\<open>crates/rdlt-connector/src/commit.rs\<close>): a set is
  kept as ranges that are sorted, disjoint and not adjacent. The ranges denote a set of naturals;
  every operation is shown to be the set operation it is called after, and the ranges of a set are
  shown to be unique.
\<close>

subsection \<open>Ranges and sets\<close>

record segment_range =
  sr_first :: nat
  sr_last :: nat

type_synonym segment_set = "segment_range list"

definition seg_range :: "nat \<Rightarrow> nat \<Rightarrow> segment_range" where
  "seg_range a b = \<lparr>sr_first = a, sr_last = b\<rparr>"

definition segment_set_new :: segment_set where
  "segment_set_new = []"

text \<open>\<open>SegmentSet::insert\<close>: the range that ends at or after the id's predecessor takes it, and
  swallows the next range where they then meet; otherwise it is a range of its own.\<close>

definition segment_insert :: "segment_set \<Rightarrow> nat \<Rightarrow> segment_set" where
  "segment_insert ranges value =
     (let index = partition_point (\<lambda>r. sadd (sr_last r) 1 < value) ranges
      in case vec_get ranges index of
           Some r \<Rightarrow>
             if sr_first r \<le> sadd value 1 then
               (let grown = seg_range (min (sr_first r) value) (max (sr_last r) value);
                    ranges' = ranges[index := grown]
                in case vec_get ranges' (index + 1) of
                     Some next_range \<Rightarrow>
                       if sr_first next_range \<le> sadd (sr_last grown) 1
                       then vec_remove (index + 1)
                              (ranges'[index := grown\<lparr>sr_last := sr_last next_range\<rparr>])
                       else ranges'
                   | None \<Rightarrow> ranges')
             else vec_insert index (seg_range value value) ranges
         | None \<Rightarrow> vec_insert index (seg_range value value) ranges)"

definition segment_contains :: "segment_set \<Rightarrow> nat \<Rightarrow> bool" where
  "segment_contains ranges i =
     (let index = partition_point (\<lambda>r. sr_last r < i) ranges
      in case vec_get ranges index of Some r \<Rightarrow> sr_first r \<le> i | None \<Rightarrow> False)"

definition segment_len :: "segment_set \<Rightarrow> nat" where
  "segment_len ranges =
     foldl sadd 0 (map (\<lambda>r. sadd (wsub (sr_last r) (sr_first r)) 1) ranges)"

definition segment_is_empty :: "segment_set \<Rightarrow> bool" where
  "segment_is_empty ranges \<longleftrightarrow> ranges = []"

definition segment_iter :: "segment_set \<Rightarrow> nat list" where
  "segment_iter ranges = concat (map (\<lambda>r. [sr_first r..<Suc (sr_last r)]) ranges)"

fun segment_overlaps :: "segment_set \<Rightarrow> segment_set \<Rightarrow> bool" where
  "segment_overlaps (l # mine) (r # theirs) =
     (if sr_last l < sr_first r then segment_overlaps mine (r # theirs)
      else if sr_last r < sr_first l then segment_overlaps (l # mine) theirs
      else True)"
| "segment_overlaps _ _ = False"

definition segment_from_iter :: "nat list \<Rightarrow> segment_set" where
  "segment_from_iter ids = foldl segment_insert segment_set_new ids"

datatype unordered_ranges = UnorderedRanges

fun segment_gaps :: "segment_set \<Rightarrow> bool" where
  "segment_gaps (a # b # rs) \<longleftrightarrow> sadd (sr_last a) 1 < sr_first b \<and> segment_gaps (b # rs)"
| "segment_gaps _ \<longleftrightarrow> True"

definition segment_try_from :: "segment_range list \<Rightarrow> unordered_ranges + segment_set" where
  "segment_try_from ranges =
     (if list_all (\<lambda>r. sr_first r \<le> sr_last r) ranges \<and> segment_gaps ranges
      then Inr ranges else Inl UnorderedRanges)"

definition segment_into :: "segment_set \<Rightarrow> segment_range list" where
  "segment_into s = s"

subsection \<open>What the ranges denote, and the invariant\<close>

definition seg_ids :: "segment_set \<Rightarrow> nat set" where
  "seg_ids ranges = (\<Union>r\<in>set ranges. {sr_first r..sr_last r})"

definition seg_wf :: "segment_set \<Rightarrow> bool" where
  "seg_wf ranges \<longleftrightarrow>
     list_all (\<lambda>r. sr_first r \<le> sr_last r \<and> sr_last r \<le> U64_MAX) ranges \<and> segment_gaps ranges"

abbreviation seg_sep :: "segment_range \<Rightarrow> segment_range \<Rightarrow> bool" where
  "seg_sep a b \<equiv> Suc (sr_last a) < sr_first b"

definition seg_ok :: "segment_set \<Rightarrow> bool" where
  "seg_ok ranges \<longleftrightarrow>
     (\<forall>r\<in>set ranges. sr_first r \<le> sr_last r \<and> sr_last r \<le> U64_MAX) \<and> sorted_wrt seg_sep ranges"

lemma segment_gaps_sorted:
  "\<forall>r\<in>set ranges. sr_first r \<le> sr_last r \<and> sr_last r \<le> U64_MAX \<Longrightarrow>
   segment_gaps ranges \<longleftrightarrow> sorted_wrt seg_sep ranges"
proof (induction ranges rule: segment_gaps.induct)
  case (1 a b rs)
  then have "sadd (sr_last a) 1 < sr_first b \<longleftrightarrow> seg_sep a b"
    by (auto simp: sadd_def)
  with 1 show ?case by fastforce
qed auto

lemma seg_wf_ok: "seg_wf ranges \<longleftrightarrow> seg_ok ranges"
  using segment_gaps_sorted by (auto simp: seg_wf_def seg_ok_def list_all_iff)

lemma seg_ok_Nil [simp]: "seg_ok []"
  by (simp add: seg_ok_def)

lemma seg_ok_Cons: "seg_ok (r # rs) \<longleftrightarrow>
   sr_first r \<le> sr_last r \<and> sr_last r \<le> U64_MAX \<and> (\<forall>s\<in>set rs. seg_sep r s) \<and> seg_ok rs"
  by (auto simp: seg_ok_def)

lemma seg_ok_append: "seg_ok (xs @ ys) \<longleftrightarrow>
   seg_ok xs \<and> seg_ok ys \<and> (\<forall>x\<in>set xs. \<forall>y\<in>set ys. seg_sep x y)"
  by (auto simp: seg_ok_def sorted_wrt_append)

lemma seg_ids_simps [simp]:
  "seg_ids [] = {}"
  "seg_ids (r # rs) = {sr_first r..sr_last r} \<union> seg_ids rs"
  "seg_ids (xs @ ys) = seg_ids xs \<union> seg_ids ys"
  by (auto simp: seg_ids_def)

lemma seg_range_sel [simp]: "sr_first (seg_range a b) = a" "sr_last (seg_range a b) = b"
  by (simp_all add: seg_range_def)

lemma seg_ids_above: "(\<forall>s\<in>set rs. x < sr_first s) \<Longrightarrow> i \<in> seg_ids rs \<Longrightarrow> x < i"
  by (auto simp: seg_ids_def)

lemma seg_ids_below: "(\<forall>s\<in>set rs. sr_last s < x) \<Longrightarrow> i \<in> seg_ids rs \<Longrightarrow> i < x"
  by (auto simp: seg_ids_def)

lemma finite_seg_ids [simp]: "finite (seg_ids rs)"
  by (simp add: seg_ids_def)

lemma seg_ids_le_max: "seg_ok rs \<Longrightarrow> i \<in> seg_ids rs \<Longrightarrow> i \<le> U64_MAX"
  by (fastforce simp: seg_ids_def seg_ok_def)

lemma seg_ids_empty_iff: "seg_ok rs \<Longrightarrow> seg_ids rs = {} \<longleftrightarrow> rs = []"
  by (cases rs) (auto simp: seg_ok_Cons)

subsection \<open>Searches\<close>

text \<open>The slices the code bisects are partitioned by what it bisects them on.\<close>

lemma takeWhile_split:
  obtains pre rest where "xs = pre @ rest" "takeWhile P xs = pre" "\<forall>x\<in>set pre. P x"
    "\<forall>y ys. rest = y # ys \<longrightarrow> \<not> P y"
proof (rule that)
  show "xs = takeWhile P xs @ dropWhile P xs" by simp
  show "\<forall>x\<in>set (takeWhile P xs). P x" using set_takeWhileD by fast
  show "\<forall>y ys. dropWhile P xs = y # ys \<longrightarrow> \<not> P y"
    using hd_dropWhile [of P xs] by force
qed (rule refl)

lemma segments_partitioned:
  assumes "seg_ok ranges" and "i < j" and "j < length ranges" and "sr_last (ranges ! j) < x"
  shows "sr_last (ranges ! i) < x"
proof -
  have "seg_sep (ranges ! i) (ranges ! j)"
    using assms by (auto simp: seg_ok_def sorted_wrt_iff_nth_less)
  moreover have "sr_first (ranges ! j) \<le> sr_last (ranges ! j)"
    using assms(1,3) by (auto simp: seg_ok_def)
  ultimately show ?thesis using assms(4) by simp
qed

lemma segment_contains_ids:
  assumes "seg_ok ranges"
  shows "segment_contains ranges i \<longleftrightarrow> i \<in> seg_ids ranges"
proof -
  obtain pre rest where split: "ranges = pre @ rest"
    and found: "takeWhile (\<lambda>r. sr_last r < i) ranges = pre"
    and pre: "\<forall>r\<in>set pre. sr_last r < i" and rest: "\<forall>y ys. rest = y # ys \<longrightarrow> \<not> sr_last y < i"
    by (rule takeWhile_split)
  have "partition_point (\<lambda>r. sr_last r < i) ranges = length pre"
    by (simp add: partition_point_def found)
  then have "segment_contains ranges i = (case rest of [] \<Rightarrow> False | r # _ \<Rightarrow> sr_first r \<le> i)"
    unfolding segment_contains_def split by (cases rest) simp_all
  moreover have "i \<notin> seg_ids pre" using seg_ids_below [OF pre, of i] by blast
  moreover have "i \<in> seg_ids rest \<longleftrightarrow> (case rest of [] \<Rightarrow> False | r # _ \<Rightarrow> sr_first r \<le> i)"
  proof (cases rest)
    case (Cons r rs)
    with assms split have "\<forall>s\<in>set rs. sr_last r < sr_first s"
      by (auto simp: seg_ok_append seg_ok_Cons)
    with Cons rest show ?thesis using seg_ids_above [of rs "sr_last r" i] by auto
  qed simp
  ultimately show ?thesis using split by simp
qed

subsection \<open>Insertion\<close>

text \<open>What an insertion does, by the ranges before the one found and those from it on.\<close>

fun insert_at :: "nat \<Rightarrow> segment_set \<Rightarrow> segment_set" where
  "insert_at v [] = [seg_range v v]"
| "insert_at v (r # rs) =
     (if sr_first r \<le> sadd v 1 then
        (case rs of
           [] \<Rightarrow> [seg_range (min (sr_first r) v) (max (sr_last r) v)]
         | n # ns \<Rightarrow>
             if sr_first n \<le> sadd (max (sr_last r) v) 1
             then seg_range (min (sr_first r) v) (sr_last n) # ns
             else seg_range (min (sr_first r) v) (max (sr_last r) v) # n # ns)
      else seg_range v v # r # rs)"

lemma segment_insert_split:
  assumes "ranges = pre @ rest" and "takeWhile (\<lambda>r. sadd (sr_last r) 1 < v) ranges = pre"
  shows "segment_insert ranges v = pre @ insert_at v rest"
proof -
  have point: "partition_point (\<lambda>r. sadd (sr_last r) 1 < v) ranges = length pre"
    using assms(2) by (simp add: partition_point_def)
  show ?thesis
    unfolding segment_insert_def point Let_def unfolding assms(1)
    by (cases rest; cases "tl rest")
      (simp_all add: list_update_append seg_range_def vec_get_append_Suc)
qed

lemma range_grow:
  "(a::nat) \<le> Suc v \<Longrightarrow> v \<le> Suc b \<Longrightarrow> a \<le> b \<Longrightarrow> {min a v..max b v} = insert v {a..b}"
  by (auto simp: min_def max_def)

lemma range_merge: "(a::nat) \<le> b \<Longrightarrow> b < c \<Longrightarrow> c \<le> Suc b \<Longrightarrow> {a..d} = {a..b} \<union> {c..d}" if "c \<le> d"
  using that by auto

lemma insert_at_cases:
  assumes "seg_ok rest" and "v \<le> U64_MAX" and "\<forall>y ys. rest = y # ys \<longrightarrow> v \<le> Suc (sr_last y)"
  obtains (alone) "insert_at v rest = seg_range v v # rest" "\<forall>r\<in>set rest. Suc v < sr_first r"
    | (grown) r rs where "rest = r # rs" "sr_first r \<le> Suc v" "v \<le> Suc (sr_last r)"
        "\<forall>n\<in>set rs. Suc (max (sr_last r) v) < sr_first n"
        "insert_at v rest = seg_range (min (sr_first r) v) (max (sr_last r) v) # rs"
    | (merged) r n ns where "rest = r # n # ns" "sr_first r \<le> Suc v" "v \<le> Suc (sr_last r)"
        "max (sr_last r) v < sr_first n" "sr_first n \<le> Suc (max (sr_last r) v)"
        "insert_at v rest = seg_range (min (sr_first r) v) (sr_last n) # ns"
proof (cases rest)
  case Nil
  then show ?thesis by (intro alone) simp_all
next
  case (Cons r rs)
  with assms have r: "sr_first r \<le> U64_MAX" "sr_first r \<le> sr_last r" "v \<le> Suc (sr_last r)"
    "\<forall>n\<in>set rs. Suc (sr_last r) < sr_first n"
    by (simp_all add: seg_ok_Cons)
  show ?thesis
  proof (cases "sr_first r \<le> Suc v")
    case False
    with Cons r show ?thesis by (intro alone) (auto simp: le_sadd_1)
  next
    case first: True
    show ?thesis
    proof (cases rs)
      case Nil
      with first Cons r show ?thesis by (intro grown [of r rs]) (simp_all add: le_sadd_1)
    next
      case rs: (Cons n ns)
      with Cons assms have n: "sr_first n \<le> U64_MAX" "\<forall>m\<in>set ns. sr_first n < sr_first m"
        by (auto simp: seg_ok_Cons)
      show ?thesis
      proof (cases "sr_first n \<le> Suc (max (sr_last r) v)")
        case True
        with first Cons rs n r show ?thesis
          by (intro merged [of r n ns]) (simp_all add: le_sadd_1)
      next
        case False
        with first Cons rs n r show ?thesis
          by (intro grown [of r rs]) (auto simp add: le_sadd_1)
      qed
    qed
  qed
qed

lemma insert_at_ok:
  assumes "seg_ok rest" and "v \<le> U64_MAX" and "\<forall>y ys. rest = y # ys \<longrightarrow> v \<le> Suc (sr_last y)"
  shows "seg_ok (insert_at v rest)"
  using assms
proof (cases rule: insert_at_cases)
  case (merged r n ns)
  with assms(1) show ?thesis by (simp add: seg_ok_Cons min_le_iff_disj)
qed (use assms in \<open>simp_all add: seg_ok_Cons min_le_iff_disj\<close>)

lemma insert_at_ids:
  assumes "seg_ok rest" and "v \<le> U64_MAX" and "\<forall>y ys. rest = y # ys \<longrightarrow> v \<le> Suc (sr_last y)"
  shows "seg_ids (insert_at v rest) = insert v (seg_ids rest)"
  using assms
proof (cases rule: insert_at_cases)
  case (grown r rs)
  then show ?thesis using range_grow [of "sr_first r" v "sr_last r"] assms(1)
    by (simp add: seg_ok_Cons)
next
  case (merged r n ns)
  with assms(1) have "{min (sr_first r) v..sr_last n}
      = {min (sr_first r) v..max (sr_last r) v} \<union> {sr_first n..sr_last n}"
    by (intro range_merge) (auto simp: seg_ok_Cons)
  with merged show ?thesis using range_grow [of "sr_first r" v "sr_last r"] assms(1)
    by (simp add: seg_ok_Cons Un_assoc)
qed simp

lemma insert_at_above:
  assumes "x < v" and "\<forall>r\<in>set rest. x < sr_first r"
  shows "\<forall>r\<in>set (insert_at v rest). x < sr_first r"
  using assms by (cases "(v, rest)" rule: insert_at.cases) (auto split: list.splits)

lemma segment_insert_ok:
  assumes "seg_ok ranges" and "v \<le> U64_MAX"
  shows "seg_ok (segment_insert ranges v)"
    and "seg_ids (segment_insert ranges v) = insert v (seg_ids ranges)"
proof -
  obtain pre rest where *: "ranges = pre @ rest"
    "takeWhile (\<lambda>r. sadd (sr_last r) 1 < v) ranges = pre"
    "\<forall>r\<in>set pre. sadd (sr_last r) 1 < v" "\<forall>y ys. rest = y # ys \<longrightarrow> \<not> sadd (sr_last y) 1 < v"
    by (rule takeWhile_split)
  have eq: "segment_insert ranges v = pre @ insert_at v rest"
    using *(1,2) by (rule segment_insert_split)
  have ok: "seg_ok pre" "seg_ok rest" "\<forall>x\<in>set pre. \<forall>y\<in>set rest. seg_sep x y"
    using assms(1) * by (simp_all add: seg_ok_append)
  have near: "\<forall>y ys. rest = y # ys \<longrightarrow> v \<le> Suc (sr_last y)"
    using * assms(2) by (auto simp: sadd_def)
  have before: "\<forall>x\<in>set pre. Suc (sr_last x) < v"
    using * assms(2) by (auto simp: sadd_def)
  have at: "seg_ok (insert_at v rest)" "seg_ids (insert_at v rest) = insert v (seg_ids rest)"
    using insert_at_ok insert_at_ids ok(2) assms(2) near by blast+
  have "\<forall>x\<in>set pre. \<forall>y\<in>set (insert_at v rest). seg_sep x y"
    using insert_at_above before ok(3) by blast
  note at = this at
  show "seg_ok (segment_insert ranges v)"
    using eq ok before at by (auto simp: seg_ok_append)
  show "seg_ids (segment_insert ranges v) = insert v (seg_ids ranges)"
    using eq at * by auto
qed

subsection \<open>Overlap, size and order\<close>

lemma segment_overlaps_ids:
  "seg_ok a \<Longrightarrow> seg_ok b \<Longrightarrow> segment_overlaps a b \<longleftrightarrow> seg_ids a \<inter> seg_ids b \<noteq> {}"
proof (induction a b rule: segment_overlaps.induct)
  case (1 l mine r theirs)
  have ok: "seg_ok mine" "seg_ok theirs" "sr_first l \<le> sr_last l" "sr_first r \<le> sr_last r"
    "\<forall>s\<in>set mine. sr_last l < sr_first s" "\<forall>s\<in>set theirs. sr_last r < sr_first s"
    using 1 by (auto simp: seg_ok_Cons)
  note above = seg_ids_above [OF ok(5)] seg_ids_above [OF ok(6)]
  consider "sr_last l < sr_first r" | "\<not> sr_last l < sr_first r" "sr_last r < sr_first l"
    | "\<not> sr_last l < sr_first r" "\<not> sr_last r < sr_first l" by blast
  then show ?case
  proof cases
    case 1
    with ok above have "{sr_first l..sr_last l} \<inter> seg_ids (r # theirs) = {}" by fastforce
    with 1 "1.IH"(1) ok "1.prems" show ?thesis by auto
  next
    case 2
    with ok above have "{sr_first r..sr_last r} \<inter> seg_ids (l # mine) = {}" by fastforce
    with 2 "1.IH"(2) ok "1.prems" show ?thesis by auto
  next
    case 3
    then have "max (sr_first l) (sr_first r) \<in> seg_ids (l # mine) \<inter> seg_ids (r # theirs)"
      using ok by auto
    then have "seg_ids (l # mine) \<inter> seg_ids (r # theirs) \<noteq> {}" by blast
    with 3 show ?thesis by simp
  qed
qed auto

lemma foldl_sadd: "a \<le> U64_MAX \<Longrightarrow> foldl sadd a xs = min U64_MAX (a + sum_list xs)"
  by (induction xs arbitrary: a) (auto simp: sadd_def min_def)

lemma seg_ids_Cons_disjoint:
  "seg_ok (r # rs) \<Longrightarrow> {sr_first r..sr_last r} \<inter> seg_ids rs = {}"
  using seg_ids_above [of rs "sr_last r"] by (fastforce simp: seg_ok_Cons)

lemma seg_card: "seg_ok rs \<Longrightarrow> card (seg_ids rs) = sum_list (map (\<lambda>r. Suc (sr_last r - sr_first r)) rs)"
proof (induction rs)
  case (Cons r rs)
  then show ?case
    using seg_ids_Cons_disjoint [of r rs]
    by (simp add: card_Un_disjoint seg_ok_Cons Suc_diff_le)
qed simp

lemma sum_list_min: "min (M::nat) (sum_list (map (\<lambda>x. min M (f x)) xs)) = min M (sum_list (map f xs))"
  by (induction xs) (auto simp: min_def split: if_splits)

lemma segment_len_card:
  assumes "seg_ok rs"
  shows "segment_len rs = min U64_MAX (card (seg_ids rs))"
proof -
  have "map (\<lambda>r. sadd (wsub (sr_last r) (sr_first r)) 1) rs
      = map (\<lambda>r. min U64_MAX (Suc (sr_last r - sr_first r))) rs"
    using assms by (auto simp: seg_ok_def wsub_exact sadd_def min_def)
  then show ?thesis
    unfolding segment_len_def seg_card [OF assms] by (simp only: foldl_sadd sum_list_min add_0 le0)
qed

lemma segment_iter_set: "set (segment_iter rs) = seg_ids rs"
  by (auto simp: segment_iter_def seg_ids_def)

lemma segment_iter_sorted: "seg_ok rs \<Longrightarrow> sorted_wrt (<) (segment_iter rs)"
proof (induction rs)
  case (Cons r rs)
  then have *: "\<forall>s\<in>set rs. sr_last r < sr_first s" "sorted_wrt (<) (segment_iter rs)"
    by (auto simp: seg_ok_Cons)
  have "segment_iter (r # rs) = [sr_first r..<Suc (sr_last r)] @ segment_iter rs"
    by (simp add: segment_iter_def)
  moreover have "\<forall>x\<in>set [sr_first r..<Suc (sr_last r)]. \<forall>y\<in>set (segment_iter rs). x < y"
    unfolding segment_iter_set using seg_ids_above [OF *(1)] by fastforce
  ultimately show ?case using *(2) by (simp only: sorted_wrt_append sorted_wrt_upt simp_thms)
qed (simp add: segment_iter_def)

lemma segment_iter_list: "seg_ok rs \<Longrightarrow> segment_iter rs = sorted_list_of_set (seg_ids rs)"
  using segment_iter_sorted [of rs] segment_iter_set [of rs]
  by (metis sorted_list_of_set.idem_if_sorted_distinct strict_sorted_iff)

subsection \<open>Ranges of a set are unique\<close>

lemma seg_ids_after: "seg_ok (r # rs) \<Longrightarrow> i \<in> seg_ids rs \<Longrightarrow> Suc (sr_last r) < i"
  by (rule seg_ids_above [of rs "Suc (sr_last r)"]) (simp_all add: seg_ok_Cons)

lemma seg_ids_tail: "seg_ok (r # rs) \<Longrightarrow> seg_ids rs = {i \<in> seg_ids (r # rs). sr_last r < i}"
  by (auto dest: seg_ids_after)

lemma seg_first_Min: "seg_ok (r # rs) \<Longrightarrow> sr_first r = Min (seg_ids (r # rs))"
proof -
  assume ok: "seg_ok (r # rs)"
  then have "sr_first r \<le> sr_last r" by (simp add: seg_ok_Cons)
  with ok show ?thesis by (intro Min_eqI [symmetric]) (auto dest: seg_ids_after)
qed

lemma seg_last_bound:
  assumes "seg_ok (r # rs)" and "seg_ok (s # ss)" and "seg_ids (r # rs) = seg_ids (s # ss)"
  shows "sr_last s \<le> sr_last r"
proof (rule ccontr)
  assume *: "\<not> sr_last s \<le> sr_last r"
  have "sr_first r = sr_first s" using seg_first_Min assms by metis
  with * assms(1) have "Suc (sr_last r) \<in> seg_ids (s # ss)" by (auto simp: seg_ok_Cons)
  then have "Suc (sr_last r) \<in> seg_ids (r # rs)" using assms(3) by simp
  then have "Suc (sr_last r) \<in> seg_ids rs" by simp
  then show False using seg_ids_after [OF assms(1)] by blast
qed

lemma seg_ok_unique: "seg_ok a \<Longrightarrow> seg_ok b \<Longrightarrow> seg_ids a = seg_ids b \<Longrightarrow> a = b"
proof (induction a arbitrary: b)
  case Nil
  then show ?case by (metis seg_ids_empty_iff)
next
  case (Cons r rs)
  then obtain s ss where b: "b = s # ss" by (cases b) (auto simp: seg_ok_Cons)
  have "sr_first r = sr_first s" using seg_first_Min Cons.prems b by metis
  moreover have "sr_last r = sr_last s"
    using seg_last_bound Cons.prems b by (metis le_antisym)
  ultimately have "r = s" by simp
  moreover have "seg_ids rs = seg_ids ss"
    using seg_ids_tail Cons.prems b \<open>sr_last r = sr_last s\<close> by metis
  ultimately show ?case using Cons b by (auto simp: seg_ok_Cons)
qed

subsection \<open>The contract of a set of ids\<close>

text \<open>What the writers and the coordinator rely on of the set a commit names: that it starts
  empty, and that inserting an id adds exactly it.\<close>

locale id_set =
  fixes empty_set :: 's
    and add :: "'s \<Rightarrow> 'i \<Rightarrow> 's"
    and has :: "'s \<Rightarrow> 'i \<Rightarrow> bool"
    and ids :: "'s \<Rightarrow> 'i set"
    and wf :: "'s \<Rightarrow> bool"
    and fits :: "'i \<Rightarrow> bool"
  assumes wf_empty: "wf empty_set"
    and ids_empty: "ids empty_set = {}"
    and wf_add: "wf s \<Longrightarrow> fits i \<Longrightarrow> wf (add s i)"
    and ids_add: "wf s \<Longrightarrow> fits i \<Longrightarrow> ids (add s i) = insert i (ids s)"
    and has_ids: "wf s \<Longrightarrow> has s i \<longleftrightarrow> i \<in> ids s"
    and canonical: "wf s \<Longrightarrow> wf t \<Longrightarrow> ids s = ids t \<Longrightarrow> s = t"
begin

lemma wf_add_all: "wf s \<Longrightarrow> \<forall>i\<in>set is. fits i \<Longrightarrow> wf (foldl add s is)"
  by (induction "is" arbitrary: s) (auto simp: wf_add)

lemma ids_add_all: "wf s \<Longrightarrow> \<forall>i\<in>set is. fits i \<Longrightarrow> ids (foldl add s is) = ids s \<union> set is"
  by (induction "is" arbitrary: s) (auto simp: wf_add ids_add)

lemma add_all_order:
  assumes "\<forall>i\<in>set is. fits i" and "set is = set js"
  shows "foldl add empty_set is = foldl add empty_set js"
  using assms wf_add_all [OF wf_empty] ids_add_all [OF wf_empty] by (intro canonical) auto

lemma add_idem: "wf s \<Longrightarrow> fits i \<Longrightarrow> has s i \<Longrightarrow> add s i = s"
  by (intro canonical) (auto simp: wf_add ids_add has_ids)

end

interpretation seg: id_set segment_set_new segment_insert segment_contains seg_ids seg_wf "\<lambda>i. i \<le> U64_MAX"
  by unfold_locales
    (auto simp: seg_wf_ok segment_insert_ok segment_contains_ids segment_set_new_def
      intro: seg_ok_unique)

subsection \<open>Properties\<close>

text \<open>C10: inserting a segment id keeps the set's ranges sorted, disjoint and non-adjacent within
  \<open>u64\<close>, and adds exactly that id, the ids at the ends of the width included.\<close>

theorem segment_insert_correct:
  assumes "seg_wf s" and "i \<le> U64_MAX"
  shows "seg_wf (segment_insert s i) \<and> seg_ids (segment_insert s i) = insert i (seg_ids s)"
  using assms by (simp add: seg.wf_add seg.ids_add)

theorem segment_insert_correct_witness:
  "seg_wf [seg_range 1 2, seg_range 4 5] \<and>
   seg_ids (segment_insert [seg_range 1 2, seg_range 4 5] 3)
     = insert 3 (seg_ids [seg_range 1 2, seg_range 4 5]) \<and>
   segment_insert [seg_range 1 2, seg_range 4 5] 3 = [seg_range 1 5]"
proof -
  have wf: "seg_wf [seg_range 1 2, seg_range 4 5]"
    by (simp add: seg_wf_def sadd_def U64_MAX_def)
  show ?thesis
  proof (intro conjI)
    show "seg_ids (segment_insert [seg_range 1 2, seg_range 4 5] 3)
        = insert 3 (seg_ids [seg_range 1 2, seg_range 4 5])"
      by (rule segment_insert_correct [OF wf, THEN conjunct2]) (simp add: U64_MAX_def)
    show "segment_insert [seg_range 1 2, seg_range 4 5] 3 = [seg_range 1 5]" by code_simp
  qed (rule wf)
qed

text \<open>C14: \<open>SegmentSet::contains\<close>, a bisection on the ends of the ranges, answers whether the
  set holds the id, and building a set from ids in any order, with repetitions, gives the same
  ranges, which hold exactly those ids.\<close>

theorem segment_set_canonical:
  assumes "\<forall>i\<in>set ids1. i \<le> U64_MAX" and "set ids1 = set ids2"
  shows "segment_from_iter ids1 = segment_from_iter ids2 \<and>
    (\<forall>i. segment_contains (segment_from_iter ids1) i \<longleftrightarrow> i \<in> set ids1)"
proof
  show "segment_from_iter ids1 = segment_from_iter ids2"
    unfolding segment_from_iter_def using assms by (rule seg.add_all_order)
  show "\<forall>i. segment_contains (segment_from_iter ids1) i \<longleftrightarrow> i \<in> set ids1"
    unfolding segment_from_iter_def
    using assms(1) seg.wf_add_all [OF seg.wf_empty] seg.ids_add_all [OF seg.wf_empty]
    by (simp add: seg.has_ids seg.ids_empty)
qed

theorem segment_set_canonical_witness:
  "segment_from_iter [7, 3, 5, 4] = segment_from_iter [3, 4, 5, 7, 7] \<and>
   segment_from_iter [7, 3, 5, 4] = [seg_range 3 5, seg_range 7 7]"
proof
  show "segment_from_iter [7, 3, 5, 4] = segment_from_iter [3, 4, 5, 7, 7]"
    by (rule segment_set_canonical [THEN conjunct1]) (auto simp: U64_MAX_def)
qed code_simp

text \<open>C15: \<open>SegmentSet::overlaps\<close>, the walk along both sets' ranges, is true exactly when some
  id is in both, so two commits of one writer never name a segment twice where it is false.\<close>

theorem segment_overlaps_correct:
  assumes "seg_wf s" and "seg_wf t"
  shows "segment_overlaps s t \<longleftrightarrow> (\<exists>i. segment_contains s i \<and> segment_contains t i)"
  using assms segment_overlaps_ids [of s t] by (auto simp: seg_wf_ok segment_contains_ids)

theorem segment_overlaps_correct_witness:
  "segment_overlaps [seg_range 1 2, seg_range 4 5] [seg_range 5 9] \<longleftrightarrow>
     (\<exists>i. segment_contains [seg_range 1 2, seg_range 4 5] i \<and> segment_contains [seg_range 5 9] i)"
  by (rule segment_overlaps_correct) (simp_all add: seg_wf_def sadd_def U64_MAX_def)

text \<open>a set's iterator yields its ids once each in ascending order, and its length is their
  number, saturated where the whole of \<open>u64\<close> is in the set.\<close>

theorem segment_iter_len:
  assumes "seg_wf s"
  shows "segment_iter s = sorted_list_of_set (seg_ids s) \<and>
    segment_len s = min U64_MAX (card (seg_ids s))"
  using assms by (simp add: seg_wf_ok segment_iter_list segment_len_card)

theorem segment_iter_len_witness:
  "segment_len [seg_range 0 U64_MAX] = min U64_MAX (card (seg_ids [seg_range 0 U64_MAX]))"
  by (rule segment_iter_len [THEN conjunct2]) (simp add: seg_wf_def)



end
