(* ===== verification/Types.thy ===== *)
theory Types
  imports Prelude
begin

text \<open>
  Logical types and their join (\<open>crates/rdlt-connector/src/types.rs\<close>, \<open>types/lattice.rs\<close>). A type
  is a tree whose structs hold named fields; the join of two types is the type a column becomes when
  values of both are seen. The join is shown to be a bounded semilattice on the types the
  constructors admit: the order and the grouping in which types are seen do not matter.
\<close>

subsection \<open>Types\<close>

datatype time_unit = Second | Millisecond | Microsecond | Nanosecond

fun unit_rank :: "time_unit \<Rightarrow> nat" where
  "unit_rank Second = 0"
| "unit_rank Millisecond = 1"
| "unit_rank Microsecond = 2"
| "unit_rank Nanosecond = 3"

instantiation time_unit :: linorder
begin

definition less_eq_time_unit :: "time_unit \<Rightarrow> time_unit \<Rightarrow> bool" where
  "less_eq_time_unit a b \<longleftrightarrow> unit_rank a \<le> unit_rank b"

definition less_time_unit :: "time_unit \<Rightarrow> time_unit \<Rightarrow> bool" where
  "less_time_unit a b \<longleftrightarrow> unit_rank a < unit_rank b"

instance
proof
  fix x y z :: time_unit
  show "x < y \<longleftrightarrow> x \<le> y \<and> \<not> y \<le> x"
    by (auto simp: less_eq_time_unit_def less_time_unit_def)
  show "x \<le> x" by (simp add: less_eq_time_unit_def)
  show "x \<le> y \<Longrightarrow> y \<le> z \<Longrightarrow> x \<le> z" by (simp add: less_eq_time_unit_def)
  show "x \<le> y \<Longrightarrow> y \<le> x \<Longrightarrow> x = y"
    by (cases x; cases y) (simp_all add: less_eq_time_unit_def)
  show "x \<le> y \<or> y \<le> x" by (auto simp: less_eq_time_unit_def)
qed

end

datatype decimal_type = DecimalType (d_precision: nat) (d_scale: nat)

datatype logical_type =
    TNull | TBool | TInt8 | TInt16 | TInt32 | TInt64 | TFloat32 | TFloat64
  | TDecimal decimal_type | TUtf8 | TBinary | TDate | TTime time_unit
  | TTimestamp time_unit "string option" | TDuration time_unit | TUuid | TJson
  | TStruct "field list" | TList field
and field = Field (f_name: string) (f_type: logical_type) (f_nullable: bool)

datatype type_error =
    DecimalError nat nat
  | DuplicateField string
  | TooDeep nat nat

definition MAX_DECIMAL_PRECISION :: nat where
  "MAX_DECIMAL_PRECISION = 76"

definition decimal_new :: "nat \<Rightarrow> nat \<Rightarrow> type_error + decimal_type" where
  "decimal_new precision scale =
     (if precision = 0 \<or> precision > MAX_DECIMAL_PRECISION \<or> scale > precision
      then Inl (DecimalError precision scale)
      else Inr (DecimalType precision scale))"

definition fields_get :: "field list \<Rightarrow> string \<Rightarrow> field option" where
  "fields_get fields name = find (\<lambda>f. f_name f = name) fields"

text \<open>\<open>Fields::new\<close>: the first field whose name an earlier one has is refused.\<close>

fun fields_dup :: "string list \<Rightarrow> field list \<Rightarrow> string option" where
  "fields_dup seen [] = None"
| "fields_dup seen (f # fs) =
     (if f_name f \<in> set seen then Some (f_name f) else fields_dup (f_name f # seen) fs)"

definition fields_new :: "field list \<Rightarrow> type_error + field list" where
  "fields_new fields =
     (case fields_dup [] fields of
        Some name \<Rightarrow> Inl (DuplicateField name)
      | None \<Rightarrow> Inr fields)"

subsection \<open>The join\<close>

definition LIST_ITEM :: string where
  "LIST_ITEM = ''item''"

fun integer_digits :: "logical_type \<Rightarrow> nat option" where
  "integer_digits TInt8 = Some 3"
| "integer_digits TInt16 = Some 5"
| "integer_digits TInt32 = Some 10"
| "integer_digits TInt64 = Some 19"
| "integer_digits _ = None"

definition is_float :: "logical_type \<Rightarrow> bool" where
  "is_float t \<longleftrightarrow> t = TFloat32 \<or> t = TFloat64"

definition is_exact :: "logical_type \<Rightarrow> bool" where
  "is_exact t \<longleftrightarrow> is_float t \<or> t = TInt8 \<or> t = TInt16 \<or> t = TInt32"

definition is_numeric_float_mix :: "logical_type \<Rightarrow> logical_type \<Rightarrow> bool" where
  "is_numeric_float_mix a b \<longleftrightarrow> is_float a \<and> is_exact b \<or> is_float b \<and> is_exact a"

text \<open>The sum of digits is taken at 16 bits and must fit 8, then be a decimal's precision.\<close>

definition join_decimals :: "decimal_type \<Rightarrow> nat \<Rightarrow> nat \<Rightarrow> logical_type" where
  "join_decimals decimal digits scale =
     (let digits' = max (d_precision decimal - d_scale decimal) digits;
          scale' = max (d_scale decimal) scale;
          precision = digits' + scale'
      in if precision \<le> 255
         then (case decimal_new precision scale' of Inr d \<Rightarrow> TDecimal d | Inl _ \<Rightarrow> TJson)
         else TJson)"

text \<open>The map \<open>join_structs\<close> builds: each name with the field either side has of it.\<close>

definition names_left :: "(string, field option \<times> field option) btree \<Rightarrow> field
    \<Rightarrow> (string, field option \<times> field option) btree" where
  "names_left m f =
     bt_insert (f_name f)
       (Some f, case bt_get m (f_name f) of Some (_, r) \<Rightarrow> r | None \<Rightarrow> None) m"

definition names_right :: "(string, field option \<times> field option) btree \<Rightarrow> field
    \<Rightarrow> (string, field option \<times> field option) btree" where
  "names_right m f =
     bt_insert (f_name f)
       (case bt_get m (f_name f) of Some (l, _) \<Rightarrow> l | None \<Rightarrow> None, Some f) m"

definition join_names :: "field list \<Rightarrow> field list \<Rightarrow> (string, field option \<times> field option) btree" where
  "join_names a b = foldl names_right (foldl names_left [] a) b"

fun opt_size :: "field option \<Rightarrow> nat" where
  "opt_size None = 0"
| "opt_size (Some f) = size f"

text \<open>The joins of leaf types, tried in the order of the code's arms.\<close>

definition join_leaves :: "logical_type \<Rightarrow> logical_type \<Rightarrow> logical_type" where
  "join_leaves a b =
     (case (a, b) of
        (TDecimal c, TDecimal d) \<Rightarrow> join_decimals c (d_precision d - d_scale d) (d_scale d)
      | (TDecimal d, i) \<Rightarrow>
          (case integer_digits i of Some digits \<Rightarrow> join_decimals d digits 0 | None \<Rightarrow> TJson)
      | (i, TDecimal d) \<Rightarrow>
          (case integer_digits i of Some digits \<Rightarrow> join_decimals d digits 0 | None \<Rightarrow> TJson)
      | (TTimestamp u zone_a, TTimestamp v zone_b) \<Rightarrow>
          TTimestamp (max u v) (if zone_a = zone_b then zone_a else Some ''UTC'')
      | (TDate, TTimestamp u zone) \<Rightarrow> TTimestamp u zone
      | (TTimestamp u zone, TDate) \<Rightarrow> TTimestamp u zone
      | (TTime u, TTime v) \<Rightarrow> TTime (max u v)
      | (TDuration u, TDuration v) \<Rightarrow> TDuration (max u v)
      | _ \<Rightarrow> TJson)"

lemma size_field_type: "size (f_type f) < size f"
  by (cases f) simp

lemma size_in_fields: "f \<in> set fs \<Longrightarrow> size f < size_list size fs"
  by (induction fs) auto

lemma set_bt_insert_subset: "set (bt_insert k v m) \<subseteq> insert (k, v) (set m)"
  by (induction k v m rule: bt_insert.induct) auto

lemma bt_get_set: "bt_get m k = Some v \<Longrightarrow> (k, v) \<in> set m"
  by (rule map_of_SomeD)

definition sides :: "field set \<Rightarrow> field set \<Rightarrow> (string, field option \<times> field option) btree \<Rightarrow> bool" where
  "sides A B m \<longleftrightarrow> (\<forall>(n, l, r)\<in>set m. set_option l \<subseteq> A \<and> set_option r \<subseteq> B)"

lemma sides_names:
  assumes "sides A B m"
  shows "f \<in> A \<Longrightarrow> sides A B (names_left m f)" and "f \<in> B \<Longrightarrow> sides A B (names_right m f)"
proof -
  have old: "set_option l \<subseteq> A \<and> set_option r \<subseteq> B" if "bt_get m n = Some (l, r)" for n l r
    using assms bt_get_set [OF that] by (auto simp: sides_def)
  have ins: "sides A B (bt_insert n (l, r) m)" if "set_option l \<subseteq> A" "set_option r \<subseteq> B" for n l r
    using assms that set_bt_insert_subset [of n "(l, r)" m] unfolding sides_def by blast
  show "f \<in> A \<Longrightarrow> sides A B (names_left m f)"
    unfolding names_left_def by (rule ins) (auto split: option.splits dest: old)
  show "f \<in> B \<Longrightarrow> sides A B (names_right m f)"
    unfolding names_right_def by (rule ins) (auto split: option.splits dest: old)
qed

lemma sides_foldl:
  "sides A B m \<Longrightarrow> set a \<subseteq> A \<Longrightarrow> sides A B (foldl names_left m a)"
  "sides A B m \<Longrightarrow> set b \<subseteq> B \<Longrightarrow> sides A B (foldl names_right m b)"
  by (induction a arbitrary: m) (auto simp: sides_names, induction b arbitrary: m, auto simp: sides_names)

lemma join_names_sides:
  assumes "(n, l, r) \<in> set (join_names a b)"
  shows "set_option l \<subseteq> set a" and "set_option r \<subseteq> set b"
proof -
  have "sides (set a) (set b) (join_names a b)"
    unfolding join_names_def by (intro sides_foldl) (auto simp: sides_def)
  with assms show "set_option l \<subseteq> set a" and "set_option r \<subseteq> set b"
    by (auto simp: sides_def)
qed

lemma opt_size_side: "set_option l \<subseteq> set a \<Longrightarrow> opt_size l \<le> size_list size a"
  using size_in_fields by (cases l) fastforce+

lemma join_names_size:
  assumes "(n, l, r) \<in> set (join_names a b)"
  shows "opt_size l + opt_size r \<le> size_list size a + size_list size b"
  using opt_size_side join_names_sides [OF assms] by (simp add: add_mono)

function (sequential) ty_join :: "logical_type \<Rightarrow> logical_type \<Rightarrow> logical_type"
  and join_structs :: "field list \<Rightarrow> field list \<Rightarrow> field list"
  and join_fields :: "string \<Rightarrow> field option \<Rightarrow> field option \<Rightarrow> field"
where
  "ty_join a b =
     (if a = b then a
      else if a = TNull then b
      else if b = TNull then a
      else if integer_digits a \<noteq> None \<and> integer_digits b \<noteq> None
      then (if the (integer_digits a) \<ge> the (integer_digits b) then a else b)
      else if is_numeric_float_mix a b then TFloat64
      else (case (a, b) of
              (TStruct fa, TStruct fb) \<Rightarrow> TStruct (join_structs fa fb)
            | (TList fa, TList fb) \<Rightarrow> TList (join_fields LIST_ITEM (Some fa) (Some fb))
            | _ \<Rightarrow> join_leaves a b))"
| "join_structs a b = map (\<lambda>(name, left, right). join_fields name left right) (join_names a b)"
| "join_fields name (Some l) (Some r) =
     Field name (ty_join (f_type l) (f_type r)) (f_nullable l \<or> f_nullable r)"
| "join_fields name (Some only) None = Field name (f_type only) True"
| "join_fields name None (Some only) = Field name (f_type only) True"
| "join_fields name None None = Field name TNull True"
  by pat_completeness auto
termination
proof (relation "measure (\<lambda>x. case x of
      Inl (a, b) \<Rightarrow> 2 * (size a + size b)
    | Inr (Inl (a, b)) \<Rightarrow> 2 * (size_list size a + size_list size b) + 2
    | Inr (Inr (_, l, r)) \<Rightarrow> 2 * (opt_size l + opt_size r) + 1)", goal_cases)
  case (4 a b x xa y xb ya)
  then show ?case using join_names_size [of xa xb ya a b] by auto
next
  case (5 name l r)
  then show ?case using size_field_type [of l] size_field_type [of r] by simp
qed auto

declare ty_join.simps [simp del] join_structs.simps [simp del]

text \<open>The types the constructors admit: decimals in range and fields of distinct names.\<close>

fun wf_type :: "logical_type \<Rightarrow> bool" and wf_field :: "field \<Rightarrow> bool" where
  "wf_type (TDecimal d) \<longleftrightarrow>
     0 < d_precision d \<and> d_precision d \<le> MAX_DECIMAL_PRECISION \<and> d_scale d \<le> d_precision d"
| "wf_type (TStruct fs) \<longleftrightarrow> distinct (map f_name fs) \<and> list_all wf_field fs"
| "wf_type (TList f) \<longleftrightarrow> wf_field f"
| "wf_type _ \<longleftrightarrow> True"
| "wf_field (Field n t b) \<longleftrightarrow> wf_type t"

lemma wf_field_type: "wf_field f \<longleftrightarrow> wf_type (f_type f)"
  by (cases f) simp

lemma fields_dup_None: "fields_dup seen fs = None \<longleftrightarrow> distinct (map f_name fs) \<and> set (map f_name fs) \<inter> set seen = {}"
  by (induction fs arbitrary: seen) auto

lemma fields_new_Inr: "fields_new fs = Inr gs \<longleftrightarrow> gs = fs \<and> distinct (map f_name fs)"
  by (auto simp: fields_new_def fields_dup_None split: option.splits)
     (metis fields_dup_None inf_bot_right list.set(1) option.distinct(1))

subsection \<open>Families of types\<close>

text \<open>Types of different families join to \<open>Json\<close>; a family is closed under the join but for it.\<close>

fun family :: "logical_type \<Rightarrow> nat" where
  "family TNull = 0"
| "family TJson = 1"
| "family TBool = 2"
| "family TUtf8 = 3"
| "family TBinary = 4"
| "family TUuid = 5"
| "family TDate = 6"
| "family (TTimestamp _ _) = 6"
| "family (TTime _) = 7"
| "family (TDuration _) = 8"
| "family (TStruct _) = 9"
| "family (TList _) = 10"
| "family _ = 11"

lemmas join_defs = ty_join.simps join_leaves_def is_numeric_float_mix_def is_float_def is_exact_def

lemma join_idem [simp]: "ty_join a a = a"
  by (simp add: ty_join.simps)

lemma join_Null [simp]: "ty_join TNull a = a" "ty_join a TNull = a"
  by (simp_all add: ty_join.simps)

lemma join_Json [simp]: "ty_join TJson a = TJson" "ty_join a TJson = TJson"
  by (cases a; simp add: join_defs)+

lemma join_cross: "family a \<noteq> family b \<Longrightarrow> a \<noteq> TNull \<Longrightarrow> b \<noteq> TNull \<Longrightarrow> ty_join a b = TJson"
  by (cases a; cases b; simp add: join_defs)

lemma join_decimals_family: "family (join_decimals d i s) \<in> {11, 1}"
  by (auto simp: join_decimals_def Let_def split: sum.splits)

lemma join_family: "family a = family b \<Longrightarrow> family (ty_join a b) \<in> {family a, 1}"
  using join_decimals_family
  by (cases a; cases b; simp add: join_defs)

lemma family_0_1: "family a = 0 \<longleftrightarrow> a = TNull" "family a = 1 \<longleftrightarrow> a = TJson" "family a = Suc 0 \<longleftrightarrow> a = TJson"
  by (cases a; simp)+

subsection \<open>Structs by lookup\<close>

text \<open>The struct join is, name by name, the join of what either side has of the name; its fields
  are in the order of their names, and fields in that order with the same lookups are the same.\<close>

definition merge_sides :: "string \<Rightarrow> field option \<Rightarrow> field option \<Rightarrow> field option" where
  "merge_sides n l r = (if l = None \<and> r = None then None else Some (join_fields n l r))"

lemma fields_get_name: "fields_get fs n = Some f \<Longrightarrow> f_name f = n \<and> f \<in> set fs"
  by (auto simp: fields_get_def find_Some_iff)

lemma fields_get_Cons: "fields_get (f # fs) n = (if f_name f = n then Some f else fields_get fs n)"
  by (simp add: fields_get_def)

lemma fields_get_Nil [simp]: "fields_get [] n = None"
  by (simp add: fields_get_def)

lemma fields_get_map_of: "fields_get fs n = map_of (map (\<lambda>f. (f_name f, f)) fs) n"
  by (induction fs) (auto simp: fields_get_Cons)

lemma fields_ext:
  assumes "sorted_wrt (<) (map f_name fs)" and "sorted_wrt (<) (map f_name gs)"
    and "\<And>n. fields_get fs n = fields_get gs n"
  shows "fs = gs"
proof -
  have "map (\<lambda>f. (f_name f, f)) fs = map (\<lambda>f. (f_name f, f)) gs"
    using assms by (intro bt_ext) (auto simp: bt_wf_def o_def fields_get_map_of)
  then have "map snd (map (\<lambda>f. (f_name f, f)) fs) = map snd (map (\<lambda>f. (f_name f, f)) gs)" by simp
  then show ?thesis by (simp add: o_def)
qed

definition side :: "(string, field option \<times> field option) btree \<Rightarrow> string \<Rightarrow> field option \<times> field option" where
  "side m n = (case bt_get m n of Some e \<Rightarrow> e | None \<Rightarrow> (None, None))"

lemma side_names:
  "side (names_left m f) n = (if n = f_name f then (Some f, snd (side m n)) else side m n)"
  "side (names_right m f) n = (if n = f_name f then (fst (side m n), Some f) else side m n)"
  by (auto simp: side_def names_left_def names_right_def btree_simps split: option.splits)

lemma side_foldl:
  "distinct (map f_name a) \<Longrightarrow> side (foldl names_left m a) n =
     (case fields_get a n of Some f \<Rightarrow> (Some f, snd (side m n)) | None \<Rightarrow> side m n)"
  "distinct (map f_name b) \<Longrightarrow> side (foldl names_right m b) n =
     (case fields_get b n of Some f \<Rightarrow> (fst (side m n), Some f) | None \<Rightarrow> side m n)"
proof -
  have absent: "f_name f \<notin> f_name ` set fs \<Longrightarrow> fields_get fs (f_name f) = None" for f :: field and fs
    by (auto simp: fields_get_def find_None_iff image_iff)
  show "distinct (map f_name a) \<Longrightarrow> side (foldl names_left m a) n =
     (case fields_get a n of Some f \<Rightarrow> (Some f, snd (side m n)) | None \<Rightarrow> side m n)"
    by (induction a arbitrary: m)
      (auto simp: fields_get_Cons side_names absent split: option.splits)
  show "distinct (map f_name b) \<Longrightarrow> side (foldl names_right m b) n =
     (case fields_get b n of Some f \<Rightarrow> (fst (side m n), Some f) | None \<Rightarrow> side m n)"
    by (induction b arbitrary: m)
      (auto simp: fields_get_Cons side_names absent split: option.splits)
qed

lemma side_join_names:
  assumes "distinct (map f_name a)" and "distinct (map f_name b)"
  shows "side (join_names a b) n = (fields_get a n, fields_get b n)"
proof -
  have "side [] n = (None, None)" by (simp add: side_def)
  with assms show ?thesis by (auto simp: join_names_def side_foldl split: option.splits)
qed

definition sided :: "(string, field option \<times> field option) btree \<Rightarrow> bool" where
  "sided m \<longleftrightarrow> bt_wf m \<and> (\<forall>n. bt_get m n \<noteq> Some (None, None))"

lemma sided_foldl:
  "sided m \<Longrightarrow> sided (foldl names_left m a)" "sided m \<Longrightarrow> sided (foldl names_right m a)"
proof -
  have step: "sided m \<Longrightarrow> sided (names_left m f)" "sided m \<Longrightarrow> sided (names_right m f)" for m f
    by (auto simp: sided_def names_left_def names_right_def btree_simps)
  show "sided m \<Longrightarrow> sided (foldl names_left m a)" "sided m \<Longrightarrow> sided (foldl names_right m a)"
    by (induction a arbitrary: m; simp add: step)+
qed

lemma join_names_sided: "sided (join_names a b)"
  unfolding join_names_def by (intro sided_foldl) (simp add: sided_def)

lemma join_fields_name [simp]: "f_name (join_fields n l r) = n"
  by (cases "(n, l, r)" rule: join_fields.cases) auto

lemma join_structs_sorted: "sorted_wrt (<) (map f_name (join_structs a b))"
proof -
  have "map f_name (join_structs a b) = map fst (join_names a b)"
    by (auto simp: join_structs.simps)
  then show ?thesis using join_names_sided [of a b] by (simp add: sided_def bt_wf_def)
qed

lemma fields_get_entries:
  "fields_get (map (\<lambda>(n, l, r). join_fields n l r) m) n
    = map_option (\<lambda>(l, r). join_fields n l r) (bt_get m n)"
  by (induction m) (auto simp: fields_get_Cons)

lemma get_join_structs:
  assumes "distinct (map f_name a)" and "distinct (map f_name b)"
  shows "fields_get (join_structs a b) n = merge_sides n (fields_get a n) (fields_get b n)"
  using side_join_names [OF assms, of n] join_names_sided [of a b]
  by (cases "fields_get a n"; cases "fields_get b n")
    (auto simp: join_structs.simps fields_get_entries merge_sides_def side_def sided_def
      split: option.splits)

subsection \<open>The semilattice\<close>

lemma join_struct: "TStruct fa \<noteq> TStruct fb \<Longrightarrow> ty_join (TStruct fa) (TStruct fb) = TStruct (join_structs fa fb)"
  by (simp add: join_defs)

lemma join_list: "TList fa \<noteq> TList fb \<Longrightarrow>
   ty_join (TList fa) (TList fb) = TList (Field LIST_ITEM (ty_join (f_type fa) (f_type fb)) (f_nullable fa \<or> f_nullable fb))"
  by (simp add: join_defs)

definition struct_join :: "field list \<Rightarrow> field list \<Rightarrow> field list" where
  "struct_join a b = (if a = b then a else join_structs a b)"

lemma ty_join_struct: "ty_join (TStruct a) (TStruct b) = TStruct (struct_join a b)"
  by (simp add: struct_join_def join_struct)

lemma merge_sides_idem: "fields_get a n = l \<Longrightarrow> merge_sides n l l = l"
  by (cases l; cases "the l") (auto simp: merge_sides_def dest: fields_get_name)

lemma get_struct_join:
  assumes "distinct (map f_name a)" and "distinct (map f_name b)"
  shows "fields_get (struct_join a b) n = merge_sides n (fields_get a n) (fields_get b n)"
  using get_join_structs [OF assms] merge_sides_idem [of a n] by (auto simp: struct_join_def)

lemma strict_sorted_distinct: "sorted_wrt (<) (xs :: 'a::linorder list) \<Longrightarrow> distinct xs"
  by (induction xs) auto

lemma distinct_struct_join:
  "distinct (map f_name a) \<Longrightarrow> distinct (map f_name (struct_join a b))"
  using strict_sorted_distinct [OF join_structs_sorted [of a b]] by (auto simp: struct_join_def)

text \<open>Sorted unless both sides are the same fields.\<close>

lemma struct_join_sorted: "a \<noteq> b \<Longrightarrow> sorted_wrt (<) (map f_name (struct_join a b))"
  by (simp add: struct_join_def join_structs_sorted)

lemma wf_struct_get: "wf_type (TStruct fs) \<Longrightarrow> fields_get fs n = Some f \<Longrightarrow> wf_type (f_type f) \<and> size (f_type f) < size_list size fs"
  using fields_get_name size_in_fields size_field_type
  by (fastforce simp: list_all_iff wf_field_type intro: less_trans)

lemma join_comm: "wf_type a \<Longrightarrow> wf_type b \<Longrightarrow> ty_join a b = ty_join b a"
proof (induction "size a + size b" arbitrary: a b rule: less_induct)
  case less
  consider "a = TNull \<or> b = TNull \<or> family a \<noteq> family b" | "a = b"
    | fa fb where "a = TStruct fa" "b = TStruct fb" "fa \<noteq> fb"
    | fa fb where "a = TList fa" "b = TList fb" "fa \<noteq> fb"
    | "a \<noteq> b" "family a = family b" "family a = 6 \<or> family a = 7 \<or> family a = 8 \<or> family a = 11"
    by (cases a; cases b) auto
  then show ?case
  proof cases
    case 1
    then show ?thesis using join_cross [of a b] join_cross [of b a] by fastforce
  next
    case (3 fa fb)
    have "join_fields n (fields_get fa n) (fields_get fb n)
        = join_fields n (fields_get fb n) (fields_get fa n)" for n
      using less 3 wf_struct_get [of fa n] wf_struct_get [of fb n]
      by (cases "fields_get fa n"; cases "fields_get fb n") (force simp: add_less_mono)+
    then have "fields_get (join_structs fa fb) n = fields_get (join_structs fb fa) n" for n
      using less.prems 3 by (simp add: get_join_structs merge_sides_def)
    then have "join_structs fa fb = join_structs fb fa"
      by (intro fields_ext join_structs_sorted)
    with 3 show ?thesis by (simp add: join_struct)
  next
    case (4 fa fb)
    then show ?thesis
      using less size_field_type [of fa] size_field_type [of fb]
      by (simp add: join_list wf_field_type disj_commute)
  next
    case 5
    then show ?thesis
      by (cases a; cases b)
        (auto simp: join_defs join_decimals_def Let_def max.commute max.left_commute)
  qed simp
qed

text \<open>Where the types are not all of one family, both groupings give \<open>Json\<close>.\<close>

lemma join_nonnull: "a \<noteq> TNull \<Longrightarrow> b \<noteq> TNull \<Longrightarrow> ty_join a b \<noteq> TNull"
proof (cases "family a = family b")
  case True
  moreover assume "a \<noteq> TNull"
  ultimately show ?thesis using join_family [OF True] family_0_1(1) [of "ty_join a b"] family_0_1(1) [of a]
    by auto
next
  case False
  moreover assume "a \<noteq> TNull" "b \<noteq> TNull"
  ultimately show ?thesis by (simp add: join_cross)
qed

lemma join_families:
  assumes "a \<noteq> TNull" "b \<noteq> TNull" "c \<noteq> TNull" and "family c \<noteq> family a \<or> family c \<noteq> family b"
  shows "ty_join (ty_join a b) c = TJson" and "ty_join c (ty_join a b) = TJson"
proof -
  have "ty_join a b = TJson \<or> family (ty_join a b) \<noteq> family c"
  proof (cases "family a = family b")
    case True
    then show ?thesis using join_family [OF True] assms(4) family_0_1(2) [of "ty_join a b"] by auto
  next
    case False
    then show ?thesis using join_cross assms by simp
  qed
  moreover have "ty_join a b \<noteq> TNull" using assms by (intro join_nonnull)
  ultimately show "ty_join (ty_join a b) c = TJson" and "ty_join c (ty_join a b) = TJson"
    using join_cross [of "ty_join a b" c] join_cross [of c "ty_join a b"] assms(3) by fastforce+
qed

lemma merge_sides_assoc:
  assumes "\<And>l' r' s'. l = Some l' \<Longrightarrow> r = Some r' \<Longrightarrow> s = Some s' \<Longrightarrow>
    ty_join (ty_join (f_type l') (f_type r')) (f_type s')
      = ty_join (f_type l') (ty_join (f_type r') (f_type s'))"
  shows "merge_sides n (merge_sides n l r) s = merge_sides n l (merge_sides n r s)"
  using assms by (cases l; cases r; cases s) (auto simp: merge_sides_def)

lemma struct_join_assoc:
  assumes wf: "wf_type (TStruct a)" "wf_type (TStruct b)" "wf_type (TStruct c)"
    and IH: "\<And>f g h. f \<in> set a \<Longrightarrow> g \<in> set b \<Longrightarrow> h \<in> set c \<Longrightarrow>
      ty_join (ty_join (f_type f) (f_type g)) (f_type h)
        = ty_join (f_type f) (ty_join (f_type g) (f_type h))"
  shows "struct_join (struct_join a b) c = struct_join a (struct_join b c)"
proof (cases "a = b \<and> b = c")
  case True
  then show ?thesis by (simp add: struct_join_def)
next
  case False
  have d: "distinct (map f_name a)" "distinct (map f_name b)" "distinct (map f_name c)"
    using wf by simp_all
  have "sorted_wrt (<) (map f_name (struct_join (struct_join a b) c))"
    using False struct_join_sorted [of a b] struct_join_sorted [of "struct_join a b" c]
    by (cases "a = b"; cases "struct_join a b = c") (auto simp: struct_join_def)
  moreover have "sorted_wrt (<) (map f_name (struct_join a (struct_join b c)))"
    using False struct_join_sorted [of b c] struct_join_sorted [of a "struct_join b c"]
    by (cases "b = c"; cases "a = struct_join b c") (auto simp: struct_join_def)
  moreover have "fields_get (struct_join (struct_join a b) c) n
      = fields_get (struct_join a (struct_join b c)) n" for n
    using d by (auto simp: get_struct_join distinct_struct_join
        intro!: merge_sides_assoc IH dest: fields_get_name)
  ultimately show ?thesis by (rule fields_ext)
qed

definition item_join :: "field \<Rightarrow> field \<Rightarrow> field" where
  "item_join a b = (if a = b then a
     else Field LIST_ITEM (ty_join (f_type a) (f_type b)) (f_nullable a \<or> f_nullable b))"

lemma ty_join_list: "ty_join (TList a) (TList b) = TList (item_join a b)"
  by (simp add: item_join_def join_list)

lemma item_join_sel:
  "f_type (item_join a b) = ty_join (f_type a) (f_type b)"
  "f_nullable (item_join a b) \<longleftrightarrow> f_nullable a \<or> f_nullable b"
  "a \<noteq> b \<Longrightarrow> f_name (item_join a b) = LIST_ITEM"
  by (simp_all add: item_join_def)

lemma item_join_assoc:
  assumes "ty_join (ty_join (f_type a) (f_type b)) (f_type c)
    = ty_join (f_type a) (ty_join (f_type b) (f_type c))"
  shows "item_join (item_join a b) c = item_join a (item_join b c)"
proof (rule field.expand)
  have "f_name (item_join (item_join a b) c) = f_name (item_join a (item_join b c))"
  proof (cases "a = b \<and> b = c")
    case False
    then have "f_name (item_join (item_join a b) c) = LIST_ITEM"
      using item_join_sel(3) [of a b] item_join_sel(3) [of "item_join a b" c]
      by (cases "item_join a b = c") (auto simp: item_join_def split: if_splits)
    moreover have "f_name (item_join a (item_join b c)) = LIST_ITEM"
      using False item_join_sel(3) [of b c] item_join_sel(3) [of a "item_join b c"]
      by (cases "a = item_join b c") (auto simp: item_join_def split: if_splits)
    ultimately show ?thesis by simp
  qed (simp add: item_join_def)
  with assms show "f_name (item_join (item_join a b) c) = f_name (item_join a (item_join b c)) \<and>
    f_type (item_join (item_join a b) c) = f_type (item_join a (item_join b c)) \<and>
    f_nullable (item_join (item_join a b) c) = f_nullable (item_join a (item_join b c))"
    by (auto simp: item_join_sel)
qed

text \<open>Numeric types: a decimal by its digits before and after the point, and the joins as a table.\<close>

definition dec :: "nat \<Rightarrow> nat \<Rightarrow> logical_type" where
  "dec i s = (if i + s \<le> MAX_DECIMAL_PRECISION then TDecimal (DecimalType (i + s) s) else TJson)"

lemma wf_decimal_dec:
  assumes "wf_type (TDecimal d)"
  obtains i s where "TDecimal d = dec i s" "0 < i + s"
proof (rule that)
  show "TDecimal d = dec (d_precision d - d_scale d) (d_scale d)"
    using assms by (cases d) (simp add: dec_def)
  show "0 < d_precision d - d_scale d + d_scale d" using assms by simp
qed

lemma join_decimals_dec: "0 < i + s \<Longrightarrow> i + s \<le> MAX_DECIMAL_PRECISION \<Longrightarrow>
   join_decimals (DecimalType (i + s) s) j t = dec (max i j) (max s t)"
  by (auto simp: join_decimals_def decimal_new_def dec_def Let_def MAX_DECIMAL_PRECISION_def)

lemma dec_mono: "i \<le> j \<Longrightarrow> s \<le> t \<Longrightarrow> dec i s = TJson \<Longrightarrow> dec j t = TJson"
  by (auto simp: dec_def split: if_splits)

lemma dec_join_dec [simp]:
  assumes "0 < i + s" and "0 < j + t"
  shows "ty_join (dec i s) (dec j t) = dec (max i j) (max s t)"
proof (cases "dec i s = TJson \<or> dec j t = TJson")
  case True
  then have "dec (max i j) (max s t) = TJson"
    using dec_mono [of i "max i j" s "max s t"] dec_mono [of j "max i j" t "max s t"] by auto
  with True show ?thesis by auto
next
  case False
  then have *: "dec i s = TDecimal (DecimalType (i + s) s)" "dec j t = TDecimal (DecimalType (j + t) t)"
    "i + s \<le> MAX_DECIMAL_PRECISION" "j + t \<le> MAX_DECIMAL_PRECISION"
    by (auto simp: dec_def split: if_splits)
  show ?thesis
  proof (cases "dec i s = dec j t")
    case True
    with * have "i = j" "s = t" by auto
    then show ?thesis by simp
  next
    case False
    with * have "ty_join (dec i s) (dec j t) = join_decimals (DecimalType (i + s) s) j t"
      by (auto simp: join_defs)
    with * assms show ?thesis by (simp add: join_decimals_dec)
  qed
qed

lemma dec_join_digits:
  assumes "0 < i + s" and "integer_digits t = Some k"
  shows "ty_join (dec i s) t = dec (max i k) s" and "ty_join t (dec i s) = dec (max i k) s"
proof -
  have t: "t = TInt8 \<or> t = TInt16 \<or> t = TInt32 \<or> t = TInt64"
    using assms(2) by (cases t) auto
  show "ty_join (dec i s) t = dec (max i k) s" "ty_join t (dec i s) = dec (max i k) s"
    using t assms dec_mono [of i "max i k" s s]
    by (cases "i + s \<le> MAX_DECIMAL_PRECISION";
        auto simp: join_defs join_decimals_dec dec_def [of i s])+
qed

lemma dec_join_float [simp]:
  "ty_join (dec i s) TFloat32 = TJson" "ty_join TFloat32 (dec i s) = TJson"
  "ty_join (dec i s) TFloat64 = TJson" "ty_join TFloat64 (dec i s) = TJson"
  by (simp_all add: dec_def join_defs)

lemma dec_join_int [simp]:
  assumes "0 < i + s"
  shows "ty_join (dec i s) TInt8 = dec (max i 3) s" "ty_join TInt8 (dec i s) = dec (max i 3) s"
    "ty_join (dec i s) TInt16 = dec (max i 5) s" "ty_join TInt16 (dec i s) = dec (max i 5) s"
    "ty_join (dec i s) TInt32 = dec (max i 10) s" "ty_join TInt32 (dec i s) = dec (max i 10) s"
    "ty_join (dec i s) TInt64 = dec (max i 19) s" "ty_join TInt64 (dec i s) = dec (max i 19) s"
  using assms by (simp_all add: dec_join_digits)

lemma number_table [simp]:
  "ty_join TInt8 TInt16 = TInt16" "ty_join TInt8 TInt32 = TInt32" "ty_join TInt8 TInt64 = TInt64"
  "ty_join TInt16 TInt8 = TInt16" "ty_join TInt16 TInt32 = TInt32" "ty_join TInt16 TInt64 = TInt64"
  "ty_join TInt32 TInt8 = TInt32" "ty_join TInt32 TInt16 = TInt32" "ty_join TInt32 TInt64 = TInt64"
  "ty_join TInt64 TInt8 = TInt64" "ty_join TInt64 TInt16 = TInt64" "ty_join TInt64 TInt32 = TInt64"
  "ty_join TFloat32 TInt8 = TFloat64" "ty_join TFloat32 TInt16 = TFloat64"
  "ty_join TFloat32 TInt32 = TFloat64" "ty_join TFloat32 TInt64 = TJson"
  "ty_join TFloat64 TInt8 = TFloat64" "ty_join TFloat64 TInt16 = TFloat64"
  "ty_join TFloat64 TInt32 = TFloat64" "ty_join TFloat64 TInt64 = TJson"
  "ty_join TInt8 TFloat32 = TFloat64" "ty_join TInt16 TFloat32 = TFloat64"
  "ty_join TInt32 TFloat32 = TFloat64" "ty_join TInt64 TFloat32 = TJson"
  "ty_join TInt8 TFloat64 = TFloat64" "ty_join TInt16 TFloat64 = TFloat64"
  "ty_join TInt32 TFloat64 = TFloat64" "ty_join TInt64 TFloat64 = TJson"
  "ty_join TFloat32 TFloat64 = TFloat64" "ty_join TFloat64 TFloat32 = TFloat64"
  by (simp_all add: join_defs)

lemma family_number:
  assumes "family a = 11" and "wf_type a"
  obtains "a = TInt8" | "a = TInt16" | "a = TInt32" | "a = TInt64" | "a = TFloat32" | "a = TFloat64"
    | i s where "a = dec i s" "0 < i + s"
  using assms wf_decimal_dec by (cases a) auto

lemma join_numeric_assoc:
  assumes "wf_type a" "wf_type b" "wf_type c" and "family a = 11" "family b = 11" "family c = 11"
  shows "ty_join (ty_join a b) c = ty_join a (ty_join b c)"
proof -
  note num = family_number [OF assms(4,1)] family_number [OF assms(5,2)] family_number [OF assms(6,3)]
  show ?thesis
    by (rule num(1); rule num(2); rule num(3); auto simp: max.assoc max.commute max.left_commute less_max_iff_disj)
qed

lemma family_dates:
  "family a = 6 \<longleftrightarrow> a = TDate \<or> (\<exists>u z. a = TTimestamp u z)"
  "family a = 7 \<longleftrightarrow> (\<exists>u. a = TTime u)"
  "family a = 8 \<longleftrightarrow> (\<exists>u. a = TDuration u)"
  by (cases a; simp)+

lemma date_table:
  "ty_join (TTimestamp u z) (TTimestamp v y) = TTimestamp (max u v) (if z = y then z else Some ''UTC'')"
  "ty_join TDate (TTimestamp u z) = TTimestamp u z" "ty_join (TTimestamp u z) TDate = TTimestamp u z"
  "ty_join (TTime u) (TTime v) = TTime (max u v)"
  "ty_join (TDuration u) (TDuration v) = TDuration (max u v)"
  by (auto simp: join_defs)

lemma join_dates_assoc:
  assumes "family a = family b" "family b = family c" and "family a = 6 \<or> family a = 7 \<or> family a = 8"
  shows "ty_join (ty_join a b) c = ty_join a (ty_join b c)"
proof -
  consider "family a = 6" "family b = 6" "family c = 6" | "family a = 7" "family b = 7" "family c = 7"
    | "family a = 8" "family b = 8" "family c = 8" using assms by metis
  then show ?thesis
    by cases (auto simp: family_dates date_table max.assoc)
qed

lemma family_range: "family a \<le> 11"
  by (cases a) simp_all

lemma family_struct: "family a = 9 \<longleftrightarrow> (\<exists>fs. a = TStruct fs)"
  by (cases a) simp_all

lemma family_list: "family a = 10 \<longleftrightarrow> (\<exists>f. a = TList f)"
  by (cases a) simp_all

lemma family_single: "family a \<le> 5 \<Longrightarrow> family a = family b \<Longrightarrow> a = b"
  by (cases a; simp; cases b; simp)

lemma struct_field:
  assumes "wf_type (TStruct fs)" and "f \<in> set fs"
  shows "wf_type (f_type f)" and "size (f_type f) < size (TStruct fs)"
  using assms size_in_fields [OF assms(2)] size_field_type [of f]
  by (auto simp: list_all_iff wf_field_type)

lemma list_field:
  assumes "wf_type (TList f)"
  shows "wf_type (f_type f)" and "size (f_type f) < size (TList f)"
  using assms size_field_type [of f] by (auto simp: wf_field_type)

lemma join_assoc:
  "wf_type a \<Longrightarrow> wf_type b \<Longrightarrow> wf_type c \<Longrightarrow> ty_join (ty_join a b) c = ty_join a (ty_join b c)"
proof (induction "size a + size b + size c" arbitrary: a b c rule: less_induct)
  case less
  consider "a = TNull \<or> b = TNull \<or> c = TNull"
    | "a \<noteq> TNull" "b \<noteq> TNull" "c \<noteq> TNull" "family a \<noteq> family b \<or> family b \<noteq> family c"
    | "family a = family b" "family b = family c" "family a \<le> 5"
    | "family a = family b" "family b = family c" "family a = 6 \<or> family a = 7 \<or> family a = 8"
    | "family a = 9" "family b = 9" "family c = 9"
    | "family a = 10" "family b = 10" "family c = 10"
    | "family a = 11" "family b = 11" "family c = 11"
    using family_range [of a] by linarith
  then show ?case
  proof cases
    case 2
    then show ?thesis
      using join_families [of a b c] join_families [of b c a] join_cross [of a b] join_cross [of b c]
      by (cases "family a = family b") auto
  next
    case 3
    then have "a = b" "b = c" using family_single by auto
    then show ?thesis by simp
  next
    case 5
    then obtain fa fb fc where *: "a = TStruct fa" "b = TStruct fb" "c = TStruct fc"
      unfolding family_struct by blast
    have "ty_join (ty_join (f_type f) (f_type g)) (f_type h)
        = ty_join (f_type f) (ty_join (f_type g) (f_type h))"
      if "f \<in> set fa" "g \<in> set fb" "h \<in> set fc" for f g h
      using less.prems that struct_field unfolding *
      by (intro less.hyps) (simp_all only: * add_less_mono)
    then show ?thesis using struct_join_assoc [of fa fb fc] less.prems
      unfolding * ty_join_struct by blast
  next
    case 6
    then obtain fa fb fc where *: "a = TList fa" "b = TList fb" "c = TList fc"
      unfolding family_list by blast
    have "ty_join (ty_join (f_type fa) (f_type fb)) (f_type fc)
        = ty_join (f_type fa) (ty_join (f_type fb) (f_type fc))"
      using less.prems list_field unfolding *
      by (intro less.hyps) (simp_all only: * add_less_mono)
    then show ?thesis unfolding * ty_join_list by (simp add: item_join_assoc)
  qed (use less.prems join_dates_assoc join_numeric_assoc in auto)
qed

lemma merge_sides_wf:
  assumes "merge_sides n l r = Some f" and "\<And>g. l = Some g \<Longrightarrow> wf_field g" "\<And>g. r = Some g \<Longrightarrow> wf_field g"
    and "\<And>g h. l = Some g \<Longrightarrow> r = Some h \<Longrightarrow> wf_type (ty_join (f_type g) (f_type h))"
  shows "wf_field f"
  using assms by (cases l; cases r) (auto simp: merge_sides_def wf_field_type split: if_splits)

lemma fields_get_distinct: "distinct (map f_name fs) \<Longrightarrow> f \<in> set fs \<Longrightarrow> fields_get fs (f_name f) = Some f"
  by (induction fs) (auto simp: fields_get_Cons)

lemma wf_dec: "0 < i + s \<Longrightarrow> wf_type (dec i s)"
  by (auto simp: dec_def)

lemma wf_struct_join:
  assumes wf: "wf_type (TStruct a)" "wf_type (TStruct b)"
    and IH: "\<And>f g. f \<in> set a \<Longrightarrow> g \<in> set b \<Longrightarrow> wf_type (ty_join (f_type f) (f_type g))"
  shows "wf_type (TStruct (struct_join a b))"
proof -
  have d: "distinct (map f_name a)" "distinct (map f_name b)" using wf by simp_all
  note dj = distinct_struct_join [OF d(1), of b]
  have "wf_field f" if "f \<in> set (struct_join a b)" for f
  proof -
    have "merge_sides (f_name f) (fields_get a (f_name f)) (fields_get b (f_name f)) = Some f"
      using fields_get_distinct [OF dj that] get_struct_join [OF d] by simp
    then show ?thesis
      by (rule merge_sides_wf) (insert wf, auto simp: list_all_iff dest: fields_get_name intro: IH)
  qed
  with dj show ?thesis by (simp add: list_all_iff)
qed

lemma wf_numeric_join:
  assumes "wf_type a" "wf_type b" and "family a = 11" "family b = 11"
  shows "wf_type (ty_join a b)"
  by (rule family_number [OF assms(3,1)]; rule family_number [OF assms(4,2)])
    (auto simp: wf_dec less_max_iff_disj)

lemma wf_join: "wf_type a \<Longrightarrow> wf_type b \<Longrightarrow> wf_type (ty_join a b)"
proof (induction "size a + size b" arbitrary: a b rule: less_induct)
  case less
  consider "a = TNull \<or> b = TNull \<or> a = b" | "a \<noteq> TNull" "b \<noteq> TNull" "family a \<noteq> family b"
    | "family a = 6" "family b = 6" | "family a = 7" "family b = 7" | "family a = 8" "family b = 8"
    | "family a = 9" "family b = 9" | "family a = 10" "family b = 10" | "family a = 11" "family b = 11"
    using family_range [of a] family_single [of a b] by linarith
  then show ?case
  proof cases
    case 6
    then obtain fa fb where *: "a = TStruct fa" "b = TStruct fb" unfolding family_struct by blast
    have "wf_type (ty_join (f_type f) (f_type g))" if "f \<in> set fa" "g \<in> set fb" for f g
      using less.prems that struct_field unfolding *
      by (intro less.hyps) (simp_all only: * add_less_mono)
    then show ?thesis using wf_struct_join [of fa fb] less.prems unfolding * ty_join_struct by blast
  next
    case 7
    then obtain fa fb where *: "a = TList fa" "b = TList fb" unfolding family_list by blast
    have "wf_type (ty_join (f_type fa) (f_type fb))"
      using less.prems list_field unfolding * by (intro less.hyps) (simp_all only: * add_less_mono)
    then show ?thesis using less.prems unfolding * ty_join_list
      by (auto simp: item_join_def wf_field_type)
  next
    case 2
    then show ?thesis by (simp add: join_cross)
  qed (use less.prems wf_numeric_join in \<open>auto simp: family_dates date_table\<close>)
qed

subsection \<open>The contract of a lattice of types\<close>

text \<open>What the engine relies on when it widens a column to the join of the types it sees: a bounded
  semilattice on the well-formed types. The join of many types then depends on which they are,
  and not on their order, grouping or repetition, and it is their least upper bound.\<close>

locale type_lattice =
  fixes ok :: "'t \<Rightarrow> bool" and join :: "'t \<Rightarrow> 't \<Rightarrow> 't" and bot :: 't and top :: 't
  assumes closed: "ok a \<Longrightarrow> ok b \<Longrightarrow> ok (join a b)"
    and bot_ok: "ok bot"
    and assoc: "ok a \<Longrightarrow> ok b \<Longrightarrow> ok c \<Longrightarrow> join (join a b) c = join a (join b c)"
    and comm: "ok a \<Longrightarrow> ok b \<Longrightarrow> join a b = join b a"
    and idem: "join a a = a"
    and bot: "join bot a = a"
    and top: "join a top = top"
begin

definition below :: "'t \<Rightarrow> 't \<Rightarrow> bool" where
  "below a b \<longleftrightarrow> join a b = b"

lemma fold_ok: "ok z \<Longrightarrow> \<forall>x\<in>set xs. ok x \<Longrightarrow> ok (foldl join z xs)"
  by (induction xs arbitrary: z) (auto simp: closed)

lemma foldl_join: "ok z \<Longrightarrow> \<forall>x\<in>set xs. ok x \<Longrightarrow> foldl join z xs = join z (foldl join bot xs)"
proof (induction xs arbitrary: z)
  case Nil
  then show ?case by (simp add: comm [of z bot] bot bot_ok)
next
  case (Cons x xs)
  have ok: "ok z" "ok x" "\<forall>x\<in>set xs. ok x" using Cons.prems by simp_all
  have *: "foldl join (join z x) xs = join (join z x) (foldl join bot xs)"
    "foldl join x xs = join x (foldl join bot xs)" "ok (foldl join bot xs)"
    using Cons.IH [OF closed [OF ok(1,2)] ok(3)] Cons.IH [OF ok(2,3)] fold_ok [OF bot_ok ok(3)] by simp_all
  with Cons.prems show ?case using assoc [of z x "foldl join bot xs"] by (simp add: bot)
qed

lemma upper: "\<forall>x\<in>set xs. ok x \<Longrightarrow> x \<in> set xs \<Longrightarrow> below x (foldl join bot xs)"
proof (induction xs)
  case (Cons y ys)
  let ?F = "foldl join bot ys"
  have F: "ok ?F" "foldl join bot (y # ys) = join y ?F"
    using Cons.prems fold_ok [OF bot_ok, of ys] foldl_join [of y ys] by (simp_all add: bot)
  have ok: "ok x" "ok y" using Cons.prems by auto
  show ?case
  proof (cases "x = y")
    case True
    have "join x (join x ?F) = join (join x x) ?F" using ok F(1) by (simp only: assoc)
    then show ?thesis using True F(2) by (simp only: below_def idem)
  next
    case False
    with Cons have "join x ?F = ?F" by (simp add: below_def)
    moreover have "join x (join y ?F) = join y (join x ?F)"
      using ok F(1) assoc [of x y ?F] assoc [of y x ?F] comm [of x y] by simp
    ultimately show ?thesis using F(2) by (simp only: below_def)
  qed
qed simp

lemma least: "\<forall>x\<in>set xs. ok x \<and> below x c \<Longrightarrow> ok c \<Longrightarrow> below (foldl join bot xs) c"
proof (induction xs)
  case (Cons y ys)
  have "foldl join bot (y # ys) = join y (foldl join bot ys)" "ok (foldl join bot ys)"
    using Cons.prems foldl_join [of y ys] fold_ok [OF bot_ok, of ys] by (simp_all add: bot)
  with Cons show ?case using assoc [of y "foldl join bot ys" c] by (simp add: below_def)
qed (simp add: below_def bot)

lemma below_antisym: "ok a \<Longrightarrow> ok b \<Longrightarrow> below a b \<Longrightarrow> below b a \<Longrightarrow> a = b"
  unfolding below_def using comm [of a b] by simp

lemma fold_set:
  assumes "\<forall>x\<in>set xs. ok x" and "set xs = set ys"
  shows "foldl join bot xs = foldl join bot ys"
proof (rule below_antisym)
  show "ok (foldl join bot xs)" "ok (foldl join bot ys)" using assms by (simp_all add: fold_ok bot_ok)
  show "below (foldl join bot xs) (foldl join bot ys)"
    using assms by (intro least) (simp_all add: upper fold_ok bot_ok)
  show "below (foldl join bot ys) (foldl join bot xs)"
    using assms upper [of xs] by (intro least) (simp_all add: fold_ok bot_ok)
qed

end

interpretation ty: type_lattice wf_type ty_join TNull TJson
  by unfold_locales (simp_all add: wf_join join_assoc, rule join_comm)

subsection \<open>Properties\<close>

text \<open>C9: the join of logical types is associative, commutative and idempotent on every pair and
  triple of types the constructors admit, nested structs and lists included; \<open>Null\<close> is its
  identity, \<open>Json\<close> absorbs, and its result is again a type the constructors admit.\<close>

theorem join_semilattice:
  assumes "wf_type a" and "wf_type b" and "wf_type c"
  shows "ty_join (ty_join a b) c = ty_join a (ty_join b c) \<and> ty_join a b = ty_join b a \<and>
    ty_join a a = a \<and> ty_join TNull a = a \<and> ty_join a TJson = TJson \<and> wf_type (ty_join a b)"
  using assms by (simp add: join_assoc wf_join) (rule join_comm)

theorem join_semilattice_witness:
  "ty_join (ty_join (TStruct [Field ''b'' TInt8 False]) (TStruct [Field ''a'' TUtf8 False]))
       (TStruct [Field ''b'' TFloat32 False])
     = TStruct [Field ''a'' TUtf8 True, Field ''b'' TFloat64 True] \<and>
   ty_join (TStruct [Field ''b'' TInt8 False])
       (ty_join (TStruct [Field ''a'' TUtf8 False]) (TStruct [Field ''b'' TFloat32 False]))
     = TStruct [Field ''a'' TUtf8 True, Field ''b'' TFloat64 True]"
proof -
  have "ty_join (ty_join (TStruct [Field ''b'' TInt8 False]) (TStruct [Field ''a'' TUtf8 False]))
       (TStruct [Field ''b'' TFloat32 False])
     = TStruct [Field ''a'' TUtf8 True, Field ''b'' TFloat64 True]"
    by code_simp
  moreover have "ty_join (ty_join (TStruct [Field ''b'' TInt8 False]) (TStruct [Field ''a'' TUtf8 False]))
       (TStruct [Field ''b'' TFloat32 False])
     = ty_join (TStruct [Field ''b'' TInt8 False])
       (ty_join (TStruct [Field ''a'' TUtf8 False]) (TStruct [Field ''b'' TFloat32 False]))"
    by (rule join_semilattice [THEN conjunct1]) simp_all
  ultimately show ?thesis by simp
qed

text \<open>the type a column reaches when it is widened by one type after another is the least type
  above them all, and depends only on which types were seen, whatever their order and however often.\<close>

theorem join_all_order:
  assumes "\<forall>t\<in>set ts. wf_type t" and "set ts = set us"
  shows "foldl ty_join TNull ts = foldl ty_join TNull us \<and>
    (\<forall>t\<in>set ts. ty_join t (foldl ty_join TNull ts) = foldl ty_join TNull ts) \<and>
    (\<forall>c. wf_type c \<longrightarrow> (\<forall>t\<in>set ts. ty_join t c = c) \<longrightarrow> ty_join (foldl ty_join TNull ts) c = c)"
  using ty.fold_set [OF assms] ty.upper [of ts] ty.least [of ts] assms(1) by (simp add: ty.below_def)

theorem join_all_order_witness:
  "foldl ty_join TNull [TInt8, TDecimal (DecimalType 5 2), TInt16]
     = foldl ty_join TNull [TInt16, TInt16, TDecimal (DecimalType 5 2), TInt8]"
  by (rule join_all_order [THEN conjunct1]) (auto simp: MAX_DECIMAL_PRECISION_def)

end
