(* ===== verification/Schemas.thy ===== *)
theory Schemas
  imports Types
begin

text \<open>
  Table schemas (\<open>crates/rdlt-connector/src/schema.rs\<close>), the stored form of types as nodes in
  preorder (\<open>types/preorder.rs\<close>, \<open>types/flat.rs\<close>) and how a reference destination keeps a table's
  columns as schema changes arrive (\<open>crates/rdlt-connector-reference/src/columns.rs\<close>). The walks
  that the code does with a stack of its own are shown to compute the recursive definitions, reading
  a stored type is shown to be the exact inverse of writing it, and applying a schema change is
  shown to be idempotent and to lose no column and narrow none.
\<close>

subsection \<open>Depth\<close>

fun type_depth :: "logical_type \<Rightarrow> nat" and field_depth :: "field \<Rightarrow> nat" where
  "type_depth (TStruct fs) = Suc (foldr max (map field_depth fs) 0)"
| "type_depth (TList f) = Suc (field_depth f)"
| "type_depth _ = 1"
| "field_depth (Field n t b) = type_depth t"

lemma field_depth_type: "field_depth f = type_depth (f_type f)"
  by (cases f) simp

text \<open>The walk of \<open>depth\<close>: its stack as a list, the top first; a struct's fields go on it in order,
  so the last is on top.\<close>

definition depth_below :: "field \<Rightarrow> nat \<Rightarrow> (field \<times> nat) list" where
  "depth_below f d =
     (case f_type f of
        TStruct nested \<Rightarrow> rev (map (\<lambda>g. (g, sadd d 1)) nested)
      | TList item \<Rightarrow> [(item, sadd d 1)]
      | _ \<Rightarrow> [])"

definition pending_size :: "(field \<times> 'a) list \<Rightarrow> nat" where
  "pending_size p = sum_list (map (\<lambda>(f, _). size f) p)"

lemma sum_list_size: "(\<Sum>x\<leftarrow>fs. size x) \<le> size_list size (fs :: field list)"
  by (induction fs) auto

lemma size_field_eq: "size f = Suc (size (f_type f))"
  by (cases f) simp

lemma depth_below_size: "pending_size (depth_below f d) < size f"
  using sum_list_size
  by (cases "f_type f")
    (auto simp: size_field_eq [of f] depth_below_def pending_size_def rev_map [symmetric] o_def
      less_Suc_eq_le intro: le_SucI)

function depth_loop :: "(field \<times> nat) list \<Rightarrow> nat \<Rightarrow> nat" where
  "depth_loop [] deepest = deepest"
| "depth_loop ((f, d) # pending) deepest = depth_loop (depth_below f d @ pending) (max deepest d)"
  by pat_completeness auto
termination
proof (relation "measure (\<lambda>(p, _). pending_size p)", goal_cases)
  case (2 f d pending deepest)
  then show ?case using depth_below_size [of f d] by (simp add: pending_size_def)
qed simp

definition schema_depth :: "field list \<Rightarrow> nat" where
  "schema_depth fields = depth_loop (rev (map (\<lambda>f. (f, 1)) fields)) 0"

definition table_schema_new :: "field list \<Rightarrow> type_error + field list" where
  "table_schema_new fields =
     (let depth = schema_depth fields
      in if depth > NESTING_DEPTH then Inl (TooDeep depth NESTING_DEPTH)
         else fields_new fields)"

subsection \<open>The stored form\<close>

text \<open>A node of a stored type: the name and nullability of its field, and its type without the
  types nested in it (\<open>flat.rs\<close>: \<open>Node\<close>, \<open>Kind\<close>).\<close>

datatype kind =
    KNull | KBool | KInt8 | KInt16 | KInt32 | KInt64 | KFloat32 | KFloat64
  | KDecimal decimal_type | KUtf8 | KBinary | KDate | KTime time_unit
  | KTimestamp time_unit "string option" | KDuration time_unit | KUuid | KJson
  | KStruct nat | KList

datatype node = Node (n_name: "string option") (n_nullable: "bool option") (n_kind: kind)

type_synonym named = "(string \<times> bool) option"

fun kind_of :: "logical_type \<Rightarrow> kind" where
  "kind_of TNull = KNull"
| "kind_of TBool = KBool"
| "kind_of TInt8 = KInt8"
| "kind_of TInt16 = KInt16"
| "kind_of TInt32 = KInt32"
| "kind_of TInt64 = KInt64"
| "kind_of TFloat32 = KFloat32"
| "kind_of TFloat64 = KFloat64"
| "kind_of (TDecimal d) = KDecimal d"
| "kind_of TUtf8 = KUtf8"
| "kind_of TBinary = KBinary"
| "kind_of TDate = KDate"
| "kind_of (TTime u) = KTime u"
| "kind_of (TTimestamp u z) = KTimestamp u z"
| "kind_of (TDuration u) = KDuration u"
| "kind_of TUuid = KUuid"
| "kind_of TJson = KJson"
| "kind_of (TStruct fields) = KStruct (length fields)"
| "kind_of (TList _) = KList"

text \<open>What one node says of its type (\<open>preorder.rs\<close>: \<open>Shape\<close>, \<open>Unread\<close>).\<close>

datatype shape = Leaf logical_type | ShapeStruct nat | ShapeList

datatype 'e unread = Deep | Ended | Beyond | Unnamed | FieldsError type_error | NodeError 'e

datatype half_named = HalfNamed

fun kind_shape :: "kind \<Rightarrow> shape" where
  "kind_shape KNull = Leaf TNull"
| "kind_shape KBool = Leaf TBool"
| "kind_shape KInt8 = Leaf TInt8"
| "kind_shape KInt16 = Leaf TInt16"
| "kind_shape KInt32 = Leaf TInt32"
| "kind_shape KInt64 = Leaf TInt64"
| "kind_shape KFloat32 = Leaf TFloat32"
| "kind_shape KFloat64 = Leaf TFloat64"
| "kind_shape (KDecimal d) = Leaf (TDecimal d)"
| "kind_shape KUtf8 = Leaf TUtf8"
| "kind_shape KBinary = Leaf TBinary"
| "kind_shape KDate = Leaf TDate"
| "kind_shape (KTime u) = Leaf (TTime u)"
| "kind_shape (KTimestamp u z) = Leaf (TTimestamp u z)"
| "kind_shape (KDuration u) = Leaf (TDuration u)"
| "kind_shape KUuid = Leaf TUuid"
| "kind_shape KJson = Leaf TJson"
| "kind_shape (KStruct count) = ShapeStruct count"
| "kind_shape KList = ShapeList"

definition node_read :: "node \<Rightarrow> half_named + (named \<times> shape)" where
  "node_read node =
     (case (n_name node, n_nullable node) of
        (Some name, Some nullable) \<Rightarrow> Inr (Some (name, nullable), kind_shape (n_kind node))
      | (None, None) \<Rightarrow> Inr (None, kind_shape (n_kind node))
      | _ \<Rightarrow> Inl HalfNamed)"

text \<open>\<open>preorder::nodes\<close>: the walk of a type with a stack, the top first; a struct's fields go on it
  reversed, so the first is on top.\<close>

definition node_below :: "field \<Rightarrow> named \<times> logical_type" where
  "node_below f = (Some (f_name f, f_nullable f), f_type f)"

definition nodes_below :: "logical_type \<Rightarrow> (named \<times> logical_type) list" where
  "nodes_below logical =
     (case logical of
        TStruct fields \<Rightarrow> map node_below fields
      | TList item \<Rightarrow> [node_below item]
      | _ \<Rightarrow> [])"

lemma nodes_below_size: "(\<Sum>(_, t)\<leftarrow>nodes_below logical. Suc (size t)) < Suc (size logical)"
  using sum_list_size
  by (cases logical)
    (auto simp: nodes_below_def node_below_def o_def size_field_eq [symmetric] less_Suc_eq_le
      intro: le_SucI)

function nodes_loop :: "(named \<times> logical_type) list \<Rightarrow> (named \<times> logical_type) list" where
  "nodes_loop [] = []"
| "nodes_loop ((named, logical) # pending) =
     (named, logical) # nodes_loop (nodes_below logical @ pending)"
  by pat_completeness auto
termination
proof (relation "measure (\<lambda>p. \<Sum>(_, t)\<leftarrow>p. Suc (size t))", goal_cases)
  case (2 named logical pending)
  then show ?case using nodes_below_size [of logical] by simp
qed simp

definition preorder_nodes :: "named \<Rightarrow> logical_type \<Rightarrow> (named \<times> logical_type) list" where
  "preorder_nodes root logical = nodes_loop [(root, logical)]"

definition to_node :: "named \<times> logical_type \<Rightarrow> node" where
  "to_node = (\<lambda>(named, logical). Node (map_option fst named) (map_option snd named) (kind_of logical))"

definition serialized :: "named \<Rightarrow> logical_type \<Rightarrow> node list" where
  "serialized root logical = map to_node (preorder_nodes root logical)"

text \<open>\<open>preorder::next\<close> and \<open>whole\<close>: each reader takes the nodes left and returns those after what
  it read. It recurses a level a node, and refuses a node below the nesting limit before reading it.\<close>

function (sequential) read_next :: "('n \<Rightarrow> 'e + named \<times> shape) \<Rightarrow> nat \<Rightarrow> 'n list
      \<Rightarrow> 'e unread + (named \<times> logical_type) \<times> 'n list"
  and read_field :: "('n \<Rightarrow> 'e + named \<times> shape) \<Rightarrow> nat \<Rightarrow> 'n list \<Rightarrow> 'e unread + field \<times> 'n list"
  and read_fields :: "('n \<Rightarrow> 'e + named \<times> shape) \<Rightarrow> nat \<Rightarrow> nat \<Rightarrow> 'n list
      \<Rightarrow> 'e unread + field list \<times> 'n list"
where
  "read_next rd depth nodes =
     (if depth > NESTING_DEPTH then Inl Deep
      else case nodes of
        [] \<Rightarrow> Inl Ended
      | node # rest \<Rightarrow>
          (case rd node of
             Inl e \<Rightarrow> Inl (NodeError e)
           | Inr (named, Leaf logical) \<Rightarrow> Inr ((named, logical), rest)
           | Inr (named, ShapeStruct count) \<Rightarrow>
               (case read_fields rd (depth + 1) (min count (length rest)) rest of
                  Inl e \<Rightarrow> Inl e
                | Inr (fields, rest') \<Rightarrow>
                    if length fields < count then Inl Ended
                    else (case fields_new fields of
                            Inl e \<Rightarrow> Inl (FieldsError e)
                          | Inr fs \<Rightarrow> Inr ((named, TStruct fs), rest')))
           | Inr (named, ShapeList) \<Rightarrow>
               (case read_field rd (depth + 1) rest of
                  Inl e \<Rightarrow> Inl e
                | Inr (item, rest') \<Rightarrow> Inr ((named, TList item), rest'))))"
| "read_field rd depth nodes =
     (case read_next rd depth nodes of
        Inl e \<Rightarrow> Inl e
      | Inr ((Some (name, nullable), logical), rest) \<Rightarrow> Inr (Field name logical nullable, rest)
      | Inr ((None, _), _) \<Rightarrow> Inl Unnamed)"
| "read_fields rd depth 0 nodes = Inr ([], nodes)"
| "read_fields rd depth (Suc count) nodes =
     (case read_field rd depth nodes of
        Inl e \<Rightarrow> Inl e
      | Inr (f, rest) \<Rightarrow>
          (case read_fields rd depth count rest of
             Inl e \<Rightarrow> Inl e
           | Inr (fs, rest') \<Rightarrow> Inr (f # fs, rest')))"
  by pat_completeness auto
termination
  by (relation "inv_image (less_than <*lex*> less_than <*lex*> less_than)
      (\<lambda>x. case x of
         Inl (_, depth, _) \<Rightarrow> (NESTING_DEPTH + 1 - depth, 0, 0)
       | Inr (Inl (_, depth, _)) \<Rightarrow> (NESTING_DEPTH + 1 - depth, 1, 0)
       | Inr (Inr (_, depth, count, _)) \<Rightarrow> (NESTING_DEPTH + 1 - depth, 2, count))") auto

definition read_whole :: "('n \<Rightarrow> 'e + named \<times> shape) \<Rightarrow> 'n list \<Rightarrow> 'e unread + named \<times> logical_type" where
  "read_whole rd nodes =
     (case read_next rd 1 nodes of
        Inl e \<Rightarrow> Inl e
      | Inr (whole, rest) \<Rightarrow> if length rest > 0 then Inl Beyond else Inr whole)"

declare read_next.simps [simp del] read_field.simps [simp del]

subsection \<open>Changing a table's columns\<close>

text \<open>\<open>columns.rs\<close>: the columns a table has once a change applies to it. The table a change names is
  only shown in its errors, and a widen's \<open>from\<close> is not read.\<close>

datatype table_change =
    Create "field list"
  | AddColumn field
  | Widen string logical_type logical_type

datatype change_error = NoTable | NoColumn string | SchemaConflict string | ChangeInternal type_error

definition column_holds :: "field \<Rightarrow> logical_type \<Rightarrow> bool" where
  "column_holds column logical \<longleftrightarrow> ty_join (f_type column) logical = f_type column"

definition column_add :: "field list \<Rightarrow> field \<Rightarrow> change_error + field list" where
  "column_add fields f =
     (case fields_get fields (f_name f) of
        Some existing \<Rightarrow>
          if column_holds existing (f_type f) then Inr fields
          else Inl (SchemaConflict (f_name existing))
      | None \<Rightarrow> Inr (fields @ [Field (f_name f) (f_type f) True]))"

fun column_add_all :: "field list \<Rightarrow> field list \<Rightarrow> change_error + field list" where
  "column_add_all fields [] = Inr fields"
| "column_add_all fields (f # fs) = rbind (column_add fields f) (\<lambda>fields'. column_add_all fields' fs)"

text \<open>The column a widen names, made the join of its type and the new one unless it holds it.\<close>

fun column_widen :: "field list \<Rightarrow> string \<Rightarrow> logical_type \<Rightarrow> field list option" where
  "column_widen [] column to = None"
| "column_widen (f # fs) column to =
     (if f_name f = column
      then Some ((if column_holds f to then f
                  else Field (f_name f) (ty_join (f_type f) to) (f_nullable f)) # fs)
      else map_option ((#) f) (column_widen fs column to))"

definition change_fields :: "field list \<Rightarrow> table_change \<Rightarrow> change_error + field list" where
  "change_fields fields change =
     (case change of
        Create declared \<Rightarrow> column_add_all fields declared
      | AddColumn f \<Rightarrow> column_add fields f
      | Widen column from to \<Rightarrow>
          (case column_widen fields column to of
             None \<Rightarrow> Inl (NoColumn column)
           | Some fields' \<Rightarrow> Inr fields'))"

definition changed :: "field list option \<Rightarrow> table_change \<Rightarrow> change_error + field list" where
  "changed schema change =
     (case (schema, change) of
        (None, Create declared) \<Rightarrow> Inr declared
      | (None, _) \<Rightarrow> Inl NoTable
      | (Some fields, _) \<Rightarrow>
          rbind (change_fields fields change)
            (\<lambda>fields'. case table_schema_new fields' of
               Inl e \<Rightarrow> Inl (ChangeInternal e)
             | Inr s \<Rightarrow> Inr s))"

subsection \<open>Depth is the depth\<close>

definition reach :: "field \<times> nat \<Rightarrow> nat" where
  "reach = (\<lambda>(f, d). min U64_MAX (d + field_depth f - 1))"

lemma type_depth_pos: "0 < type_depth t"
  by (cases t) auto

lemma field_depth_pos: "0 < field_depth f"
  by (simp add: field_depth_type type_depth_pos)

lemma foldr_max_min: "min (M::nat) (d + foldr max xs 0) = max (min M d) (foldr max (map (\<lambda>x. min M (d + x)) xs) 0)"
  by (induction xs) (auto simp: max_def min_def split: if_splits)

lemma foldr_max_init: "foldr max xs z = max (z::nat) (foldr max xs 0)"
  by (induction xs) auto

lemma foldr_max_append: "foldr max (xs @ ys) (z::nat) = max (foldr max xs 0) (foldr max ys z)"
  by (induction xs) auto

lemma foldr_max_rev: "foldr max (rev xs) (0::nat) = foldr max xs 0"
proof (induction xs)
  case (Cons x xs)
  then show ?case using foldr_max_init [of "rev xs" x] by simp
qed simp

lemma reach_below:
  assumes "d \<le> U64_MAX"
  shows "reach (f, d) = max d (foldr max (map reach (depth_below f d)) 0)"
proof -
  have step: "reach (g, sadd d (Suc 0)) = min U64_MAX (d + field_depth g)" for g
    using field_depth_pos [of g] assms by (auto simp: reach_def sadd_def min_def)
  show ?thesis
  proof (cases "f_type f")
    case (TStruct fs)
    then have "map reach (depth_below f d) = rev (map (\<lambda>x. min U64_MAX (d + x)) (map field_depth fs))"
      by (simp add: depth_below_def rev_map step o_def)
    moreover have "reach (f, d) = min U64_MAX (d + foldr max (map field_depth fs) 0)"
      using TStruct by (simp add: reach_def field_depth_type [of f])
    ultimately show ?thesis
      using foldr_max_min [of U64_MAX d "map field_depth fs"] assms by (simp only: foldr_max_rev min_absorb2)
  next
    case (TList g)
    then show ?thesis using assms step [of g] by (simp add: depth_below_def reach_def field_depth_type [of f])
  qed (use assms in \<open>simp_all add: depth_below_def reach_def field_depth_type\<close>)
qed

lemma depth_below_bound: "(g, e) \<in> set (depth_below f d) \<Longrightarrow> e \<le> U64_MAX"
  by (auto simp: depth_below_def split: logical_type.splits)

lemma depth_loop_reach:
  "\<forall>(f, d)\<in>set pending. d \<le> U64_MAX \<Longrightarrow> depth_loop pending deepest = foldr max (map reach pending) deepest"
proof (induction pending deepest rule: depth_loop.induct)
  case (2 f d pending deepest)
  have "\<forall>(g, e)\<in>set (depth_below f d @ pending). e \<le> U64_MAX"
    using 2 depth_below_bound by fastforce
  then have "depth_loop ((f, d) # pending) deepest
      = foldr max (map reach (depth_below f d @ pending)) (max deepest d)"
    using 2 by simp
  also have "\<dots> = max (reach (f, d)) (foldr max (map reach pending) deepest)"
    using reach_below [of d f] "2.prems" foldr_max_init [of "map reach pending" deepest]
      foldr_max_init [of "map reach pending" "max deepest d"]
      foldr_max_init [of "map reach (depth_below f d)" "foldr max (map reach pending) (max deepest d)"]
    by (simp add: foldr_max_append max.assoc max.left_commute max.commute)
  finally show ?case by simp
qed simp

lemma schema_depth_eq: "schema_depth fields = min U64_MAX (foldr max (map field_depth fields) 0)"
proof -
  have 1: "(1::nat) \<le> U64_MAX" by (simp add: U64_MAX_def)
  have "schema_depth fields = foldr max (map reach (map (\<lambda>f. (f, 1)) fields)) 0"
    using 1 by (simp add: schema_depth_def depth_loop_reach rev_map [symmetric] foldr_max_rev)
  also have "map reach (map (\<lambda>f. (f, 1)) fields) = map (\<lambda>x. min U64_MAX (0 + x)) (map field_depth fields)"
    by (simp add: reach_def o_def)
  finally show ?thesis using foldr_max_min [of U64_MAX 0 "map field_depth fields"] by simp
qed

lemma foldr_max_le: "foldr max xs 0 \<le> (k::nat) \<longleftrightarrow> (\<forall>x\<in>set xs. x \<le> k)"
  by (induction xs) auto

lemma table_schema_new_Inr:
  "table_schema_new fields = Inr s \<longleftrightarrow>
     s = fields \<and> distinct (map f_name fields) \<and> (\<forall>f\<in>set fields. field_depth f \<le> NESTING_DEPTH)"
proof -
  have "schema_depth fields > NESTING_DEPTH \<longleftrightarrow> \<not> (\<forall>f\<in>set fields. field_depth f \<le> NESTING_DEPTH)"
    using foldr_max_le [of "map field_depth fields" NESTING_DEPTH]
    by (auto simp: schema_depth_eq U64_MAX_def NESTING_DEPTH_def)
  then show ?thesis by (auto simp: table_schema_new_def Let_def fields_new_Inr)
qed

subsection \<open>Reading is the inverse of writing\<close>

lemma nodes_below_child: "(n, t) \<in> set (nodes_below logical) \<Longrightarrow> size t < size logical"
proof (cases logical)
  case (TStruct fs)
  moreover assume "(n, t) \<in> set (nodes_below logical)"
  ultimately obtain f where "f \<in> set fs" "t = f_type f" by (auto simp: nodes_below_def node_below_def)
  then show ?thesis using size_in_fields [of f fs] size_field_eq [of f] TStruct by simp
next
  case (TList f)
  moreover assume "(n, t) \<in> set (nodes_below logical)"
  ultimately show ?thesis using size_field_eq [of f] by (simp add: nodes_below_def node_below_def)
qed (simp_all add: nodes_below_def)

function flat :: "named \<Rightarrow> logical_type \<Rightarrow> (named \<times> logical_type) list" where
  "flat named logical = (named, logical) # concat (map (\<lambda>(n, t). flat n t) (nodes_below logical))"
  by pat_completeness auto
termination
  by (relation "measure (\<lambda>(_, t). size t)") (auto dest: nodes_below_child)

declare flat.simps [simp del]

lemma nodes_loop_flat: "nodes_loop p = concat (map (\<lambda>(n, t). flat n t) p)"
proof (induction p rule: nodes_loop.induct)
  case (2 named logical pending)
  then show ?case using flat.simps [of named logical] by simp
qed simp

definition flat_field :: "field \<Rightarrow> (named \<times> logical_type) list" where
  "flat_field f = flat (Some (f_name f, f_nullable f)) (f_type f)"

lemma flat_struct: "flat named (TStruct fs) = (named, TStruct fs) # concat (map flat_field fs)"
  by (simp add: flat.simps [of named] nodes_below_def node_below_def flat_field_def [abs_def] o_def)

lemma flat_list: "flat named (TList f) = (named, TList f) # flat_field f"
  by (simp add: flat.simps [of named] nodes_below_def node_below_def flat_field_def)

lemma flat_field_nonempty: "0 < length (flat_field f)"
  by (simp add: flat_field_def flat.simps)

definition is_leaf :: "logical_type \<Rightarrow> bool" where
  "is_leaf t \<longleftrightarrow> family t \<noteq> 9 \<and> family t \<noteq> 10"

lemma flat_leaf: "is_leaf t \<Longrightarrow> flat named t = [(named, t)]"
  by (cases t) (simp_all add: is_leaf_def flat.simps nodes_below_def)

lemma leaf_cases: obtains "is_leaf t" | fs where "t = TStruct fs" | f where "t = TList f"
  by (cases t) (simp_all add: is_leaf_def)

definition shape_of :: "logical_type \<Rightarrow> shape" where
  "shape_of t = kind_shape (kind_of t)"

lemma shape_of_simps [simp]:
  "is_leaf t \<Longrightarrow> shape_of t = Leaf t"
  "shape_of (TStruct fs) = ShapeStruct (length fs)"
  "shape_of (TList f) = ShapeList"
  by (cases t; simp add: is_leaf_def shape_of_def)+

text \<open>
  The contract of a form of nodes: a writer and a reader of one node that are each other's inverse.
  Any such form, the stored one or the wire's, reads back exactly the types it writes.
\<close>

locale node_form =
  fixes wr :: "named \<Rightarrow> shape \<Rightarrow> 'n"
    and rd :: "'n \<Rightarrow> 'e + named \<times> shape"
    and valid :: "'n \<Rightarrow> bool"
  assumes rd_wr: "rd (wr named (shape_of t)) = Inr (named, shape_of t)"
    and wr_rd: "rd n = Inr (named, s) \<Longrightarrow> n = wr named s"
    and rd_leaf: "rd n = Inr (named, Leaf t) \<Longrightarrow> is_leaf t \<and> (valid n \<longrightarrow> wf_type t)"
begin

definition form :: "(named \<times> logical_type) list \<Rightarrow> 'n list" where
  "form ps = map (\<lambda>(n, t). wr n (shape_of t)) ps"

lemma form_simps [simp]:
  "form [] = []" "form ((n, t) # ps) = wr n (shape_of t) # form ps" "form (ps @ qs) = form ps @ form qs"
  "length (form ps) = length ps"
  by (simp_all add: form_def)

lemma read_fields_all:
  assumes "\<And>f rest. f \<in> set fs \<Longrightarrow> read_field rd d (form (flat_field f) @ rest) = Inr (f, rest)"
  shows "read_fields rd d (length fs) (form (concat (map flat_field fs)) @ rest) = Inr (fs, rest)"
  using assms by (induction fs) simp_all

lemma length_flat_fields: "length fs \<le> length (concat (map flat_field fs))"
proof (induction fs)
  case (Cons f fs)
  then show ?case using flat_field_nonempty [of f] by (cases "flat_field f") simp_all
qed simp

lemma read_flat:
  "wf_type t \<Longrightarrow> type_depth t + d \<le> Suc NESTING_DEPTH \<Longrightarrow>
   read_next rd d (form (flat named t) @ rest) = Inr ((named, t), rest)"
proof (induction "size t" arbitrary: t d named rest rule: less_induct)
  case less
  have d: "\<not> d > NESTING_DEPTH" using less.prems(2) type_depth_pos [of t] by simp
  have field: "read_field rd (Suc d) (form (flat_field f) @ rest') = Inr (f, rest')"
    if "size (f_type f) < size t" "wf_type (f_type f)" "field_depth f + d \<le> NESTING_DEPTH" for f rest'
    using less.hyps [OF that(1,2)] that(3)
    by (cases f) (simp add: read_field.simps flat_field_def field_depth_type)
  show ?case
  proof (cases t rule: leaf_cases)
    case 1
    then show ?thesis using d rd_wr [of named t] by (simp add: read_next.simps flat_leaf)
  next
    case (2 fs)
    have each: "read_field rd (Suc d) (form (flat_field f) @ rest') = Inr (f, rest')" if "f \<in> set fs" for f rest'
    proof (rule field)
      show "size (f_type f) < size t" "wf_type (f_type f)"
        using struct_field less.prems(1) that 2 by blast+
      have "field_depth f \<le> foldr max (map field_depth fs) 0" using that by (induction fs) auto
      then show "field_depth f + d \<le> NESTING_DEPTH" using less.prems(2) 2 by simp
    qed
    have "min (length fs) (length (concat (map flat_field fs)) + length rest) = length fs"
      using length_flat_fields [of fs] by simp
    moreover have "fields_new fs = Inr fs" using less.prems(1) 2 by (simp add: fields_new_Inr)
    ultimately show ?thesis
      using d read_fields_all [OF each] 2 rd_wr [of named t] by (simp add: read_next.simps flat_struct)
  next
    case (3 f)
    then have "read_field rd (Suc d) (form (flat_field f) @ rest) = Inr (f, rest)"
      using less.prems list_field [of f] by (intro field) simp_all
    with 3 d show ?thesis using rd_wr [of named t] by (simp add: read_next.simps flat_list)
  qed
qed

text \<open>What a reader returned is what the nodes it took write.\<close>

definition field_read :: "nat \<Rightarrow> 'n list \<Rightarrow> field \<Rightarrow> 'n list \<Rightarrow> bool" where
  "field_read d nodes f rest \<longleftrightarrow> nodes = form (flat_field f) @ rest \<and>
     field_depth f + d \<le> Suc NESTING_DEPTH \<and> (list_all valid nodes \<longrightarrow> wf_field f)"

lemma read_fields_inv:
  assumes "\<And>nodes f rest. read_field rd d nodes = Inr (f, rest) \<Longrightarrow> field_read d nodes f rest"
  shows "read_fields rd d c nodes = Inr (fs, rest) \<Longrightarrow>
    length fs = c \<and> nodes = form (concat (map flat_field fs)) @ rest \<and>
    (\<forall>f\<in>set fs. field_depth f + d \<le> Suc NESTING_DEPTH) \<and> (list_all valid nodes \<longrightarrow> list_all wf_field fs)"
proof (induction c arbitrary: nodes fs)
  case (Suc c)
  then obtain f mid gs where *: "read_field rd d nodes = Inr (f, mid)"
    "read_fields rd d c mid = Inr (gs, rest)" "fs = f # gs"
    by (auto split: sum.splits prod.splits)
  from assms [OF *(1)] Suc.IH [OF *(2)] *(3) show ?case by (auto simp: field_read_def)
qed simp

lemma read_field_inv:
  assumes "\<And>named t rest. read_next rd d nodes = Inr ((named, t), rest) \<Longrightarrow>
      nodes = form (flat named t) @ rest \<and> type_depth t + d \<le> Suc NESTING_DEPTH \<and>
      (list_all valid nodes \<longrightarrow> wf_type t)"
    and "read_field rd d nodes = Inr (f, rest)"
  shows "field_read d nodes f rest"
proof -
  obtain name nullable t where *: "read_next rd d nodes = Inr ((Some (name, nullable), t), rest)"
    "f = Field name t nullable"
    using assms(2) by (auto simp: read_field.simps split: sum.splits prod.splits option.splits)
  from assms(1) [OF *(1)] *(2) show ?thesis by (simp add: field_read_def flat_field_def)
qed

lemma read_next_inv:
  "read_next rd d nodes = Inr ((named, t), rest) \<Longrightarrow>
   nodes = form (flat named t) @ rest \<and> type_depth t + d \<le> Suc NESTING_DEPTH \<and>
   (list_all valid nodes \<longrightarrow> wf_type t)"
proof (induction "Suc NESTING_DEPTH - d" arbitrary: d nodes named t rest rule: less_induct)
  case less
  have d: "d \<le> NESTING_DEPTH"
    using less.prems by (auto simp: read_next.simps split: if_splits)
  have IH: "read_field rd (Suc d) ns = Inr (f, rs) \<Longrightarrow> field_read (Suc d) ns f rs" for ns f rs
    by (rule read_field_inv [OF less.hyps]) (use d in auto)
  obtain node ns s where n: "nodes = node # ns" "rd node = Inr (named, s)"
    using less.prems d
    by (auto simp: read_next.simps split: list.splits sum.splits prod.splits shape.splits if_splits)
  have node: "node = wr named s" using wr_rd n(2) by blast
  show ?case
  proof (cases s)
    case (Leaf u)
    then have "t = u" "rest = ns" using less.prems d n by (auto simp: read_next.simps)
    with Leaf n node d rd_leaf [of node named u] show ?thesis
      by (cases u) (auto simp: flat_leaf is_leaf_def shape_of_def)
  next
    case (ShapeStruct count)
    then obtain fs where fs: "read_fields rd (Suc d) (min count (length ns)) ns = Inr (fs, rest)"
      "\<not> length fs < count" "fields_new fs = Inr fs" "t = TStruct fs"
      using less.prems d n by (auto simp: read_next.simps fields_new_Inr split: sum.splits prod.splits if_splits)
    note inv = read_fields_inv [OF IH fs(1)]
    moreover have "length fs = count" using inv fs(2) by auto
    moreover have "foldr max (map field_depth fs) 0 + d \<le> NESTING_DEPTH"
      using inv d foldr_max_le [of "map field_depth fs" "NESTING_DEPTH - d"] by auto
    ultimately show ?thesis using fs n node ShapeStruct
      by (auto simp: flat_struct fields_new_Inr)
  next
    case ShapeList
    then obtain f where f: "read_field rd (Suc d) ns = Inr (f, rest)" "t = TList f"
      using less.prems d n by (auto simp: read_next.simps split: sum.splits prod.splits)
    from IH [OF f(1)] f(2) n node ShapeList show ?thesis by (auto simp: field_read_def flat_list)
  qed
qed

lemma read_whole_iff:
  assumes "list_all valid nodes"
  shows "read_whole rd nodes = Inr (named, t) \<longleftrightarrow>
    nodes = form (flat named t) \<and> wf_type t \<and> type_depth t \<le> NESTING_DEPTH"
proof
  assume "read_whole rd nodes = Inr (named, t)"
  then have "read_next rd 1 nodes = Inr ((named, t), [])"
    by (auto simp: read_whole_def split: sum.splits prod.splits if_splits)
  from read_next_inv [OF this] assms
  show "nodes = form (flat named t) \<and> wf_type t \<and> type_depth t \<le> NESTING_DEPTH" by simp
next
  assume "nodes = form (flat named t) \<and> wf_type t \<and> type_depth t \<le> NESTING_DEPTH"
  then show "read_whole rd nodes = Inr (named, t)"
    using read_flat [of t 1 named "[]"] by (simp add: read_whole_def)
qed

end

text \<open>The stored form.\<close>

definition shape_kind :: "shape \<Rightarrow> kind" where
  "shape_kind s = (case s of Leaf t \<Rightarrow> kind_of t | ShapeStruct count \<Rightarrow> KStruct count | ShapeList \<Rightarrow> KList)"

definition write_node :: "named \<Rightarrow> shape \<Rightarrow> node" where
  "write_node named s = Node (map_option fst named) (map_option snd named) (shape_kind s)"

text \<open>A decimal in a node is one \<open>DecimalType::new\<close> made.\<close>

definition node_valid :: "node \<Rightarrow> bool" where
  "node_valid node \<longleftrightarrow>
     (case n_kind node of KDecimal d \<Rightarrow> decimal_new (d_precision d) (d_scale d) = Inr d | _ \<Rightarrow> True)"

lemma shape_kind_of: "shape_kind (kind_shape k) = k"
  by (cases k) (simp_all add: shape_kind_def)

lemma to_node_write: "to_node (named, t) = write_node named (shape_of t)"
  by (simp add: to_node_def write_node_def shape_of_def shape_kind_of)

lemma node_read_Inr: "node_read n = Inr (named, s) \<longleftrightarrow> n = write_node named (kind_shape (n_kind n)) \<and> s = kind_shape (n_kind n)"
  by (cases n; cases "n_name n"; cases "n_nullable n"; cases named)
    (auto simp: node_read_def write_node_def shape_kind_of)

interpretation stored: node_form write_node node_read node_valid
proof
  fix named :: named and t :: logical_type and n :: node and s :: shape
  show "node_read (write_node named (shape_of t)) = Inr (named, shape_of t)"
    by (simp add: node_read_Inr) (simp add: write_node_def shape_of_def shape_kind_of)
  show "n = write_node named s" if "node_read n = Inr (named, s)"
    using that by (simp add: node_read_Inr)
  show "is_leaf t \<and> (node_valid n \<longrightarrow> wf_type t)" if "node_read n = Inr (named, Leaf t)"
    using that by (cases "n_kind n")
      (auto simp: node_read_Inr is_leaf_def node_valid_def decimal_new_def split: if_splits)
qed

lemma serialized_form: "serialized named t = stored.form (flat named t)"
  by (auto simp: serialized_def preorder_nodes_def nodes_loop_flat stored.form_def to_node_write)

subsection \<open>Changes to columns\<close>

definition change_wf :: "table_change \<Rightarrow> bool" where
  "change_wf change \<longleftrightarrow>
     (case change of
        Create declared \<Rightarrow> wf_type (TStruct declared)
      | AddColumn f \<Rightarrow> wf_field f
      | Widen column from to \<Rightarrow> wf_type to)"

text \<open>A column kept: its name and nullability, and a type that holds the old one's values.\<close>

definition column_kept :: "field \<Rightarrow> field \<Rightarrow> bool" where
  "column_kept old new \<longleftrightarrow> f_name new = f_name old \<and> f_nullable new = f_nullable old \<and>
     ty_join (f_type old) (f_type new) = f_type new"

definition columns_kept :: "field list \<Rightarrow> field list \<Rightarrow> bool" where
  "columns_kept old new \<longleftrightarrow> list_all2 column_kept old (take (length old) new)"

definition reflects :: "field list \<Rightarrow> field \<Rightarrow> bool" where
  "reflects fields f \<longleftrightarrow> (\<exists>e. fields_get fields (f_name f) = Some e \<and> column_holds e (f_type f))"

lemma column_kept_refl [simp]: "column_kept f f"
  by (simp add: column_kept_def)

lemma columns_kept_append: "columns_kept fields (fields @ extra)"
  by (simp add: columns_kept_def list.rel_refl)

lemma fields_get_append: "fields_get (fs @ gs) n = (case fields_get fs n of Some f \<Rightarrow> Some f | None \<Rightarrow> fields_get gs n)"
  by (induction fs) (simp_all add: fields_get_Cons)

lemma reflects_append: "reflects fields g \<Longrightarrow> reflects (fields @ extra) g"
  by (auto simp: reflects_def fields_get_append)

lemma column_add_Inr:
  assumes "column_add fields f = Inr fields'"
  shows "\<exists>extra. fields' = fields @ extra \<and> set (map f_type extra) \<subseteq> {f_type f}" and "reflects fields' f"
proof (atomize (full), cases "fields_get fields (f_name f)")
  case None
  then show "(\<exists>extra. fields' = fields @ extra \<and> set (map f_type extra) \<subseteq> {f_type f}) \<and> reflects fields' f"
    using assms
    by (auto simp: column_add_def reflects_def fields_get_append fields_get_Cons column_holds_def)
next
  case (Some e)
  then have "fields' = fields" "reflects fields f"
    using assms by (auto simp: column_add_def reflects_def split: if_splits)
  then show "(\<exists>extra. fields' = fields @ extra \<and> set (map f_type extra) \<subseteq> {f_type f}) \<and> reflects fields' f"
    by auto
qed

lemma column_add_reflected: "reflects fields f \<Longrightarrow> column_add fields f = Inr fields"
  by (auto simp: column_add_def reflects_def)

lemma column_add_all_Inr:
  "column_add_all fields fs = Inr fields' \<Longrightarrow>
   (\<exists>extra. fields' = fields @ extra \<and> set (map f_type extra) \<subseteq> f_type ` set fs) \<and>
   (\<forall>f\<in>set fs. reflects fields' f)"
proof (induction fs arbitrary: fields)
  case (Cons f fs)
  then obtain mid where mid: "column_add fields f = Inr mid" "column_add_all mid fs = Inr fields'" by auto
  obtain e where e: "mid = fields @ e" "set (map f_type e) \<subseteq> {f_type f}" "reflects mid f"
    using column_add_Inr [OF mid(1)] by blast
  obtain e' where e': "fields' = mid @ e'" "set (map f_type e') \<subseteq> f_type ` set fs"
    "\<forall>g\<in>set fs. reflects fields' g"
    using Cons.IH [OF mid(2)] by blast
  have "fields' = fields @ (e @ e')" "set (map f_type (e @ e')) \<subseteq> f_type ` set (f # fs)"
    using e e' by auto
  moreover have "reflects fields' f" using reflects_append e(3) e'(1) by blast
  ultimately show ?case using e'(3) by (intro conjI exI [of _ "e @ e'"]) simp_all
qed simp

lemma column_add_all_reflected: "\<forall>f\<in>set fs. reflects fields f \<Longrightarrow> column_add_all fields fs = Inr fields"
  by (induction fs) (simp_all add: column_add_reflected)

lemma widen_holds:
  assumes "wf_type (f_type f)" and "wf_type to"
  shows "column_holds (Field n (ty_join (f_type f) to) b) to"
    and "ty_join (f_type f) (ty_join (f_type f) to) = ty_join (f_type f) to"
  using assms join_assoc [of "f_type f" to to] join_assoc [of "f_type f" "f_type f" to]
  by (simp_all add: column_holds_def)

lemma column_widen_Some:
  assumes "column_widen fields column to = Some fields'" and "wf_type to" and "list_all wf_field fields"
  shows "column_widen fields' column to = Some fields' \<and> list_all2 column_kept fields fields'
    \<and> list_all wf_field fields'"
  using assms(1,3)
proof (induction fields arbitrary: fields')
  case (Cons f fs)
  show ?case
  proof (cases "f_name f = column")
    case True
    then show ?thesis
      using Cons.prems assms(2) widen_holds [of f to]
      by (cases "column_holds f to") (auto simp: wf_field_type wf_join column_kept_def list.rel_refl)
  next
    case False
    then show ?thesis using Cons by auto
  qed
qed simp

lemma changed_Some:
  "changed (Some fields) change = Inr fields' \<longleftrightarrow>
     change_fields fields change = Inr fields' \<and> table_schema_new fields' = Inr fields'"
proof -
  have eq: "table_schema_new g = Inr h \<Longrightarrow> h = g" for g h
    by (simp add: table_schema_new_Inr)
  have "changed (Some fields) change = rbind (change_fields fields change)
      (\<lambda>g. case table_schema_new g of Inl e \<Rightarrow> Inl (ChangeInternal e) | Inr s \<Rightarrow> Inr s)"
    by (cases change) (simp_all add: changed_def)
  then show ?thesis
    by (cases "change_fields fields change"; cases "table_schema_new (projr (change_fields fields change))")
      (auto dest: eq)
qed

lemma wf_columns_append:
  "list_all wf_field fields \<Longrightarrow> set (map f_type extra) \<subseteq> T \<Longrightarrow> \<forall>t\<in>T. wf_type t \<Longrightarrow>
   list_all wf_field (fields @ extra)"
  by (auto simp: list_all_iff wf_field_type)

lemma change_fields_Inr:
  assumes "change_fields fields change = Inr fields'" and "change_wf change" and "list_all wf_field fields"
  shows "change_fields fields' change = Inr fields' \<and> columns_kept fields fields' \<and> list_all wf_field fields'"
proof (cases change)
  case (Create declared)
  with assms obtain extra where "fields' = fields @ extra" "set (map f_type extra) \<subseteq> f_type ` set declared"
    "\<forall>f\<in>set declared. reflects fields' f"
    using column_add_all_Inr [of fields declared fields'] by (auto simp: change_fields_def)
  with Create assms show ?thesis
    using wf_columns_append [of fields extra "f_type ` set declared"]
    by (auto simp: change_fields_def column_add_all_reflected columns_kept_append change_wf_def
        list_all_iff wf_field_type)
next
  case (AddColumn f)
  with assms obtain extra where "fields' = fields @ extra" "set (map f_type extra) \<subseteq> {f_type f}"
    "reflects fields' f"
    using column_add_Inr [of fields f fields'] by (auto simp: change_fields_def)
  with AddColumn assms show ?thesis
    using wf_columns_append [of fields extra "{f_type f}"]
    by (auto simp: change_fields_def column_add_reflected columns_kept_append change_wf_def wf_field_type)
next
  case (Widen column frm to)
  with assms have "column_widen fields column to = Some fields'" "wf_type to"
    by (auto simp: change_fields_def change_wf_def split: option.splits)
  note widened = column_widen_Some [OF this assms(3)]
  then have "length fields' = length fields" using list_all2_lengthD by metis
  with widened Widen show ?thesis by (simp add: change_fields_def columns_kept_def)
qed

subsection \<open>Properties\<close>

text \<open>C11: reading the stored form of a type back is the exact inverse of writing it: the reader
  accepts a list of nodes, and returns a name and a type for it, precisely where the nodes are those
  the writer's walk gives for a well-formed type nested no deeper than the limit.\<close>

theorem stored_type_roundtrip:
  assumes "list_all node_valid nodes"
  shows "read_whole node_read nodes = Inr (named, t) \<longleftrightarrow>
    nodes = serialized named t \<and> wf_type t \<and> type_depth t \<le> NESTING_DEPTH"
  using stored.read_whole_iff [OF assms] by (simp add: serialized_form)

theorem stored_type_roundtrip_witness:
  "read_whole node_read [Node None None (KStruct 2), Node (Some ''a'') (Some True) KList,
       Node (Some ''item'') (Some False) KInt8, Node (Some ''b'') (Some False) KUtf8]
     = Inr (None, TStruct [Field ''a'' (TList (Field ''item'' TInt8 False)) True, Field ''b'' TUtf8 False])"
proof (rule stored_type_roundtrip [THEN iffD2])
  show "list_all node_valid [Node None None (KStruct 2), Node (Some ''a'') (Some True) KList,
       Node (Some ''item'') (Some False) KInt8, Node (Some ''b'') (Some False) KUtf8]"
    by (simp add: node_valid_def)
  show "[Node None None (KStruct 2), Node (Some ''a'') (Some True) KList,
       Node (Some ''item'') (Some False) KInt8, Node (Some ''b'') (Some False) KUtf8]
      = serialized None (TStruct [Field ''a'' (TList (Field ''item'' TInt8 False)) True, Field ''b'' TUtf8 False])
    \<and> wf_type (TStruct [Field ''a'' (TList (Field ''item'' TInt8 False)) True, Field ''b'' TUtf8 False])
    \<and> type_depth (TStruct [Field ''a'' (TList (Field ''item'' TInt8 False)) True, Field ''b'' TUtf8 False])
        \<le> NESTING_DEPTH"
    by (simp add: serialized_def preorder_nodes_def nodes_below_def node_below_def to_node_def NESTING_DEPTH_def)
qed

text \<open>C16: a schema is accepted exactly where its fields have distinct names and none nests deeper
  than 64 levels; the depth the code's stack walk finds is the depth of the types, saturated.\<close>

theorem table_schema_accepts:
  "(table_schema_new fields = Inr fields \<longleftrightarrow>
      distinct (map f_name fields) \<and> (\<forall>f\<in>set fields. field_depth f \<le> NESTING_DEPTH)) \<and>
   schema_depth fields = min U64_MAX (foldr max (map field_depth fields) 0)"
  by (simp add: table_schema_new_Inr schema_depth_eq)

theorem table_schema_accepts_witness:
  "table_schema_new [Field ''a'' TInt8 True, Field ''b'' (TList (Field ''item'' TUtf8 True)) False]
     = Inr [Field ''a'' TInt8 True, Field ''b'' (TList (Field ''item'' TUtf8 True)) False]"
  by (rule table_schema_accepts [THEN conjunct1, THEN iffD2]) (simp add: NESTING_DEPTH_def)

text \<open>C12: a schema change the reference destinations apply keeps every column, in its place, with
  its name, its nullability and a type that holds every value it held, and applying the change again
  to the table it left succeeds and changes nothing.\<close>

theorem changed_idempotent:
  assumes "changed (Some fields) change = Inr fields'" and "change_wf change" and "list_all wf_field fields"
  shows "changed (Some fields') change = Inr fields' \<and> columns_kept fields fields' \<and> list_all wf_field fields'"
  using assms change_fields_Inr [of fields change fields'] by (simp add: changed_Some)

theorem changed_idempotent_witness:
  "changed (Some [Field ''a'' TInt16 False]) (Widen ''a'' TInt16 TFloat32) = Inr [Field ''a'' TFloat64 False] \<and>
   changed (Some [Field ''a'' TFloat64 False]) (Widen ''a'' TInt16 TFloat32) = Inr [Field ''a'' TFloat64 False]"
proof
  show *: "changed (Some [Field ''a'' TInt16 False]) (Widen ''a'' TInt16 TFloat32) = Inr [Field ''a'' TFloat64 False]"
    by (simp add: changed_Some change_fields_def column_holds_def table_schema_new_Inr NESTING_DEPTH_def)
  show "changed (Some [Field ''a'' TFloat64 False]) (Widen ''a'' TInt16 TFloat32) = Inr [Field ''a'' TFloat64 False]"
    using changed_idempotent [OF *] by (simp add: change_wf_def)
qed

end
