(* ===== verification/Names.thy ===== *)
theory Names
  imports Schemas "HOL-Library.Option_ord"
begin

text \<open>
  Identifiers, columns and name maps (\<open>crates/rdlt-connector/src/id.rs\<close>, \<open>schema.rs\<close>,
  \<open>state/names.rs\<close>): a name map gives a table's columns their identifiers in the destination, and
  is shown to stay one-to-one and never to change a mapping.
\<close>

subsection \<open>Identifiers and columns\<close>

type_synonym stream_name = "string option \<times> string"
type_synonym partition_id = string
type_synonym pipeline_id = string
type_synonym table_path = "string list"
type_synonym column_path = "string list"
type_synonym epoch = nat
type_synonym generation_id = nat

text \<open>A counter's successor (\<open>id.rs\<close>, \<open>counter_id\<close>): none after the largest.\<close>

definition next_id :: "nat \<Rightarrow> nat option" where
  "next_id n = checked_add n 1"

datatype type_kind =
    NullKind | BoolKind | Int8Kind | Int16Kind | Int32Kind | Int64Kind | Float32Kind | Float64Kind
  | DecimalKind | Utf8Kind | BinaryKind | DateKind | TimeKind | TimestampKind | DurationKind
  | UuidKind | JsonKind | StructKind | ListKind

fun kind_rank :: "type_kind \<Rightarrow> nat" where
  "kind_rank NullKind = 0"
| "kind_rank BoolKind = 1"
| "kind_rank Int8Kind = 2"
| "kind_rank Int16Kind = 3"
| "kind_rank Int32Kind = 4"
| "kind_rank Int64Kind = 5"
| "kind_rank Float32Kind = 6"
| "kind_rank Float64Kind = 7"
| "kind_rank DecimalKind = 8"
| "kind_rank Utf8Kind = 9"
| "kind_rank BinaryKind = 10"
| "kind_rank DateKind = 11"
| "kind_rank TimeKind = 12"
| "kind_rank TimestampKind = 13"
| "kind_rank DurationKind = 14"
| "kind_rank UuidKind = 15"
| "kind_rank JsonKind = 16"
| "kind_rank StructKind = 17"
| "kind_rank ListKind = 18"

fun logical_kind :: "logical_type \<Rightarrow> type_kind" where
  "logical_kind TNull = NullKind"
| "logical_kind TBool = BoolKind"
| "logical_kind TInt8 = Int8Kind"
| "logical_kind TInt16 = Int16Kind"
| "logical_kind TInt32 = Int32Kind"
| "logical_kind TInt64 = Int64Kind"
| "logical_kind TFloat32 = Float32Kind"
| "logical_kind TFloat64 = Float64Kind"
| "logical_kind (TDecimal _) = DecimalKind"
| "logical_kind TUtf8 = Utf8Kind"
| "logical_kind TBinary = BinaryKind"
| "logical_kind TDate = DateKind"
| "logical_kind (TTime _) = TimeKind"
| "logical_kind (TTimestamp _ _) = TimestampKind"
| "logical_kind (TDuration _) = DurationKind"
| "logical_kind TUuid = UuidKind"
| "logical_kind TJson = JsonKind"
| "logical_kind (TStruct _) = StructKind"
| "logical_kind (TList _) = ListKind"

datatype column_key = SourceColumn column_path | VariantColumn column_path type_kind

fun column_key_column :: "column_key \<Rightarrow> column_path" where
  "column_key_column (SourceColumn column) = column"
| "column_key_column (VariantColumn column _) = column"

text \<open>The derived order: source columns before variants, then by path, then by kind.\<close>

fun column_key_rank :: "column_key \<Rightarrow> nat \<times> column_path \<times> nat" where
  "column_key_rank (SourceColumn column) = (0, column, 0)"
| "column_key_rank (VariantColumn column k) = (1, column, kind_rank k)"

lemma kind_rank_inj: "kind_rank a = kind_rank b \<Longrightarrow> a = b"
  by (cases a; simp; cases b; simp)

lemma column_key_rank_inj: "column_key_rank a = column_key_rank b \<longleftrightarrow> a = b"
  by (cases a; cases b) (auto dest: kind_rank_inj)

instantiation column_key :: linorder
begin

definition less_eq_column_key :: "column_key \<Rightarrow> column_key \<Rightarrow> bool" where
  "less_eq_column_key a b \<longleftrightarrow> column_key_rank a \<le> column_key_rank b"

definition less_column_key :: "column_key \<Rightarrow> column_key \<Rightarrow> bool" where
  "less_column_key a b \<longleftrightarrow> column_key_rank a < column_key_rank b"

instance
proof
  fix x y z :: column_key
  show "x < y \<longleftrightarrow> x \<le> y \<and> \<not> y \<le> x"
    by (auto simp: less_eq_column_key_def less_column_key_def)
  show "x \<le> x" by (simp add: less_eq_column_key_def)
  show "x \<le> y \<Longrightarrow> y \<le> z \<Longrightarrow> x \<le> z" unfolding less_eq_column_key_def by (rule order_trans)
  show "x \<le> y \<Longrightarrow> y \<le> x \<Longrightarrow> x = y"
    unfolding less_eq_column_key_def using column_key_rank_inj by (metis antisym)
  show "x \<le> y \<or> y \<le> x" unfolding less_eq_column_key_def by (rule linear)
qed

end

subsection \<open>Name maps\<close>

record name_map =
  nm_names :: "(column_key, string) btree"
  nm_owners :: "(string, column_key) btree"

datatype name_conflict = Remapped column_key string | Taken string column_key

definition name_map_default :: name_map where
  "name_map_default = \<lparr>nm_names = [], nm_owners = []\<rparr>"

definition name_map_get :: "name_map \<Rightarrow> column_key \<Rightarrow> string option" where
  "name_map_get m key = bt_get (nm_names m) key"

definition name_map_owner :: "name_map \<Rightarrow> string \<Rightarrow> column_key option" where
  "name_map_owner m name = bt_get (nm_owners m) name"

definition name_map_insert :: "name_map \<Rightarrow> column_key \<Rightarrow> string \<Rightarrow> name_conflict + name_map" where
  "name_map_insert m key name =
     (case bt_get (nm_names m) key of
        Some existing \<Rightarrow> if existing = name then Inr m else Inl (Remapped key existing)
      | None \<Rightarrow>
          (case name_map_owner m name of
             Some owner \<Rightarrow> Inl (Taken name owner)
           | None \<Rightarrow>
               Inr \<lparr>nm_names = bt_insert key name (nm_names m),
                    nm_owners = bt_insert name key (nm_owners m)\<rparr>))"

definition name_map_iter :: "name_map \<Rightarrow> (column_key \<times> string) list" where
  "name_map_iter m = nm_names m"

fun name_map_add_all :: "name_map \<Rightarrow> (column_key \<times> string) list \<Rightarrow> name_conflict + name_map" where
  "name_map_add_all names [] = Inr names"
| "name_map_add_all names ((key, name) # pairs) =
     (case name_map_get names key of
        Some existing \<Rightarrow> Inl (Remapped key existing)
      | None \<Rightarrow> rbind (name_map_insert names key name) (\<lambda>names'. name_map_add_all names' pairs))"

definition name_map_try_from :: "(column_key \<times> string) list \<Rightarrow> name_conflict + name_map" where
  "name_map_try_from pairs = name_map_add_all name_map_default pairs"

subsection \<open>Name maps are one-to-one\<close>

definition name_map_wf :: "name_map \<Rightarrow> bool" where
  "name_map_wf m \<longleftrightarrow> bt_wf (nm_names m) \<and> bt_wf (nm_owners m) \<and>
     (\<forall>key name. name_map_get m key = Some name \<longleftrightarrow> name_map_owner m name = Some key)"

lemma name_map_default_wf: "name_map_wf name_map_default"
  by (simp add: name_map_wf_def name_map_default_def name_map_get_def name_map_owner_def)

lemma name_map_insert_Inr:
  assumes "name_map_wf m" and "name_map_insert m key name = Inr m'"
  shows "name_map_wf m'" and "name_map_get m' k = (if k = key then Some name else name_map_get m k)"
proof (atomize (full), cases "name_map_get m key")
  case None
  then have new: "name_map_owner m name = None"
    "m' = \<lparr>nm_names = bt_insert key name (nm_names m), nm_owners = bt_insert name key (nm_owners m)\<rparr>"
    using assms(2) by (auto simp: name_map_insert_def name_map_get_def split: option.splits)
  have absent: "name_map_get m k' \<noteq> Some name" "name_map_owner m n' \<noteq> Some key" for k' n'
    using assms(1) None new(1) by (auto simp: name_map_wf_def) (metis option.distinct(1))+
  show "name_map_wf m' \<and> name_map_get m' k = (if k = key then Some name else name_map_get m k)"
    using assms(1) new(2) absent
    by (auto simp: name_map_wf_def name_map_get_def name_map_owner_def btree_simps)
next
  case (Some existing)
  then show "name_map_wf m' \<and> name_map_get m' k = (if k = key then Some name else name_map_get m k)"
    using assms by (auto simp: name_map_insert_def name_map_get_def split: if_splits)
qed

lemma name_map_insert_Inl:
  assumes "name_map_wf m"
  shows "(\<exists>e. name_map_insert m key name = Inl e) \<longleftrightarrow>
     (\<exists>other. name_map_get m key = Some other \<and> other \<noteq> name) \<or>
     (\<exists>owner. name_map_get m owner = Some name \<and> owner \<noteq> key)"
proof -
  have owner: "name_map_get m k = Some n \<longleftrightarrow> name_map_owner m n = Some k" for k n
    using assms by (simp add: name_map_wf_def)
  show ?thesis
  proof (cases "name_map_get m key")
    case None
    then have other: "name_map_owner m name \<noteq> Some key" using owner [of key name] by simp
    show ?thesis
    proof (cases "name_map_owner m name")
      case (Some o')
      then have "name_map_get m o' = Some name" "o' \<noteq> key"
        using owner [of o' name] other by auto
      moreover have "name_map_insert m key name = Inl (Taken name o')"
        using None Some by (simp add: name_map_insert_def name_map_get_def)
      ultimately show ?thesis by blast
    next
      case none: None
      then have "name_map_get m k \<noteq> Some name" for k using owner [of k name] by simp
      moreover have "\<exists>m'. name_map_insert m key name = Inr m'"
        using None none by (simp add: name_map_insert_def name_map_get_def)
      ultimately show ?thesis using None by auto
    qed
  next
    case (Some other)
    then have ins: "name_map_insert m key name = (if other = name then Inr m else Inl (Remapped key other))"
      by (simp add: name_map_insert_def name_map_get_def)
    have uniq: "k = key" if "name_map_get m k = Some other" for k
      using that owner [of k other] owner [of key other] Some by simp
    show ?thesis
    proof (cases "other = name")
      case True
      then have "\<not> (\<exists>owner. name_map_get m owner = Some name \<and> owner \<noteq> key)" using uniq by blast
      moreover have "\<not> (\<exists>e. name_map_insert m key name = Inl e)" using ins True by simp
      moreover have "\<not> (\<exists>n. name_map_get m key = Some n \<and> n \<noteq> name)" using Some True by simp
      ultimately show ?thesis by blast
    qed (simp add: ins Some)
  qed
qed

lemma name_map_ext:
  assumes "name_map_wf m" and "name_map_wf m'" and "\<And>k. name_map_get m k = name_map_get m' k"
  shows "m = m'"
proof -
  have owner: "name_map_owner m n = Some k \<longleftrightarrow> name_map_owner m' n = Some k" for n k
    using assms by (simp add: name_map_wf_def)
  have "name_map_owner m n = name_map_owner m' n" for n
    using owner [of n "the (name_map_owner m n)"] owner [of n "the (name_map_owner m' n)"]
    by (cases "name_map_owner m n"; cases "name_map_owner m' n") simp_all
  then have "nm_names m = nm_names m'" "nm_owners m = nm_owners m'"
    using assms by (auto simp: name_map_wf_def name_map_get_def name_map_owner_def intro!: bt_ext)
  then show ?thesis by simp
qed

lemma name_map_add_all_Cons:
  "name_map_add_all m ((key, name) # pairs) = Inr m' \<longleftrightarrow> name_map_get m key = None \<and>
     (\<exists>mid. name_map_insert m key name = Inr mid \<and> name_map_add_all mid pairs = Inr m')"
  by (cases "name_map_get m key") simp_all

declare name_map_add_all.simps(2) [simp del]

lemma name_map_add_all_seen:
  "name_map_add_all x qs = Inr m' \<Longrightarrow> name_map_wf x \<Longrightarrow> name_map_get x key \<noteq> None \<Longrightarrow> bt_get qs key = None"
proof (induction qs arbitrary: x)
  case (Cons q qs)
  obtain k n where q: "q = (k, n)" by fastforce
  obtain mid where mid: "name_map_get x k = None" "name_map_insert x k n = Inr mid"
    "name_map_add_all mid qs = Inr m'"
    using Cons.prems(1) unfolding q name_map_add_all_Cons by blast
  note ins = name_map_insert_Inr [OF Cons.prems(2) mid(2)]
  have "bt_get qs key = None"
    using Cons.prems(3) by (intro Cons.IH [OF mid(3) ins(1)]) (simp add: ins(2))
  moreover have "k \<noteq> key" using mid(1) Cons.prems(3) by blast
  ultimately show ?case by (simp add: q)
qed simp

lemma name_map_add_all_Inr:
  "name_map_wf m \<Longrightarrow> name_map_add_all m pairs = Inr m' \<Longrightarrow>
   name_map_wf m' \<and> (\<forall>k. name_map_get m' k = (case bt_get pairs k of Some n \<Rightarrow> Some n | None \<Rightarrow> name_map_get m k))"
proof (induction pairs arbitrary: m)
  case (Cons q pairs)
  obtain key name where q: "q = (key, name)" by fastforce
  obtain mid where mid: "name_map_get m key = None" "name_map_insert m key name = Inr mid"
    "name_map_add_all mid pairs = Inr m'"
    using Cons.prems(2) unfolding q name_map_add_all_Cons by blast
  note ins = name_map_insert_Inr [OF Cons.prems(1) mid(2)]
  have later: "bt_get pairs key = None"
    using name_map_add_all_seen [OF mid(3) ins(1)] by (simp add: ins(2))
  from Cons.IH [OF ins(1) mid(3)] show ?case
    by (simp add: q ins(2) later split: option.splits)
qed simp

lemma name_map_add_all_iter:
  "name_map_wf m \<Longrightarrow> sorted_wrt (<) (map fst pairs) \<Longrightarrow> distinct (map snd pairs) \<Longrightarrow>
   \<forall>(k, n)\<in>set pairs. name_map_get m k = None \<and> name_map_owner m n = None \<Longrightarrow>
   \<exists>m'. name_map_add_all m pairs = Inr m'"
proof (induction pairs arbitrary: m)
  case (Cons p pairs)
  obtain key name where p: "p = (key, name)" by fastforce
  let ?m = "\<lparr>nm_names = bt_insert key name (nm_names m), nm_owners = bt_insert name key (nm_owners m)\<rparr>"
  have new: "name_map_get m key = None" "name_map_insert m key name = Inr ?m"
    using Cons.prems(4) p by (auto simp: name_map_insert_def name_map_get_def)
  have "\<forall>(k, n)\<in>set pairs. k \<noteq> key \<and> n \<noteq> name" using Cons.prems(2,3) p by force
  then have "\<forall>(k, n)\<in>set pairs. name_map_get ?m k = None \<and> name_map_owner ?m n = None"
    using Cons.prems(4) by (auto simp: name_map_get_def name_map_owner_def btree_simps)
  then have "\<exists>m'. name_map_add_all ?m pairs = Inr m'"
    using Cons.prems name_map_insert_Inr(1) [OF Cons.prems(1) new(2)] p by (intro Cons.IH) auto
  with new p show ?case by (simp add: name_map_add_all_Cons)
qed simp

lemma name_map_names_distinct:
  assumes "name_map_wf m"
  shows "distinct (map snd (nm_names m))"
proof -
  have "inj_on snd (set (nm_names m))"
  proof (rule inj_onI)
    fix x y assume xy: "x \<in> set (nm_names m)" "y \<in> set (nm_names m)" "snd x = snd y"
    have "name_map_owner m (snd z) = Some (fst z)" if "z \<in> set (nm_names m)" for z
      using that assms bt_get_in_set [of "nm_names m" "fst z" "snd z"]
      by (simp add: name_map_wf_def name_map_get_def)
    from this [OF xy(1)] this [OF xy(2)] xy(3) show "x = y" by (simp add: prod_eq_iff)
  qed
  moreover have "distinct (nm_names m)"
    using assms bt_wf_distinct [of "nm_names m"] by (simp add: name_map_wf_def distinct_map)
  ultimately show ?thesis by (simp add: distinct_map)
qed

subsection \<open>Properties\<close>


text \<open>C17: a name map written and read back is the same map, and whatever pairs are read as a map
  make a one-to-one map of exactly those pairs.\<close>

theorem name_map_roundtrip:
  assumes "name_map_wf m"
  shows "name_map_try_from (name_map_iter m) = Inr m"
proof -
  have "sorted_wrt (<) (map fst (nm_names m))"
    using assms by (simp add: name_map_wf_def bt_wf_def)
  then obtain m' where m': "name_map_add_all name_map_default (nm_names m) = Inr m'"
    using name_map_add_all_iter [OF name_map_default_wf, of "nm_names m"] name_map_names_distinct [OF assms]
    by (auto simp: name_map_get_def name_map_owner_def name_map_default_def)
  have "name_map_wf m'" "name_map_get m' k = name_map_get m k" for k
    using name_map_add_all_Inr [OF name_map_default_wf m']
    by (auto simp: name_map_get_def name_map_default_def split: option.splits)
  then have "m' = m" using assms by (intro name_map_ext)
  with m' show ?thesis by (simp add: name_map_try_from_def name_map_iter_def)
qed


theorem name_map_roundtrip_witness:
  "name_map_try_from (name_map_iter
      \<lparr>nm_names = [(SourceColumn [''a''], ''a''), (VariantColumn [''a''] Utf8Kind, ''a_text'')],
       nm_owners = [(''a'', SourceColumn [''a'']), (''a_text'', VariantColumn [''a''] Utf8Kind)]\<rparr>)
   = Inr \<lparr>nm_names = [(SourceColumn [''a''], ''a''), (VariantColumn [''a''] Utf8Kind, ''a_text'')],
       nm_owners = [(''a'', SourceColumn [''a'']), (''a_text'', VariantColumn [''a''] Utf8Kind)]\<rparr>"
  by (rule name_map_roundtrip)
    (auto simp: name_map_wf_def name_map_get_def name_map_owner_def bt_wf_def less_column_key_def)

end
