(* ===== verification/State.thy ===== *)
theory State
  imports Names
begin

text \<open>
  Pipeline state (\<open>crates/rdlt-connector/src/state.rs\<close>, \<open>state/applied.rs\<close>, \<open>state/key.rs\<close>): the
  entries of state, the keys they are stored under, and what putting and deleting one does. JSON is a
  parameter, the writer and the reader of a key and of a value. Each key is shown to govern a part of
  the state no other key touches, so the state an engine keeps by applying each commit's changes is
  the state rebuilt from the records the destination holds.
\<close>

subsection \<open>Entries, keys and records\<close>

record cursor =
  cur_version :: nat
  cur_bytes :: string

datatype partition_state = AtCursor cursor | Done

datatype sequences = EngineSequences | SourceSequences

datatype identity = KeyIdentity | PositionIdentity

datatype state_entry =
    EpochEntry epoch
  | PhaseEntry stream_name nat
  | PartitionEntry stream_name partition_id partition_state epoch
  | GenerationEntry stream_name generation_id
  | CompletedEntry stream_name "generation_id list"
  | ResetEntry stream_name epoch
  | SchemaEntry table_path nat "field list"
  | NamesEntry table_path string name_map
  | SequencesEntry table_path sequences bool "column_path list" "column_path option" identity

datatype state_key =
    EpochKey
  | PhaseKey stream_name
  | PartitionKey stream_name partition_id
  | GenerationKey stream_name
  | CompletedKey stream_name
  | ResetKey stream_name
  | SchemaKey table_path
  | NamesKey table_path
  | SequencesKey table_path

fun entry_key :: "state_entry \<Rightarrow> state_key" where
  "entry_key (EpochEntry _) = EpochKey"
| "entry_key (PhaseEntry stream _) = PhaseKey stream"
| "entry_key (PartitionEntry stream pid _ _) = PartitionKey stream pid"
| "entry_key (GenerationEntry stream _) = GenerationKey stream"
| "entry_key (CompletedEntry stream _) = CompletedKey stream"
| "entry_key (ResetEntry stream _) = ResetKey stream"
| "entry_key (SchemaEntry table _ _) = SchemaKey table"
| "entry_key (NamesEntry table _ _) = NamesKey table"
| "entry_key (SequencesEntry table _ _ _ _ _) = SequencesKey table"

record state_record =
  rec_key :: string
  rec_value :: string

datatype state_change = Put state_record | Delete string

datatype state_error =
    MalformedKey string
  | MalformedValue string
  | UnsupportedVersion string nat
  | Repeated string
  | KeyMismatch string

definition STATE_VERSION :: nat where
  "STATE_VERSION = 6"

text \<open>JSON, which the code leaves to its serializer: how a key and a versioned entry are written,
  and how a text is read as one, if it is one.\<close>

datatype reading = ReadEntry state_entry | ReadOther nat

record json =
  js_key :: "state_key \<Rightarrow> string"
  js_read_key :: "string \<Rightarrow> state_key option"
  js_value :: "nat \<Rightarrow> state_entry \<Rightarrow> string"
  js_read_value :: "string \<Rightarrow> reading option"

definition state_key_encode :: "json \<Rightarrow> state_key \<Rightarrow> string" where
  "state_key_encode js k = js_key js k"

definition state_key_parse :: "json \<Rightarrow> string \<Rightarrow> state_error + state_key" where
  "state_key_parse js key =
     (case js_read_key js key of
        None \<Rightarrow> Inl (MalformedKey key)
      | Some parsed \<Rightarrow> if state_key_encode js parsed = key then Inr parsed else Inl (MalformedKey key))"

definition to_record :: "json \<Rightarrow> state_entry \<Rightarrow> state_record" where
  "to_record js entry =
     \<lparr>rec_key = state_key_encode js (entry_key entry), rec_value = js_value js STATE_VERSION entry\<rparr>"

definition from_record :: "json \<Rightarrow> state_record \<Rightarrow> state_error + state_entry" where
  "from_record js r =
     rbind (state_key_parse js (rec_key r))
       (\<lambda>key. case js_read_value js (rec_value r) of
          None \<Rightarrow> Inl (MalformedValue (rec_key r))
        | Some (ReadOther version) \<Rightarrow> Inl (UnsupportedVersion (rec_key r) version)
        | Some (ReadEntry entry) \<Rightarrow>
            if entry_key entry \<noteq> key then Inl (KeyMismatch (rec_key r)) else Inr entry)"

subsection \<open>The state of a pipeline\<close>

record stream_state =
  ss_phase :: nat
  ss_partitions :: "(partition_id, partition_state) btree"
  ss_generation :: "generation_id option"
  ss_completed :: "generation_id list"

definition stream_default :: stream_state where
  "stream_default = \<lparr>ss_phase = 0, ss_partitions = [], ss_generation = None, ss_completed = []\<rparr>"

record table_state =
  ts_schema :: "(nat \<times> field list) option"
  ts_physical :: "string option"
  ts_names :: name_map
  ts_sequences :: "sequences option"
  ts_history :: bool
  ts_key :: "column_path list"
  ts_change_time :: "column_path option"
  ts_identity :: identity

definition table_default :: table_state where
  "table_default =
     \<lparr>ts_schema = None, ts_physical = None, ts_names = name_map_default, ts_sequences = None,
      ts_history = False, ts_key = [], ts_change_time = None, ts_identity = KeyIdentity\<rparr>"

record pipeline_state =
  ps_epoch :: epoch
  ps_streams :: "(stream_name, stream_state) btree"
  ps_tables :: "(table_path, table_state) btree"
  ps_resets :: "(stream_name, epoch) btree"
  ps_recorded_by :: "(stream_name \<times> partition_id, epoch) btree"

definition pipeline_default :: pipeline_state where
  "pipeline_default =
     \<lparr>ps_epoch = 0, ps_streams = [], ps_tables = [], ps_resets = [], ps_recorded_by = []\<rparr>"

fun state_put :: "state_entry \<Rightarrow> pipeline_state \<Rightarrow> pipeline_state" where
  "state_put (EpochEntry epoch) s = s\<lparr>ps_epoch := epoch\<rparr>"
| "state_put (PhaseEntry stream phase) s =
     s\<lparr>ps_streams := bt_entry stream stream_default (\<lambda>x. x\<lparr>ss_phase := phase\<rparr>) (ps_streams s)\<rparr>"
| "state_put (PartitionEntry stream pid st epoch) s =
     s\<lparr>ps_streams := bt_entry stream stream_default
          (\<lambda>x. x\<lparr>ss_partitions := bt_insert pid st (ss_partitions x)\<rparr>) (ps_streams s),
       ps_recorded_by := bt_insert (stream, pid) epoch (ps_recorded_by s)\<rparr>"
| "state_put (GenerationEntry stream generation) s =
     s\<lparr>ps_streams := bt_entry stream stream_default
          (\<lambda>x. x\<lparr>ss_generation := Some generation\<rparr>) (ps_streams s)\<rparr>"
| "state_put (CompletedEntry stream generations) s =
     s\<lparr>ps_streams := bt_entry stream stream_default
          (\<lambda>x. x\<lparr>ss_completed := generations\<rparr>) (ps_streams s)\<rparr>"
| "state_put (ResetEntry stream epoch) s =
     s\<lparr>ps_resets := bt_insert stream epoch (ps_resets s)\<rparr>"
| "state_put (SchemaEntry table version schema) s =
     s\<lparr>ps_tables := bt_entry table table_default
          (\<lambda>x. x\<lparr>ts_schema := Some (version, schema)\<rparr>) (ps_tables s)\<rparr>"
| "state_put (NamesEntry table physical names) s =
     s\<lparr>ps_tables := bt_entry table table_default
          (\<lambda>x. x\<lparr>ts_physical := Some physical, ts_names := names\<rparr>) (ps_tables s)\<rparr>"
| "state_put (SequencesEntry table seqs history key change_time ident) s =
     s\<lparr>ps_tables := bt_entry table table_default
          (\<lambda>x. x\<lparr>ts_sequences := Some seqs, ts_history := history, ts_key := key,
             ts_change_time := change_time, ts_identity := ident\<rparr>) (ps_tables s)\<rparr>"

fun state_delete :: "state_key \<Rightarrow> pipeline_state \<Rightarrow> pipeline_state" where
  "state_delete EpochKey s = s\<lparr>ps_epoch := 0\<rparr>"
| "state_delete (PhaseKey stream) s =
     s\<lparr>ps_streams := bt_modify stream (\<lambda>x. x\<lparr>ss_phase := 0\<rparr>) (ps_streams s)\<rparr>"
| "state_delete (PartitionKey stream pid) s =
     s\<lparr>ps_recorded_by := bt_remove (stream, pid) (ps_recorded_by s),
       ps_streams := bt_modify stream
          (\<lambda>x. x\<lparr>ss_partitions := bt_remove pid (ss_partitions x)\<rparr>) (ps_streams s)\<rparr>"
| "state_delete (GenerationKey stream) s =
     s\<lparr>ps_streams := bt_modify stream (\<lambda>x. x\<lparr>ss_generation := None\<rparr>) (ps_streams s)\<rparr>"
| "state_delete (CompletedKey stream) s =
     s\<lparr>ps_streams := bt_modify stream (\<lambda>x. x\<lparr>ss_completed := []\<rparr>) (ps_streams s)\<rparr>"
| "state_delete (ResetKey stream) s = s\<lparr>ps_resets := bt_remove stream (ps_resets s)\<rparr>"
| "state_delete (SchemaKey table) s =
     s\<lparr>ps_tables := bt_modify table (\<lambda>x. x\<lparr>ts_schema := None\<rparr>) (ps_tables s)\<rparr>"
| "state_delete (NamesKey table) s =
     s\<lparr>ps_tables := bt_modify table
          (\<lambda>x. x\<lparr>ts_physical := None, ts_names := name_map_default\<rparr>) (ps_tables s)\<rparr>"
| "state_delete (SequencesKey table) s =
     s\<lparr>ps_tables := bt_modify table
          (\<lambda>x. x\<lparr>ts_sequences := None, ts_history := False, ts_key := [], ts_change_time := None,
             ts_identity := KeyIdentity\<rparr>) (ps_tables s)\<rparr>"

fun from_records_loop :: "json \<Rightarrow> string list \<Rightarrow> pipeline_state \<Rightarrow> state_record list
    \<Rightarrow> state_error + pipeline_state" where
  "from_records_loop js keys state [] = Inr state"
| "from_records_loop js keys state (r # rs) =
     (if rec_key r \<in> set keys then Inl (Repeated (rec_key r))
      else rbind (from_record js r)
             (\<lambda>entry. from_records_loop js (rec_key r # keys) (state_put entry state) rs))"

definition from_records :: "json \<Rightarrow> state_record list \<Rightarrow> state_error + pipeline_state" where
  "from_records js records = from_records_loop js [] pipeline_default records"

definition state_apply :: "json \<Rightarrow> pipeline_state \<Rightarrow> state_change \<Rightarrow> state_error + pipeline_state" where
  "state_apply js s change =
     (case change of
        Put r \<Rightarrow> rbind (from_record js r) (\<lambda>entry. Inr (state_put entry s))
      | Delete key \<Rightarrow> rbind (state_key_parse js key) (\<lambda>k. Inr (state_delete k s)))"

fun state_apply_all :: "json \<Rightarrow> pipeline_state \<Rightarrow> state_change list \<Rightarrow> state_error + pipeline_state" where
  "state_apply_all js s [] = Inr s"
| "state_apply_all js s (c # cs) = rbind (state_apply js s c) (\<lambda>s'. state_apply_all js s' cs)"

subsection \<open>The part of the state a key governs\<close>

datatype part =
    EpochPart epoch
  | PhasePart nat
  | PartitionPart "partition_state option" "epoch option"
  | GenerationPart "generation_id option"
  | CompletedPart "generation_id list"
  | ResetPart "epoch option"
  | SchemaPart "(nat \<times> field list) option"
  | NamesPart "string option" name_map
  | SequencesPart "sequences option" bool "column_path list" "column_path option" identity

fun state_part :: "pipeline_state \<Rightarrow> state_key \<Rightarrow> part" where
  "state_part s EpochKey = EpochPart (ps_epoch s)"
| "state_part s (PhaseKey stream) = PhasePart (ss_phase (bt_default stream_default (ps_streams s) stream))"
| "state_part s (PartitionKey stream pid) =
     PartitionPart (bt_get (ss_partitions (bt_default stream_default (ps_streams s) stream)) pid)
       (bt_get (ps_recorded_by s) (stream, pid))"
| "state_part s (GenerationKey stream) =
     GenerationPart (ss_generation (bt_default stream_default (ps_streams s) stream))"
| "state_part s (CompletedKey stream) =
     CompletedPart (ss_completed (bt_default stream_default (ps_streams s) stream))"
| "state_part s (ResetKey stream) = ResetPart (bt_get (ps_resets s) stream)"
| "state_part s (SchemaKey table) = SchemaPart (ts_schema (bt_default table_default (ps_tables s) table))"
| "state_part s (NamesKey table) =
     (let t = bt_default table_default (ps_tables s) table in NamesPart (ts_physical t) (ts_names t))"
| "state_part s (SequencesKey table) =
     (let t = bt_default table_default (ps_tables s) table
      in SequencesPart (ts_sequences t) (ts_history t) (ts_key t) (ts_change_time t) (ts_identity t))"

fun entry_part :: "state_entry \<Rightarrow> part" where
  "entry_part (EpochEntry epoch) = EpochPart epoch"
| "entry_part (PhaseEntry _ phase) = PhasePart phase"
| "entry_part (PartitionEntry _ _ st epoch) = PartitionPart (Some st) (Some epoch)"
| "entry_part (GenerationEntry _ generation) = GenerationPart (Some generation)"
| "entry_part (CompletedEntry _ generations) = CompletedPart generations"
| "entry_part (ResetEntry _ epoch) = ResetPart (Some epoch)"
| "entry_part (SchemaEntry _ version schema) = SchemaPart (Some (version, schema))"
| "entry_part (NamesEntry _ physical names) = NamesPart (Some physical) names"
| "entry_part (SequencesEntry _ seqs history key change_time ident) =
     SequencesPart (Some seqs) history key change_time ident"

definition default_part :: "state_key \<Rightarrow> part" where
  "default_part k = state_part pipeline_default k"

text \<open>The contract of a state kept in parts: each change sets the part of its own key alone. What
  holds of the last change of every key then holds of the whole state.\<close>

locale parted_state =
  fixes part_of :: "'s \<Rightarrow> 'k \<Rightarrow> 'v"
    and put :: "'e \<Rightarrow> 's \<Rightarrow> 's"
    and del :: "'k \<Rightarrow> 's \<Rightarrow> 's"
    and key_of :: "'e \<Rightarrow> 'k"
    and value_of :: "'e \<Rightarrow> 'v"
    and unset :: "'k \<Rightarrow> 'v"
  assumes part_put: "part_of (put e s) k = (if k = key_of e then value_of e else part_of s k)"
    and part_del: "part_of (del k' s) k = (if k = k' then unset k else part_of s k)"
begin

definition step :: "('k, 'e) change \<Rightarrow> 's \<Rightarrow> 's" where
  "step c s = (case c of Put_key k e \<Rightarrow> put e s | Delete_key k \<Rightarrow> del k s)"

definition keyed :: "('k, 'e) change \<Rightarrow> bool" where
  "keyed c \<longleftrightarrow> (case c of Put_key k e \<Rightarrow> key_of e = k | Delete_key k \<Rightarrow> True)"

lemma part_step:
  "keyed c \<Longrightarrow> part_of (step c s) k =
     (if k = change_key c then (case change_value c of Some e \<Rightarrow> value_of e | None \<Rightarrow> unset k)
      else part_of s k)"
  by (cases c) (auto simp: step_def keyed_def part_put part_del)

lemma part_steps:
  "\<forall>c\<in>set cs. keyed c \<Longrightarrow> part_of (fold step cs s) k =
     (case last_change k cs of
        Some c \<Rightarrow> (case change_value c of Some e \<Rightarrow> value_of e | None \<Rightarrow> unset k)
      | None \<Rightarrow> part_of s k)"
  by (induction cs arbitrary: s) (auto simp: part_step split: option.splits)

end

lemmas state_default_defs = stream_default_def table_default_def pipeline_default_def

interpretation ps: parted_state state_part state_put state_delete entry_key entry_part default_part
proof
  fix e :: state_entry and s :: pipeline_state and k k' :: state_key
  show "state_part (state_put e s) k = (if k = entry_key e then entry_part e else state_part s k)"
    by (cases e; cases k) (simp_all add: btree_simps Let_def)
  show "state_part (state_delete k' s) k = (if k = k' then default_part k else state_part s k)"
    by (cases k'; cases k)
      (simp_all add: btree_simps Let_def default_part_def state_default_defs bt_default_def [of _ "[]"]
        bt_remove_def [of _ "[]"])
qed

subsection \<open>Records and the state they rebuild\<close>

text \<open>How a destination keeps the records (\<open>PipelineStore::committed\<close>): a put replaces the record
  of its key, a delete removes it.\<close>

definition records_apply :: "(string, state_record) btree \<Rightarrow> state_change \<Rightarrow> (string, state_record) btree" where
  "records_apply recs change =
     (case change of
        Put r \<Rightarrow> bt_insert (rec_key r) r recs
      | Delete key \<Rightarrow> bt_remove key recs)"

definition records_wf :: "(string, state_record) btree \<Rightarrow> bool" where
  "records_wf recs \<longleftrightarrow> bt_wf recs \<and> (\<forall>(k, r)\<in>set recs. rec_key r = k)"

text \<open>What is relied on of the serializer: it reads back the keys it wrote.\<close>

definition json_keys :: "json \<Rightarrow> bool" where
  "json_keys js \<longleftrightarrow> (\<forall>k. js_read_key js (js_key js k) = Some k)"

lemma state_key_parse_Inr: "state_key_parse js key = Inr k \<longleftrightarrow> js_read_key js key = Some k \<and> js_key js k = key"
  by (auto simp: state_key_parse_def state_key_encode_def split: option.splits)

lemma from_record_key: "from_record js r = Inr e \<Longrightarrow> rec_key r = js_key js (entry_key e)"
  by (cases "state_key_parse js (rec_key r)"; cases "js_read_value js (rec_value r)")
    (auto simp: from_record_def state_key_parse_Inr split: reading.splits if_splits)

lemma js_key_inj: "json_keys js \<Longrightarrow> js_key js k = js_key js k' \<longleftrightarrow> k = k'"
  unfolding json_keys_def by (metis option.inject)

definition record_part :: "json \<Rightarrow> state_record \<Rightarrow> part option" where
  "record_part js r = (case from_record js r of Inr e \<Rightarrow> Some (entry_part e) | Inl _ \<Rightarrow> None)"

text \<open>The part of the state the records hold under a key.\<close>

definition records_part :: "json \<Rightarrow> (string, state_record) btree \<Rightarrow> state_key \<Rightarrow> part option" where
  "records_part js recs k =
     (case bt_get recs (js_key js k) of Some r \<Rightarrow> record_part js r | None \<Rightarrow> Some (default_part k))"

definition shows_records :: "json \<Rightarrow> (string, state_record) btree \<Rightarrow> pipeline_state \<Rightarrow> bool" where
  "shows_records js recs s \<longleftrightarrow> (\<forall>k. records_part js recs k = Some (state_part s k))"

lemma from_records_loop_parts:
  assumes "json_keys js"
  shows "from_records_loop js keys s rs = Inr s' \<Longrightarrow>
    (\<forall>r\<in>set rs. \<exists>e. from_record js r = Inr e) \<and>
    (\<forall>k. Some (state_part s' k) =
      (case bt_get (map (\<lambda>r. (rec_key r, r)) rs) (js_key js k) of
         Some r \<Rightarrow> record_part js r | None \<Rightarrow> Some (state_part s k)))"
proof (induction rs arbitrary: keys s)
  case (Cons r rs)
  then obtain e where e: "rec_key r \<notin> set keys" "from_record js r = Inr e"
    "from_records_loop js (rec_key r # keys) (state_put e s) rs = Inr s'"
    by (auto split: if_splits)
  have later: "bt_get (map (\<lambda>r. (rec_key r, r)) rs) (rec_key r) = None"
  proof -
    have "from_records_loop js ks st qs = Inr s' \<Longrightarrow> x \<in> set ks \<Longrightarrow> bt_get (map (\<lambda>r. (rec_key r, r)) qs) x = None"
      for ks st qs x
      by (induction qs arbitrary: ks st) (auto split: if_splits)
    from this [OF e(3)] show ?thesis by simp
  qed
  show ?case
    using Cons.IH [OF e(3)] e(2) later from_record_key [OF e(2)] js_key_inj [OF assms]
    by (auto simp: ps.part_put record_part_def split: option.splits)
qed simp

lemma records_map: "records_wf recs \<Longrightarrow> map (\<lambda>r. (rec_key r, r)) (map snd recs) = recs"
  by (auto simp: records_wf_def intro!: map_idI)

lemma from_records_shows:
  assumes "json_keys js" and "records_wf recs" and "from_records js (map snd recs) = Inr s"
  shows "shows_records js recs s" and "\<forall>(_, r)\<in>set recs. \<exists>e. from_record js r = Inr e"
  using from_records_loop_parts [OF assms(1), of "[]" pipeline_default "map snd recs" s] assms(3)
    records_map [OF assms(2)]
  by (auto simp: from_records_def shows_records_def records_part_def default_part_def split: option.splits)

lemma from_records_loop_ok:
  "distinct (map rec_key rs) \<Longrightarrow> set (map rec_key rs) \<inter> set keys = {} \<Longrightarrow>
   \<forall>r\<in>set rs. \<exists>e. from_record js r = Inr e \<Longrightarrow> \<exists>s'. from_records_loop js keys s rs = Inr s'"
proof (induction rs arbitrary: keys s)
  case (Cons r rs)
  then obtain e where "from_record js r = Inr e" by auto
  moreover have "\<exists>s'. from_records_loop js (rec_key r # keys) (state_put e s) rs = Inr s'"
    using Cons.prems by (intro Cons.IH) auto
  ultimately show ?case using Cons.prems by auto
qed simp

lemma from_records_ok:
  assumes "records_wf recs" and "\<forall>(_, r)\<in>set recs. \<exists>e. from_record js r = Inr e"
  shows "\<exists>s. from_records js (map snd recs) = Inr s"
proof -
  have "map rec_key (map snd recs) = map fst recs"
    using assms(1) by (auto simp: records_wf_def)
  then have "distinct (map rec_key (map snd recs))"
    using assms(1) bt_wf_distinct by (metis records_wf_def)
  then show ?thesis
    unfolding from_records_def using assms(2) by (intro from_records_loop_ok) auto
qed

lemma set_bt_insert_entry: "x \<in> set (bt_insert k v m) \<Longrightarrow> x = (k, v) \<or> x \<in> set m"
  using set_bt_insert_subset by fastforce

lemma set_bt_remove_entry: "x \<in> set (bt_remove k m) \<Longrightarrow> x \<in> set m"
  by (simp add: bt_remove_def)

lemma records_apply_wf: "records_wf recs \<Longrightarrow> records_wf (records_apply recs c)"
  by (cases c) (auto simp: records_apply_def records_wf_def dest: set_bt_insert_entry set_bt_remove_entry)

lemma records_apply_parse:
  "\<forall>(_, r)\<in>set recs. \<exists>e. from_record js r = Inr e \<Longrightarrow> state_apply js s c = Inr s' \<Longrightarrow>
   \<forall>(_, r)\<in>set (records_apply recs c). \<exists>e. from_record js r = Inr e"
  by (cases c) (auto simp: records_apply_def state_apply_def dest!: set_bt_insert_entry set_bt_remove_entry)

lemma shows_records_apply:
  assumes "json_keys js" and "shows_records js recs s" and "state_apply js s c = Inr s'"
  shows "shows_records js (records_apply recs c) s'"
proof (cases c)
  case (Put r)
  then obtain e where e: "from_record js r = Inr e" "s' = state_put e s"
    using assms(3) by (auto simp: state_apply_def)
  show ?thesis
    using assms(2) e Put from_record_key [OF e(1)] js_key_inj [OF assms(1)]
    by (auto simp: shows_records_def records_part_def records_apply_def ps.part_put btree_simps record_part_def)
next
  case (Delete key)
  then obtain k where k: "key = js_key js k" "s' = state_delete k s"
    using assms(3) by (auto simp: state_apply_def state_key_parse_Inr)
  show ?thesis
    using assms(2) k Delete js_key_inj [OF assms(1)]
    by (auto simp: shows_records_def records_part_def records_apply_def ps.part_del btree_simps)
qed

lemma state_apply_all_shows:
  assumes "json_keys js"
  shows "shows_records js recs s \<Longrightarrow> records_wf recs \<Longrightarrow>
    \<forall>(_, r)\<in>set recs. \<exists>e. from_record js r = Inr e \<Longrightarrow> state_apply_all js s cs = Inr s' \<Longrightarrow>
    shows_records js (foldl records_apply recs cs) s' \<and> records_wf (foldl records_apply recs cs) \<and>
    (\<forall>(_, r)\<in>set (foldl records_apply recs cs). \<exists>e. from_record js r = Inr e)"
proof (induction cs arbitrary: recs s)
  case (Cons c cs)
  then obtain mid where mid: "state_apply js s c = Inr mid" "state_apply_all js mid cs = Inr s'" by auto
  show ?case
    using Cons.IH [OF shows_records_apply [OF assms Cons.prems(1) mid(1)]
        records_apply_wf [OF Cons.prems(2)] records_apply_parse [OF Cons.prems(3) mid(1)] mid(2)] by simp
qed simp

subsection \<open>A text of keys\<close>

text \<open>A concrete reader and writer of keys that meets what is relied on of the serializer: a string
  is its characters, each after a plus, ended by a dot, and a path is its segments likewise.\<close>

fun enc_str :: "string \<Rightarrow> string" where
  "enc_str [] = ''.''"
| "enc_str (c # cs) = CHR ''+'' # c # enc_str cs"

fun dec_str :: "string \<Rightarrow> (string \<times> string) option" where
  "dec_str (x # c # cs) =
     (if x = CHR ''.'' then Some ([], c # cs) else map_option (\<lambda>(s, r). (c # s, r)) (dec_str cs))"
| "dec_str [x] = (if x = CHR ''.'' then Some ([], []) else None)"
| "dec_str [] = None"

fun enc_path :: "string list \<Rightarrow> string" where
  "enc_path [] = ''.''"
| "enc_path (s # ss) = CHR ''+'' # enc_str s @ enc_path ss"

fun dec_path :: "nat \<Rightarrow> string \<Rightarrow> string list option" where
  "dec_path (Suc n) (x # xs) =
     (if x = CHR ''.'' then Some []
      else case dec_str xs of None \<Rightarrow> None | Some (s, r) \<Rightarrow> map_option ((#) s) (dec_path n r))"
| "dec_path _ _ = None"

fun enc_stream :: "stream_name \<Rightarrow> string" where
  "enc_stream (None, name) = CHR ''n'' # enc_str name"
| "enc_stream (Some ns, name) = CHR ''o'' # enc_str ns @ enc_str name"

fun dec_stream :: "string \<Rightarrow> (stream_name \<times> string) option" where
  "dec_stream (x # xs) =
     (case dec_str xs of
        None \<Rightarrow> None
      | Some (s, r) \<Rightarrow>
          if x = CHR ''n'' then Some ((None, s), r)
          else map_option (\<lambda>(t, r'). ((Some s, t), r')) (dec_str r))"
| "dec_stream [] = None"

fun plain_key :: "state_key \<Rightarrow> string" where
  "plain_key EpochKey = ''E''"
| "plain_key (PhaseKey stream) = CHR ''P'' # enc_stream stream"
| "plain_key (PartitionKey stream pid) = CHR ''T'' # enc_stream stream @ enc_str pid"
| "plain_key (GenerationKey stream) = CHR ''G'' # enc_stream stream"
| "plain_key (CompletedKey stream) = CHR ''C'' # enc_stream stream"
| "plain_key (ResetKey stream) = CHR ''R'' # enc_stream stream"
| "plain_key (SchemaKey table) = CHR ''S'' # enc_path table"
| "plain_key (NamesKey table) = CHR ''N'' # enc_path table"
| "plain_key (SequencesKey table) = CHR ''Q'' # enc_path table"

definition plain_read_key :: "string \<Rightarrow> state_key option" where
  "plain_read_key text =
     (case text of
        [] \<Rightarrow> None
      | tag # xs \<Rightarrow>
          let stream = map_option fst (dec_stream xs); path = dec_path (length text) xs
          in if tag = CHR ''E'' then Some EpochKey
             else if tag = CHR ''P'' then map_option PhaseKey stream
             else if tag = CHR ''T''
             then (case dec_stream xs of
                     None \<Rightarrow> None
                   | Some (s, r) \<Rightarrow> map_option (\<lambda>(p, _). PartitionKey s p) (dec_str r))
             else if tag = CHR ''G'' then map_option GenerationKey stream
             else if tag = CHR ''C'' then map_option CompletedKey stream
             else if tag = CHR ''R'' then map_option ResetKey stream
             else if tag = CHR ''S'' then map_option SchemaKey path
             else if tag = CHR ''N'' then map_option NamesKey path
             else map_option SequencesKey path)"

text \<open>Epochs are the only values the concrete texts below hold.\<close>

definition plain_json :: json where
  "plain_json =
     \<lparr>js_key = plain_key, js_read_key = plain_read_key,
      js_value = (\<lambda>_ e. case e of EpochEntry n \<Rightarrow> replicate n CHR ''i'' | _ \<Rightarrow> ''x''),
      js_read_value = (\<lambda>v. Some (ReadEntry (EpochEntry (length v))))\<rparr>"

lemma dec_enc_str [simp]: "dec_str (enc_str s @ r) = Some (s, r)"
  by (induction s) (cases r; simp)+

lemma dec_enc_str_end [simp]: "dec_str (enc_str s) = Some (s, [])"
  using dec_enc_str [of s "[]"] by simp

lemma dec_path_code [code]:
  "dec_path n xs =
     (if n = 0 then None
      else case xs of
             [] \<Rightarrow> None
           | x # xs' \<Rightarrow>
               if x = CHR ''.'' then Some []
               else case dec_str xs' of None \<Rightarrow> None | Some (s, r) \<Rightarrow> map_option ((#) s) (dec_path (n - 1) r))"
  by (cases n; cases xs) (simp_all split: option.splits prod.splits)

lemma dec_enc_path: "length ss < n \<Longrightarrow> dec_path n (enc_path ss) = Some ss"
proof (induction ss arbitrary: n)
  case Nil
  then show ?case by (cases n) simp_all
next
  case (Cons s ss)
  then show ?case by (cases n) simp_all
qed

lemma length_enc_path: "length ss < length (enc_path ss)"
  by (induction ss) simp_all

lemma dec_enc_stream [simp]: "dec_stream (enc_stream s @ r) = Some (s, r)"
  by (cases s rule: enc_stream.cases) simp_all

lemma dec_enc_stream_end [simp]: "dec_stream (enc_stream s) = Some (s, [])"
  using dec_enc_stream [of s "[]"] by simp

lemma plain_json_keys: "json_keys plain_json"
proof -
  have "plain_read_key (plain_key k) = Some k" for k
    using length_enc_path
    by (cases k) (simp_all add: plain_read_key_def Let_def dec_enc_path less_SucI)
  then show ?thesis by (simp add: json_keys_def plain_json_def)
qed

subsection \<open>Properties\<close>

text \<open>the state an engine keeps by applying each change a commit carried is, part by part, the
  state a later session rebuilds from the records the destination then holds: rebuilding succeeds,
  and every key reads the same in both. The keys' text is read back as it was written.\<close>

theorem state_rebuilt:
  assumes "json_keys js" and "records_wf recs" and "from_records js (map snd recs) = Inr s"
    and "state_apply_all js s changes = Inr s'"
  shows "\<exists>t. from_records js (map snd (foldl records_apply recs changes)) = Inr t \<and>
    (\<forall>k. state_part t k = state_part s' k)"
proof -
  note start = from_records_shows [OF assms(1,2,3)]
  have after: "shows_records js (foldl records_apply recs changes) s'"
    "records_wf (foldl records_apply recs changes)"
    "\<forall>(_, r)\<in>set (foldl records_apply recs changes). \<exists>e. from_record js r = Inr e"
    using state_apply_all_shows [OF assms(1) start(1) assms(2) start(2) assms(4)] by auto
  obtain t where t: "from_records js (map snd (foldl records_apply recs changes)) = Inr t"
    using from_records_ok [OF after(2,3)] by blast
  from from_records_shows(1) [OF assms(1) after(2) t] after(1) t show ?thesis
    by (auto simp: shows_records_def)
qed

theorem state_rebuilt_witness:
  "\<exists>t. from_records plain_json
        (map snd (foldl records_apply [] [Put (to_record plain_json (EpochEntry 3)), Delete (plain_key (PhaseKey (None, ''s'')))]))
      = Inr t \<and> (\<forall>k. state_part t k = state_part (pipeline_default\<lparr>ps_epoch := 3\<rparr>) k)"
proof (rule state_rebuilt [OF plain_json_keys])
  show "records_wf []" by (simp add: records_wf_def)
  show "from_records plain_json (map snd []) = Inr pipeline_default" by (simp add: from_records_def)
  show "state_apply_all plain_json pipeline_default
      [Put (to_record plain_json (EpochEntry 3)), Delete (plain_key (PhaseKey (None, ''s'')))]
    = Inr (pipeline_default\<lparr>ps_epoch := 3\<rparr>)"
    by (simp add: state_apply_def from_record_def to_record_def state_key_parse_def state_key_encode_def
        plain_json_def plain_read_key_def pipeline_default_def bt_modify_def)
qed



end
