(* ===== verification/Commits.thy ===== *)
theory Commits
  imports Segments State
begin

text \<open>
  Commits and the fence that answers them (\<open>crates/rdlt-connector/src/commit.rs\<close>, \<open>landed.rs\<close>): a
  commit's key is its session's epoch and its place among the session's commits; a destination keeps
  in one row the newest epoch and the receipt of the last commit that landed, and decides by that row
  alone whether a commit landed already, is fenced, is stale, or applies.
\<close>

subsection \<open>Keys, commits and receipts\<close>

datatype commit_key = CommitKey (ck_epoch: epoch) (ck_seq: nat)

text \<open>The derived order: by epoch, then by place.\<close>

instantiation commit_key :: linorder
begin

definition less_eq_commit_key :: "commit_key \<Rightarrow> commit_key \<Rightarrow> bool" where
  "less_eq_commit_key a b \<longleftrightarrow> (ck_epoch a, ck_seq a) \<le> (ck_epoch b, ck_seq b)"

definition less_commit_key :: "commit_key \<Rightarrow> commit_key \<Rightarrow> bool" where
  "less_commit_key a b \<longleftrightarrow> (ck_epoch a, ck_seq a) < (ck_epoch b, ck_seq b)"

instance
proof
  fix x y z :: commit_key
  show "x < y \<longleftrightarrow> x \<le> y \<and> \<not> y \<le> x"
    by (auto simp: less_eq_commit_key_def less_commit_key_def)
  show "x \<le> x" by (simp add: less_eq_commit_key_def)
  show "x \<le> y \<Longrightarrow> y \<le> z \<Longrightarrow> x \<le> z" unfolding less_eq_commit_key_def by (rule order_trans)
  show "x \<le> y \<Longrightarrow> y \<le> x \<Longrightarrow> x = y"
    by (cases x; cases y) (auto simp: less_eq_commit_key_def)
  show "x \<le> y \<or> y \<le> x" unfolding less_eq_commit_key_def by (rule linear)
qed

end

record root_key =
  rk_table :: string
  rk_id :: string
  rk_seq :: string

datatype deletion = Hard | Soft string

record change_columns =
  cc_op :: string
  cc_unchanged :: "string option"
  cc_deletion :: deletion

record history_columns =
  hc_valid_from :: string
  hc_valid_to :: string
  hc_is_current :: string
  hc_row_hash :: string

record merge_key =
  mk_columns :: "string list"
  mk_seq :: string
  mk_root :: "root_key option"
  mk_changes :: "change_columns option"
  mk_history :: "history_columns option"

record table_ref =
  tr_path :: table_path
  tr_name :: string
  tr_version :: nat
  tr_generation :: "generation_id option"
  tr_merge :: "merge_key option"

record child_table =
  ct_table :: string
  ct_merge :: merge_key

record dropped_table =
  dt_path :: table_path
  dt_name :: string

record commit_meta =
  cm_key :: commit_key
  cm_after :: "commit_key option"
  cm_segments :: segment_set
  cm_abandoned :: segment_set
  cm_state_delta :: "state_change list"
  cm_finish_generations :: "(table_path \<times> generation_id) list"
  cm_child_tables :: "child_table list"
  cm_drop_tables :: "dropped_table list"

record receipt =
  rc_key :: commit_key
  rc_committed_at :: nat
  rc_rows :: nat
  rc_bytes :: nat

definition receipt_answers :: "receipt \<Rightarrow> commit_meta \<Rightarrow> bool" where
  "receipt_answers r meta \<longleftrightarrow> rc_key r = cm_key meta"

subsection \<open>The fence\<close>

record fence =
  fn_epoch :: epoch
  fn_landed :: "receipt option"

datatype fence_answer = Landed receipt | Fenced | Stale | Apply

definition answer :: "fence \<Rightarrow> commit_key \<Rightarrow> commit_key option \<Rightarrow> fence_answer" where
  "answer fence key after =
     (case fn_landed fence of
        Some r \<Rightarrow>
          if rc_key r = key then Landed r
          else if fn_epoch fence \<noteq> ck_epoch key then Fenced
          else if Some (rc_key r) \<noteq> after then Stale
          else Apply
      | None \<Rightarrow>
          if fn_epoch fence \<noteq> ck_epoch key then Fenced
          else if None \<noteq> after then Stale
          else Apply)"

text \<open>The errors of a destination, by their kind and code.\<close>

datatype conn_error =
    FencedError epoch epoch
  | StaleError commit_key "commit_key option" "commit_key option"
  | SessionError epoch commit_key
  | TableOwned string pipeline_id
  | TableUnowned string
  | MergeKeyInvalid string
  | FencedClaim pipeline_id epoch
  | LastEpoch pipeline_id
  | SchemaRefused change_error
  | MergeFailed string
  | InternalError string

definition decide :: "fence \<Rightarrow> commit_meta \<Rightarrow> conn_error + receipt option" where
  "decide fence meta =
     (case answer fence (cm_key meta) (cm_after meta) of
        Landed r \<Rightarrow> Inr (Some r)
      | Apply \<Rightarrow> Inr None
      | Fenced \<Rightarrow> Inl (FencedError (fn_epoch fence) (ck_epoch (cm_key meta)))
      | Stale \<Rightarrow> Inl (StaleError (cm_key meta) (cm_after meta) (map_option rc_key (fn_landed fence))))"

subsection \<open>What an answer says\<close>

lemma answer_Apply:
  "answer fence key after = Apply \<longleftrightarrow>
     fn_epoch fence = ck_epoch key \<and> map_option rc_key (fn_landed fence) = after \<and> after \<noteq> Some key"
  by (auto simp: answer_def split: option.splits)

lemma answer_Landed: "answer fence key after = Landed r \<longleftrightarrow> fn_landed fence = Some r \<and> rc_key r = key"
  by (auto simp: answer_def split: option.splits)

lemma answer_Fenced:
  "answer fence key after = Fenced \<longleftrightarrow>
     fn_epoch fence \<noteq> ck_epoch key \<and> map_option rc_key (fn_landed fence) \<noteq> Some key"
  by (auto simp: answer_def split: option.splits)

lemma answer_Stale:
  "answer fence key after = Stale \<longleftrightarrow>
     fn_epoch fence = ck_epoch key \<and> map_option rc_key (fn_landed fence) \<noteq> after \<and>
     map_option rc_key (fn_landed fence) \<noteq> Some key"
  by (auto simp: answer_def split: option.splits)

lemma decide_Apply: "decide fence meta = Inr None \<longleftrightarrow> answer fence (cm_key meta) (cm_after meta) = Apply"
  by (auto simp: decide_def split: fence_answer.splits)

lemma decide_Landed:
  "decide fence meta = Inr (Some r) \<longleftrightarrow> fn_landed fence = Some r \<and> rc_key r = cm_key meta"
  by (auto simp: decide_def answer_def split: fence_answer.splits option.splits if_splits)

subsection \<open>Properties\<close>

text \<open>C8: a commit that applied is answered with its receipt however often it is sent again, and
  no commit is applied twice while its receipt stands: with the receipt of the applied commit as the
  landed one, the same key answers \<open>Landed\<close> whatever epoch the row has since taken, and a commit of
  another key applies only where it names that receipt's key as the one before it.\<close>

theorem answer_once:
  assumes "answer fence key after = Apply" and "rc_key r = key"
  shows "answer \<lparr>fn_epoch = newer, fn_landed = Some r\<rparr> key anything = Landed r \<and>
    (\<forall>key2 after2. answer \<lparr>fn_epoch = newer, fn_landed = Some r\<rparr> key2 after2 = Apply \<longrightarrow>
       after2 = Some key \<and> key2 \<noteq> key \<and> ck_epoch key2 = newer)"
  using assms by (auto simp: answer_Landed answer_Apply)

theorem answer_once_witness:
  "answer \<lparr>fn_epoch = 9, fn_landed = Some \<lparr>rc_key = CommitKey 2 1, rc_committed_at = 0, rc_rows = 5, rc_bytes = 7\<rparr>\<rparr>
     (CommitKey 2 1) None
   = Landed \<lparr>rc_key = CommitKey 2 1, rc_committed_at = 0, rc_rows = 5, rc_bytes = 7\<rparr>"
proof (rule answer_once [THEN conjunct1])
  show "answer \<lparr>fn_epoch = 2, fn_landed = None\<rparr> (CommitKey 2 1) None = Apply"
    by (simp add: answer_def)
qed simp

end
