(* ===== verification/Destination.thy ===== *)
theory Destination
  imports Commits
begin

text \<open>
  The reference destination that keeps tables and state in memory
  (\<open>crates/rdlt-connector-reference/src/memory/destination.rs\<close> and the files beside it). A store
  holds each pipeline's epoch, state records and last receipt, its tables, and the names pipelines
  registered. Every method takes the store's lock for the whole of its body, so each is one step
  from a store to a store and a result.

  Record batches are Arrow's, and the row merge is built on Arrow's kernels: both are parameters, the
  type of a batch and the functions of the record \<open>arrow\<close>.
\<close>

subsection \<open>What is taken of Arrow\<close>

record ('b, 'sch) arrow =
  ar_rows :: "'b \<Rightarrow> nat"
  ar_size :: "'b \<Rightarrow> nat"
  ar_schema :: "'b \<Rightarrow> 'sch"
  ar_to_arrow :: "field list \<Rightarrow> 'sch"
  ar_merge :: "'sch \<Rightarrow> 'b list \<Rightarrow> 'b list \<Rightarrow> 'b list \<Rightarrow> merge_key \<Rightarrow> conn_error + 'b list \<times> 'b list"
  ar_merge_children :: "'sch \<Rightarrow> 'b list \<Rightarrow> 'b list \<Rightarrow> merge_key \<Rightarrow> root_key \<Rightarrow> 'b list \<Rightarrow> conn_error + 'b list"
  ar_admitted :: "'b \<Rightarrow> 'sch option \<Rightarrow> merge_key \<Rightarrow> conn_error + unit"
  ar_holds :: "'b list \<Rightarrow> 'sch \<Rightarrow> conn_error + unit"
  ar_tombstone_schema :: "'sch \<Rightarrow> merge_key \<Rightarrow> conn_error + 'sch"

subsection \<open>Tables\<close>

type_synonym 'b staged = "(generation_id option \<times> 'b) list"

type_synonym staging_key = "pipeline_id \<times> epoch \<times> nat"

record 'b mem_table =
  mt_owner :: "pipeline_id option"
  mt_schema :: "field list option"
  mt_merge :: "merge_key option"
  mt_published :: "'b list"
  mt_tombstones :: "'b list"
  mt_generations :: "(generation_id, 'b list) btree"
  mt_staged :: "(staging_key, 'b staged) btree"

definition mem_table_default :: "'b mem_table" where
  "mem_table_default =
     \<lparr>mt_owner = None, mt_schema = None, mt_merge = None, mt_published = [], mt_tombstones = [],
      mt_generations = [], mt_staged = []\<rparr>"

text \<open>A plan: a table's name, the batches the commit staged for it, and for a merge table its rows
  and tombstones once merged.\<close>

type_synonym 'b plan = "string \<times> 'b staged \<times> ('b list \<times> 'b list) option"

definition holds_key :: "string \<Rightarrow> merge_key \<Rightarrow> field list option \<Rightarrow> conn_error + unit" where
  "holds_key name key schema =
     (case mk_columns key of
        [] \<Rightarrow> Inl (MergeKeyInvalid name)
      | root_id # _ \<Rightarrow>
          (case schema of
             None \<Rightarrow> Inr ()
           | Some columns \<Rightarrow>
               let keys = (if mk_root key \<noteq> None then [root_id] else mk_columns key);
                   at = (case mk_changes key of
                           Some changes \<Rightarrow> (case cc_deletion changes of Soft c \<Rightarrow> [c] | Hard \<Rightarrow> [])
                         | None \<Rightarrow> []);
                   history = (case mk_history key of
                                Some h \<Rightarrow> [hc_valid_from h, hc_valid_to h, hc_is_current h, hc_row_hash h]
                              | None \<Rightarrow> [])
               in if list_all (\<lambda>column. list_ex (\<lambda>f. f_name f = column) columns)
                       (keys @ [mk_seq key] @ at @ history)
                  then Inr () else Inl (MergeKeyInvalid name)))"

definition table_change_apply :: "('b, 'sch) arrow \<Rightarrow> merge_key option \<Rightarrow> 'b mem_table \<Rightarrow> table_change
    \<Rightarrow> conn_error + 'b mem_table" where
  "table_change_apply ar ref_merge t change =
     (case changed (mt_schema t) change of
        Inl e \<Rightarrow> Inl (SchemaRefused e)
      | Inr next_schema \<Rightarrow>
          let sch = ar_to_arrow ar next_schema;
              rows = mt_published t @ concat (map snd (mt_generations t)) @
                     map snd (concat (map snd (mt_staged t)))
          in rbind (ar_holds ar rows sch) (\<lambda>_.
             rbind (case (case mt_merge t of Some k \<Rightarrow> Some k | None \<Rightarrow> ref_merge) of
                      Some key \<Rightarrow>
                        rbind (ar_tombstone_schema ar sch key) (\<lambda>kept. ar_holds ar (mt_tombstones t) kept)
                    | None \<Rightarrow> Inr ()) (\<lambda>_.
             Inr (t\<lparr>mt_schema := Some next_schema\<rparr>))))"

definition table_admits :: "('b, 'sch) arrow \<Rightarrow> 'b mem_table \<Rightarrow> 'b \<Rightarrow> conn_error + unit" where
  "table_admits ar t batch =
     (case mt_merge t of
        None \<Rightarrow> Inr ()
      | Some key \<Rightarrow> ar_admitted ar batch (map_option (ar_to_arrow ar) (mt_schema t)) key)"

definition merge_schema :: "('b, 'sch) arrow \<Rightarrow> 'b mem_table \<Rightarrow> 'b staged \<Rightarrow> conn_error + 'sch" where
  "merge_schema ar t staged =
     (case mt_schema t of
        Some columns \<Rightarrow> Inr (ar_to_arrow ar columns)
      | None \<Rightarrow>
          (case staged of
             (_, batch) # _ \<Rightarrow> Inr (ar_schema ar batch)
           | [] \<Rightarrow> Inl (InternalError ''merging nothing'')))"

definition table_merged :: "('b, 'sch) arrow \<Rightarrow> 'b mem_table \<Rightarrow> 'b staged \<Rightarrow> merge_key
    \<Rightarrow> conn_error + 'b list \<times> 'b list" where
  "table_merged ar t staged key =
     rbind (merge_schema ar t staged)
       (\<lambda>sch. ar_merge ar sch (mt_published t) (mt_tombstones t) (map snd staged) key)"

definition table_merged_children :: "('b, 'sch) arrow \<Rightarrow> 'b mem_table \<Rightarrow> 'b staged \<Rightarrow> merge_key \<Rightarrow> root_key
    \<Rightarrow> 'b list \<Rightarrow> conn_error + 'b list" where
  "table_merged_children ar t staged key root roots =
     rbind (merge_schema ar t staged)
       (\<lambda>sch. ar_merge_children ar sch (mt_published t) (map snd staged) key root roots)"

subsection \<open>The store\<close>

record pipeline_store =
  pl_epoch :: epoch
  pl_state :: "(string, state_record) btree"
  pl_landed :: "receipt option"

definition pipeline_store_default :: pipeline_store where
  "pipeline_store_default = \<lparr>pl_epoch = 0, pl_state = [], pl_landed = None\<rparr>"

record 'b store =
  st_pipelines :: "(pipeline_id, pipeline_store) btree"
  st_tables :: "(string, 'b mem_table) btree"
  st_names :: "(pipeline_id \<times> table_path, string) btree"

definition store_default :: "'b store" where
  "store_default = \<lparr>st_pipelines = [], st_tables = [], st_names = []\<rparr>"

definition store_pipeline :: "'b store \<Rightarrow> pipeline_id \<Rightarrow> pipeline_store" where
  "store_pipeline s p = bt_default pipeline_store_default (st_pipelines s) p"

definition pipeline_fence :: "pipeline_store \<Rightarrow> fence" where
  "pipeline_fence p = \<lparr>fn_epoch = pl_epoch p, fn_landed = pl_landed p\<rparr>"

definition pipeline_committed :: "commit_meta \<Rightarrow> receipt \<Rightarrow> pipeline_store \<Rightarrow> pipeline_store" where
  "pipeline_committed meta r p =
     p\<lparr>pl_state := foldl records_apply (pl_state p) (cm_state_delta meta), pl_landed := Some r\<rparr>"

subsection \<open>Owners\<close>

definition store_claim :: "pipeline_id \<Rightarrow> epoch \<Rightarrow> table_ref \<Rightarrow> 'b store \<Rightarrow> conn_error + 'b store" where
  "store_claim p epoch ref s =
     (let unclaimed = (case bt_get (st_tables s) (tr_name ref) of
                         None \<Rightarrow> True
                       | Some t \<Rightarrow> mt_owner t = None);
          current = map_option pl_epoch (bt_get (st_pipelines s) p)
      in if unclaimed \<and> current \<noteq> Some epoch then Inl (FencedClaim p epoch)
         else
           let entry = bt_default mem_table_default (st_tables s) (tr_name ref);
               owner = (case mt_owner entry of Some o' \<Rightarrow> o' | None \<Rightarrow> p)
           in if owner \<noteq> p then Inl (TableOwned (tr_name ref) owner)
              else Inr (s\<lparr>st_tables := bt_insert (tr_name ref)
                              (entry\<lparr>mt_owner := Some owner, mt_merge := tr_merge ref\<rparr>) (st_tables s),
                          st_names := bt_insert (p, tr_path ref) (tr_name ref) (st_names s)\<rparr>))"

definition store_owned :: "'b store \<Rightarrow> pipeline_id \<Rightarrow> string \<Rightarrow> conn_error + 'b mem_table" where
  "store_owned s p name =
     (case bt_get (st_tables s) name of
        None \<Rightarrow> Inl (TableUnowned name)
      | Some t \<Rightarrow>
          (case mt_owner t of
             Some owner \<Rightarrow> if owner = p then Inr t else Inl (TableOwned name owner)
           | None \<Rightarrow> Inl (TableUnowned name)))"

definition store_named :: "'b store \<Rightarrow> pipeline_id \<Rightarrow> table_path \<Rightarrow> string option" where
  "store_named s p path =
     (case bt_get (st_names s) (p, path) of
        Some name \<Rightarrow> if bt_get (st_tables s) name \<noteq> None then Some name else None
      | None \<Rightarrow> None)"

fun owned_all :: "'b store \<Rightarrow> pipeline_id \<Rightarrow> string list \<Rightarrow> conn_error + unit" where
  "owned_all s p [] = Inr ()"
| "owned_all s p (name # names) = rbind (store_owned s p name) (\<lambda>_. owned_all s p names)"

definition store_owns :: "'b store \<Rightarrow> pipeline_id \<Rightarrow> commit_meta \<Rightarrow> conn_error + unit" where
  "store_owns s p meta =
     (let swapped = List.map_filter (\<lambda>(path, _). store_named s p path) (cm_finish_generations meta);
          dropped = filter (\<lambda>name. bt_get (st_tables s) name \<noteq> None) (map dt_name (cm_drop_tables meta))
      in owned_all s p (swapped @ dropped))"

subsection \<open>Publishing\<close>

text \<open>The range of keys from segment 0 to the last of a session, filtered by the segments named.\<close>

definition staged_in :: "'b mem_table \<Rightarrow> pipeline_id \<Rightarrow> epoch \<Rightarrow> segment_set
    \<Rightarrow> (staging_key \<times> 'b staged) list" where
  "staged_in t p epoch segments =
     filter (\<lambda>(key, _). (p, epoch, 0) \<le> key \<and> key \<le> (p, epoch, U64_MAX) \<and>
                         segment_contains segments (snd (snd key)))
       (mt_staged t)"

definition staged_rows :: "'b store \<Rightarrow> string \<Rightarrow> pipeline_id \<Rightarrow> epoch \<Rightarrow> commit_meta \<Rightarrow> 'b list" where
  "staged_rows s name p epoch meta =
     (case bt_get (st_tables s) name of
        None \<Rightarrow> []
      | Some t \<Rightarrow> map snd (concat (map snd (staged_in t p epoch (cm_segments meta)))))"

text \<open>The merge of a child table a commit lists, where its root's staged rows are not none.\<close>

definition listed_child :: "'b store \<Rightarrow> string \<Rightarrow> pipeline_id \<Rightarrow> epoch \<Rightarrow> commit_meta \<Rightarrow> merge_key option" where
  "listed_child s name p epoch meta =
     (case find (\<lambda>child. ct_table child = name) (cm_child_tables meta) of
        None \<Rightarrow> None
      | Some child \<Rightarrow>
          (case mk_root (ct_merge child) of
             Some root \<Rightarrow>
               if staged_rows s (rk_table root) p epoch meta \<noteq> [] then Some (ct_merge child) else None
           | None \<Rightarrow> None))"

definition table_plan :: "('b, 'sch) arrow \<Rightarrow> 'b store \<Rightarrow> pipeline_id \<Rightarrow> epoch \<Rightarrow> commit_meta
    \<Rightarrow> string \<times> 'b mem_table \<Rightarrow> conn_error + 'b plan option" where
  "table_plan ar s p epoch meta = (\<lambda>(name, t).
     let staged = concat (map snd (staged_in t p epoch (cm_segments meta)));
         listed = listed_child s name p epoch meta
     in if staged = [] \<and> listed = None then Inr None
        else rbind (store_owned s p name) (\<lambda>_.
          (case (case mt_merge t of Some k \<Rightarrow> Some k | None \<Rightarrow> listed) of
             Some key \<Rightarrow>
               (case mk_root key of
                  Some root \<Rightarrow>
                    rbind (table_merged_children ar t staged key root
                             (staged_rows s (rk_table root) p epoch meta))
                      (\<lambda>rows. Inr (Some (name, staged, Some (rows, []))))
                | None \<Rightarrow>
                    rbind (table_merged ar t staged key)
                      (\<lambda>merged. Inr (Some (name, staged, Some merged))))
           | None \<Rightarrow> Inr (Some (name, staged, None)))))"

definition store_plans :: "('b, 'sch) arrow \<Rightarrow> 'b store \<Rightarrow> pipeline_id \<Rightarrow> epoch \<Rightarrow> commit_meta
    \<Rightarrow> conn_error + 'b plan list" where
  "store_plans ar s p epoch meta =
     rbind (collect (map (table_plan ar s p epoch meta) (st_tables s)))
       (\<lambda>plans. Inr (List.map_filter (\<lambda>x. x) plans))"

definition unstage :: "pipeline_id \<Rightarrow> epoch \<Rightarrow> commit_meta \<Rightarrow> 'b mem_table \<Rightarrow> 'b mem_table" where
  "unstage p epoch meta t =
     (let finished = map fst (staged_in t p epoch (cm_segments meta) @ staged_in t p epoch (cm_abandoned meta))
      in t\<lparr>mt_staged := fold bt_remove finished (mt_staged t)\<rparr>)"

definition push_batch :: "generation_id option \<times> 'b \<Rightarrow> 'b mem_table \<Rightarrow> 'b mem_table" where
  "push_batch = (\<lambda>(generation, batch) t.
     case generation of
       Some g \<Rightarrow> t\<lparr>mt_generations := bt_entry g [] (\<lambda>bs. bs @ [batch]) (mt_generations t)\<rparr>
     | None \<Rightarrow> t\<lparr>mt_published := mt_published t @ [batch]\<rparr>)"

definition plan_table :: "'b plan \<Rightarrow> 'b mem_table \<Rightarrow> 'b mem_table" where
  "plan_table = (\<lambda>(_, staged, merged) t.
     case merged of
       None \<Rightarrow> fold push_batch staged t
     | Some (rows, tombstones) \<Rightarrow> t\<lparr>mt_published := rows, mt_tombstones := tombstones\<rparr>)"

definition plan_counts :: "('b, 'sch) arrow \<Rightarrow> 'b plan list \<Rightarrow> nat \<times> nat" where
  "plan_counts ar plans =
     (let batches = concat (map (\<lambda>(_, staged, _). map snd staged) plans)
      in (foldl wadd 0 (map (ar_rows ar) batches), foldl wadd 0 (map (ar_size ar) batches)))"

definition apply_plan :: "'b plan \<Rightarrow> (string, 'b mem_table) btree \<Rightarrow> (string, 'b mem_table) btree" where
  "apply_plan pl tables = bt_entry (fst pl) mem_table_default (plan_table pl) tables"

definition finish_generation :: "pipeline_id \<Rightarrow> table_path \<times> generation_id \<Rightarrow> 'b store \<Rightarrow> 'b store" where
  "finish_generation p = (\<lambda>(path, generation) s.
     case store_named s p path of
       None \<Rightarrow> s
     | Some name \<Rightarrow>
         s\<lparr>st_tables := bt_entry name mem_table_default
             (\<lambda>t. t\<lparr>mt_published := bt_default [] (mt_generations t) generation,
                    mt_generations := [], mt_tombstones := []\<rparr>) (st_tables s)\<rparr>)"

definition drop_table :: "dropped_table \<Rightarrow> 'b store \<Rightarrow> 'b store" where
  "drop_table d s =
     s\<lparr>st_tables := bt_remove (dt_name d) (st_tables s),
       st_names := filter (\<lambda>(_, name). name \<noteq> dt_name d) (st_names s)\<rparr>"

definition store_publish :: "('b, 'sch) arrow \<Rightarrow> pipeline_id \<Rightarrow> epoch \<Rightarrow> commit_meta \<Rightarrow> 'b store
    \<Rightarrow> conn_error + 'b store \<times> nat \<times> nat" where
  "store_publish ar p epoch meta s =
     rbind (store_owns s p meta) (\<lambda>_.
     rbind (store_plans ar s p epoch meta) (\<lambda>plans.
       let unstaged = bt_map (unstage p epoch meta) (st_tables s);
           s' = s\<lparr>st_tables := fold apply_plan plans unstaged\<rparr>;
           s'' = fold (finish_generation p) (cm_finish_generations meta) s'
       in Inr (fold drop_table (cm_drop_tables meta) s'', plan_counts ar plans)))"

subsection \<open>Sessions and writers\<close>

definition mem_open :: "pipeline_id \<Rightarrow> 'b store
    \<Rightarrow> 'b store \<times> (conn_error + epoch \<times> receipt option \<times> state_record list)" where
  "mem_open p s =
     (let pl = store_pipeline s p
      in case next_id (pl_epoch pl) of
           None \<Rightarrow>
             (s\<lparr>st_pipelines := bt_entry p pipeline_store_default id (st_pipelines s)\<rparr>, Inl (LastEpoch p))
         | Some epoch \<Rightarrow>
             (s\<lparr>st_pipelines := bt_entry p pipeline_store_default (\<lambda>x. x\<lparr>pl_epoch := epoch\<rparr>) (st_pipelines s)\<rparr>,
              Inr (epoch, pl_landed pl, map snd (pl_state pl))))"

definition mem_commit :: "('b, 'sch) arrow \<Rightarrow> nat \<Rightarrow> pipeline_id \<Rightarrow> epoch \<Rightarrow> commit_meta \<Rightarrow> 'b store
    \<Rightarrow> 'b store \<times> (conn_error + receipt)" where
  "mem_commit ar now p epoch meta s =
     (let s0 = s\<lparr>st_pipelines := bt_entry p pipeline_store_default id (st_pipelines s)\<rparr>;
          fence = pipeline_fence (store_pipeline s p)
      in case decide fence meta of
           Inl e \<Rightarrow> (s0, Inl e)
         | Inr (Some landed) \<Rightarrow> (s0, Inr landed)
         | Inr None \<Rightarrow>
             if ck_epoch (cm_key meta) \<noteq> epoch then (s0, Inl (SessionError epoch (cm_key meta)))
             else (case store_publish ar p epoch meta s0 of
                     Inl e \<Rightarrow> (s0, Inl e)
                   | Inr (s1, rows, bytes) \<Rightarrow>
                       let r = \<lparr>rc_key = cm_key meta, rc_committed_at = now, rc_rows = rows, rc_bytes = bytes\<rparr>
                       in (s1\<lparr>st_pipelines := bt_entry p pipeline_store_default (pipeline_committed meta r)
                                (st_pipelines s1)\<rparr>, Inr r)))"

definition mem_discard_staged :: "pipeline_id \<Rightarrow> epoch \<Rightarrow> 'b store \<Rightarrow> 'b store" where
  "mem_discard_staged p epoch s =
     s\<lparr>st_tables := bt_map (\<lambda>t. t\<lparr>mt_staged :=
         filter (\<lambda>((p', e', _), _). p' \<noteq> p \<or> e' \<ge> epoch) (mt_staged t)\<rparr>) (st_tables s)\<rparr>"

definition mem_apply_schema :: "('b, 'sch) arrow \<Rightarrow> pipeline_id \<Rightarrow> epoch \<Rightarrow> table_ref \<Rightarrow> table_change \<Rightarrow> 'b store
    \<Rightarrow> 'b store \<times> (conn_error + unit)" where
  "mem_apply_schema ar p epoch ref change s =
     (case store_claim p epoch ref s of
        Inl e \<Rightarrow> (s, Inl e)
      | Inr s' \<Rightarrow>
          (case table_change_apply ar (tr_merge ref) (bt_default mem_table_default (st_tables s') (tr_name ref)) change of
             Inl e \<Rightarrow> (s', Inl e)
           | Inr t \<Rightarrow> (s'\<lparr>st_tables := bt_insert (tr_name ref) t (st_tables s')\<rparr>, Inr ())))"

record 'b mem_writer =
  mw_pipeline :: pipeline_id
  mw_epoch :: epoch
  mw_table :: string
  mw_generation :: "generation_id option"
  mw_buffered :: "(nat \<times> 'b) list"

definition mem_write :: "nat \<Rightarrow> 'b \<Rightarrow> 'b mem_writer \<Rightarrow> 'b mem_writer" where
  "mem_write segment batch w = w\<lparr>mw_buffered := mw_buffered w @ [(segment, batch)]\<rparr>"

definition stage_batch :: "'b mem_writer \<Rightarrow> nat \<times> 'b \<Rightarrow> 'b mem_table \<Rightarrow> 'b mem_table" where
  "stage_batch w = (\<lambda>(segment, batch) t.
     t\<lparr>mt_staged := bt_entry (mw_pipeline w, mw_epoch w, segment) []
         (\<lambda>staged. staged @ [(mw_generation w, batch)]) (mt_staged t)\<rparr>)"

fun admits_all :: "('b, 'sch) arrow \<Rightarrow> 'b mem_table \<Rightarrow> (nat \<times> 'b) list \<Rightarrow> conn_error + unit" where
  "admits_all ar t [] = Inr ()"
| "admits_all ar t ((_, batch) # bs) = rbind (table_admits ar t batch) (\<lambda>_. admits_all ar t bs)"

definition mem_flush :: "('b, 'sch) arrow \<Rightarrow> 'b mem_writer \<Rightarrow> 'b store
    \<Rightarrow> 'b store \<times> 'b mem_writer \<times> (conn_error + nat \<times> nat)" where
  "mem_flush ar w s =
     (let current = pl_epoch (store_pipeline s (mw_pipeline w))
      in if current \<noteq> mw_epoch w then (s, w, Inl (FencedError current (mw_epoch w)))
         else (case store_owned s (mw_pipeline w) (mw_table w) of
                 Inl e \<Rightarrow> (s, w, Inl e)
               | Inr t \<Rightarrow>
                   (case admits_all ar t (mw_buffered w) of
                      Inl e \<Rightarrow> (s, w, Inl e)
                    | Inr _ \<Rightarrow>
                        (s\<lparr>st_tables := bt_insert (mw_table w) (fold (stage_batch w) (mw_buffered w) t) (st_tables s)\<rparr>,
                         w\<lparr>mw_buffered := []\<rparr>,
                         Inr (foldl wadd 0 (map (ar_rows ar \<circ> snd) (mw_buffered w)),
                              foldl wadd 0 (map (ar_size ar \<circ> snd) (mw_buffered w)))))))"

definition refuses_history_generation :: "table_ref \<Rightarrow> bool" where
  "refuses_history_generation ref \<longleftrightarrow>
     (case tr_merge ref of Some key \<Rightarrow> mk_history key \<noteq> None | None \<Rightarrow> False) \<and> tr_generation ref \<noteq> None"

definition mem_writer_open :: "pipeline_id \<Rightarrow> epoch \<Rightarrow> table_ref \<Rightarrow> 'b store
    \<Rightarrow> 'b store \<times> (conn_error + 'b mem_writer)" where
  "mem_writer_open p epoch ref s =
     (if refuses_history_generation ref
      then (s, Inl (InternalError ''a history table merges into its table''))
      else case (case tr_merge ref of
                   Some key \<Rightarrow> holds_key (tr_name ref) key (Option.bind (bt_get (st_tables s) (tr_name ref)) mt_schema)
                 | None \<Rightarrow> Inr ()) of
             Inl e \<Rightarrow> (s, Inl e)
           | Inr _ \<Rightarrow>
               (case store_claim p epoch ref s of
                  Inl e \<Rightarrow> (s, Inl e)
                | Inr s' \<Rightarrow>
                    (s', Inr \<lparr>mw_pipeline = p, mw_epoch = epoch, mw_table = tr_name ref,
                              mw_generation = tr_generation ref, mw_buffered = []\<rparr>)))"

subsection \<open>What a step leaves of the store\<close>

definition fence_of :: "'b store \<Rightarrow> pipeline_id \<Rightarrow> fence" where
  "fence_of s p = pipeline_fence (store_pipeline s p)"

text \<open>The same store but for an entry that holds a pipeline's default.\<close>

definition store_same :: "'b store \<Rightarrow> 'b store \<Rightarrow> bool" where
  "store_same s s' \<longleftrightarrow> st_tables s' = st_tables s \<and> st_names s' = st_names s \<and>
     (\<forall>q. store_pipeline s' q = store_pipeline s q)"

lemma fence_of_sel [simp]:
  "fn_epoch (fence_of s p) = pl_epoch (store_pipeline s p)"
  "fn_landed (fence_of s p) = pl_landed (store_pipeline s p)"
  by (simp_all add: fence_of_def pipeline_fence_def)

lemma store_same_refl [simp]: "store_same s s"
  by (simp add: store_same_def)

lemma store_pipeline_entry:
  "store_pipeline (s\<lparr>st_pipelines := bt_entry p pipeline_store_default f (st_pipelines s)\<rparr>) q
     = (if q = p then f (store_pipeline s p) else store_pipeline s q)"
  by (simp add: store_pipeline_def btree_simps)

lemma store_same_entry: "store_same s (s\<lparr>st_pipelines := bt_entry p pipeline_store_default id (st_pipelines s)\<rparr>)"
  by (simp add: store_same_def store_pipeline_entry)

lemma finish_generation_frame [simp]:
  "st_pipelines (finish_generation p pg s) = st_pipelines s" "st_names (finish_generation p pg s) = st_names s"
  by (auto simp: finish_generation_def split: prod.splits option.splits)

lemma fold_finish_frame [simp]:
  "st_pipelines (fold (finish_generation p) pgs s) = st_pipelines s"
  "st_names (fold (finish_generation p) pgs s) = st_names s"
  by (induction pgs arbitrary: s) simp_all

lemma fold_drop_frame [simp]: "st_pipelines (fold drop_table ds s) = st_pipelines s"
  by (induction ds arbitrary: s) (simp_all add: drop_table_def)

lemma store_publish_pipelines: "store_publish ar p e meta s = Inr (s', n) \<Longrightarrow> st_pipelines s' = st_pipelines s"
  by (auto simp: store_publish_def Let_def)

text \<open>A commit by its outcome: refused or answered, and the store is as it was, or applied.\<close>

lemma mem_commit_cases:
  assumes "mem_commit ar now p e meta s = (s', res)"
  obtains (refused) err where "res = Inl err" "store_same s s'"
    | (landed) r where "res = Inr r" "store_same s s'" "pl_landed (store_pipeline s p) = Some r" "rc_key r = cm_key meta"
    | (applied) r s0 s1 rows bytes where "res = Inr r" "answer (fence_of s p) (cm_key meta) (cm_after meta) = Apply"
        "ck_epoch (cm_key meta) = e" "store_same s s0"
        "store_publish ar p e meta s0 = Inr (s1, rows, bytes)"
        "r = \<lparr>rc_key = cm_key meta, rc_committed_at = now, rc_rows = rows, rc_bytes = bytes\<rparr>"
        "st_tables s' = st_tables s1" "st_names s' = st_names s1"
        "store_pipeline s' p = pipeline_committed meta r (store_pipeline s p)"
        "\<forall>q. q \<noteq> p \<longrightarrow> store_pipeline s' q = store_pipeline s q"
proof -
  define s0 where "s0 = s\<lparr>st_pipelines := bt_entry p pipeline_store_default id (st_pipelines s)\<rparr>"
  have same: "store_same s s0" unfolding s0_def by (rule store_same_entry)
  note commit = assms [unfolded mem_commit_def Let_def, folded s0_def fence_of_def]
  show ?thesis
  proof (cases "decide (fence_of s p) meta")
    case (Inl err)
    with commit same show ?thesis by (intro refused) auto
  next
    case (Inr d)
    show ?thesis
    proof (cases d)
      case (Some r)
      with Inr have "pl_landed (store_pipeline s p) = Some r" "rc_key r = cm_key meta"
        by (simp_all add: decide_Landed)
      with commit same Inr Some show ?thesis by (intro landed) auto
    next
      case None
      with Inr have applies: "answer (fence_of s p) (cm_key meta) (cm_after meta) = Apply"
        by (simp add: decide_Apply)
      show ?thesis
      proof (cases "ck_epoch (cm_key meta) = e \<and> (\<exists>x. store_publish ar p e meta s0 = Inr x)")
        case False
        with commit same Inr None show ?thesis
          by (intro refused [of "projl res"]) (auto split: sum.splits if_splits)
      next
        case True
        then obtain s1 rows bytes where pub: "store_publish ar p e meta s0 = Inr (s1, rows, bytes)"
          by (metis prod_cases3)
        let ?r = "\<lparr>rc_key = cm_key meta, rc_committed_at = now, rc_rows = rows, rc_bytes = bytes\<rparr>"
        have s': "s' = s1\<lparr>st_pipelines := bt_entry p pipeline_store_default (pipeline_committed meta ?r) (st_pipelines s1)\<rparr>"
          and res: "res = Inr ?r"
          using commit Inr None True pub by (simp_all add: Let_def)
        have "store_pipeline s1 q = store_pipeline s q" for q
          using store_publish_pipelines [OF pub] same by (simp add: store_pipeline_def store_same_def)
        then show ?thesis
          using True pub s' res applies same
          by (intro applied [of ?r s0 s1 rows bytes]) (simp_all add: store_pipeline_entry)
      qed
    qed
  qed
qed

lemma mem_open_cases:
  assumes "mem_open p s = (s', res)"
  obtains (last) "res = Inl (LastEpoch p)" "store_same s s'" "pl_epoch (store_pipeline s p) \<ge> U64_MAX"
    | (opened) "res = Inr (Suc (pl_epoch (store_pipeline s p)), pl_landed (store_pipeline s p),
          map snd (pl_state (store_pipeline s p)))"
        "pl_epoch (store_pipeline s p) < U64_MAX"
        "store_pipeline s' p = (store_pipeline s p)\<lparr>pl_epoch := Suc (pl_epoch (store_pipeline s p))\<rparr>"
        "\<forall>q. q \<noteq> p \<longrightarrow> store_pipeline s' q = store_pipeline s q"
        "st_tables s' = st_tables s" "st_names s' = st_names s"
proof (cases "next_id (pl_epoch (store_pipeline s p))")
  case None
  then have "pl_epoch (store_pipeline s p) \<ge> U64_MAX"
    by (auto simp: next_id_def checked_add_def split: if_splits)
  with None assms store_same_entry [of s p] show ?thesis
    by (intro last) (auto simp: mem_open_def Let_def)
next
  case (Some e)
  then have "e = Suc (pl_epoch (store_pipeline s p))" "pl_epoch (store_pipeline s p) < U64_MAX"
    by (auto simp: next_id_def checked_add_def split: if_splits)
  with Some assms show ?thesis
    by (intro opened) (auto simp: mem_open_def Let_def store_pipeline_entry)
qed

end
