(* ===== verification/Publish.thy ===== *)
theory Publish
  imports Destination
begin

text \<open>
  What a commit of the memory destination publishes (\<^verbatim>\<open>Store::publish\<close> and \<^verbatim>\<open>Session::commit\<close> of
  \<^verbatim>\<open>rdlt-destination/src/reference/memory\<close>): the effect on one table of the plans, of the generations it
  finishes and of the tables it drops, and from these that a refused commit changes nothing, that a
  commit already landed is answered by its receipt, that the staged batches of its segments are
  published once and in order, and that another pipeline's table is left alone.
\<close>

subsection \<open>What a publish does to one table\<close>

lemma session_range: "((p::string), (e::nat), (0::nat)) \<le> k \<and> k \<le> (p, e, U64_MAX) \<longleftrightarrow>
   fst k = p \<and> fst (snd k) = e \<and> snd (snd k) \<le> U64_MAX"
  by (cases k) (auto simp: less_eq_prod_def)

text \<open>Whether a staging key is of a session and in a set of segments.\<close>

definition of_session :: "pipeline_id \<Rightarrow> epoch \<Rightarrow> segment_set \<Rightarrow> staging_key \<Rightarrow> bool" where
  "of_session p e segments k \<longleftrightarrow>
     fst k = p \<and> fst (snd k) = e \<and> snd (snd k) \<le> U64_MAX \<and> segment_contains segments (snd (snd k))"

lemma staged_in_filter: "staged_in t p e segments = filter (\<lambda>(k, _). of_session p e segments k) (mt_staged t)"
  unfolding staged_in_def of_session_def
  by (rule filter_cong) (auto simp: session_range [of p e, simplified])

lemma fold_bt_remove: "fold bt_remove ks m = filter (\<lambda>(k, _). k \<notin> set ks) m"
  by (induction ks arbitrary: m) (auto simp: bt_remove_def intro: filter_cong)

lemma keys_filter: "k \<in> fst ` set (filter (\<lambda>(k, _). P k) m) \<longleftrightarrow> P k \<and> k \<in> fst ` set m"
  by force

lemma unstage_staged:
  "mt_staged (unstage p e meta t) =
     filter (\<lambda>(k, _). \<not> of_session p e (cm_segments meta) k \<and> \<not> of_session p e (cm_abandoned meta) k) (mt_staged t)"
proof -
  let ?in = "\<lambda>segments. fst ` set (filter (\<lambda>(k, _). of_session p e segments k) (mt_staged t))"
  have "mt_staged (unstage p e meta t)
      = filter (\<lambda>(k, _). k \<notin> ?in (cm_segments meta) \<union> ?in (cm_abandoned meta)) (mt_staged t)"
    by (simp add: unstage_def Let_def staged_in_filter fold_bt_remove)
  also have "\<dots> = filter (\<lambda>(k, _). \<not> of_session p e (cm_segments meta) k \<and> \<not> of_session p e (cm_abandoned meta) k) (mt_staged t)"
  proof (rule filter_cong)
    fix x assume "x \<in> set (mt_staged t)"
    then have "fst x \<in> fst ` set (mt_staged t)" by (rule imageI)
    then show "(case x of (k, _) \<Rightarrow> k \<notin> ?in (cm_segments meta) \<union> ?in (cm_abandoned meta))
        = (case x of (k, _) \<Rightarrow> \<not> of_session p e (cm_segments meta) k \<and> \<not> of_session p e (cm_abandoned meta) k)"
      by (simp only: keys_filter Un_iff case_prod_beta de_Morgan_disj simp_thms)
  qed (rule refl)
  finally show ?thesis .
qed

lemma unstage_frame [simp]:
  "mt_published (unstage p e meta t) = mt_published t" "mt_tombstones (unstage p e meta t) = mt_tombstones t"
  "mt_generations (unstage p e meta t) = mt_generations t" "mt_owner (unstage p e meta t) = mt_owner t"
  "mt_schema (unstage p e meta t) = mt_schema t" "mt_merge (unstage p e meta t) = mt_merge t"
  by (simp_all add: unstage_def Let_def)

lemma push_batch_sel:
  "mt_published (push_batch gb t) = mt_published t @ (if fst gb = None then [snd gb] else [])"
  "bt_default [] (mt_generations (push_batch gb t)) g
     = bt_default [] (mt_generations t) g @ (if fst gb = Some g then [snd gb] else [])"
  "mt_staged (push_batch gb t) = mt_staged t" "mt_owner (push_batch gb t) = mt_owner t"
  "mt_tombstones (push_batch gb t) = mt_tombstones t"
  by (cases gb; auto simp: push_batch_def btree_simps split: option.splits)+

lemma fold_push_batch:
  "mt_published (fold push_batch bs t) = mt_published t @ map snd (filter (\<lambda>(g, _). g = None) bs)"
  "bt_default [] (mt_generations (fold push_batch bs t)) g
     = bt_default [] (mt_generations t) g @ map snd (filter (\<lambda>(g', _). g' = Some g) bs)"
  "mt_staged (fold push_batch bs t) = mt_staged t" "mt_owner (fold push_batch bs t) = mt_owner t"
  "mt_tombstones (fold push_batch bs t) = mt_tombstones t"
  by (induction bs arbitrary: t) (auto simp: push_batch_sel)

lemma fold_apply_plan_other:
  "\<forall>pl\<in>set plans. fst pl \<noteq> n \<Longrightarrow> bt_get (fold apply_plan plans tables) n = bt_get tables n"
  by (induction plans arbitrary: tables) (auto simp: apply_plan_def btree_simps)

lemma distinct_fst_Cons: "distinct (map fst (q # plans)) \<Longrightarrow> x \<in> set plans \<Longrightarrow> fst x \<noteq> fst q"
  by (metis distinct.simps(2) image_eqI list.map(2) set_map)

lemma fold_apply_plan_one:
  assumes "distinct (map fst plans)" and "pl \<in> set plans" and "bt_get tables (fst pl) = Some t"
  shows "bt_get (fold apply_plan plans tables) (fst pl) = Some (plan_table pl t)"
  using assms
proof (induction plans arbitrary: tables)
  case (Cons q plans)
  show ?case
  proof (cases "q = pl")
    case True
    then have "\<forall>x\<in>set plans. fst x \<noteq> fst pl"
      using distinct_fst_Cons [OF Cons.prems(1)] by blast
    then show ?thesis
      using True Cons.prems(3) fold_apply_plan_other [of plans "fst pl" "apply_plan pl tables"]
      by (simp add: apply_plan_def [of pl tables] btree_simps bt_default_def)
  next
    case False
    then have "pl \<in> set plans" using Cons.prems(2) by simp
    moreover from this have "fst pl \<noteq> fst q"
      by (rule distinct_fst_Cons [OF Cons.prems(1)])
    ultimately show ?thesis using Cons by (simp add: apply_plan_def [of q tables] btree_simps)
  qed
qed simp

lemma collect_map_Inr: "collect (map f xs) = Inr ys \<Longrightarrow> list_all2 (\<lambda>x y. f x = Inr y) xs ys"
  by (induction xs arbitrary: ys) auto

lemma map_filter_names:
  "list_all2 (\<lambda>x y. f x = Inr y) xs ys \<Longrightarrow> (\<And>x z. f x = Inr (Some z) \<Longrightarrow> fst z = fst x) \<Longrightarrow>
   sorted_wrt (<) (map fst xs) \<Longrightarrow> distinct (map fst (List.map_filter (\<lambda>x. x) ys)) \<and>
     set (map fst (List.map_filter (\<lambda>x. x) ys)) \<subseteq> set (map fst xs)" for f :: "'k::linorder \<times> 'a \<Rightarrow> 'e + ('k \<times> 'c) option"
proof (induction xs ys rule: list_all2_induct)
  case (Cons x xs y ys)
  then have IH: "distinct (map fst (List.map_filter (\<lambda>x. x) ys))"
    "set (map fst (List.map_filter (\<lambda>x. x) ys)) \<subseteq> set (map fst xs)" by simp_all
  show ?case
  proof (cases y)
    case (Some z)
    then have "fst z = fst x" using Cons by simp
    moreover have "fst x \<notin> set (map fst xs)" using Cons.prems(2) by auto
    ultimately show ?thesis using IH Some by (auto simp: List.map_filter_simps)
  qed (use IH in \<open>auto simp: List.map_filter_simps\<close>)
qed (simp add: List.map_filter_simps)

lemma table_plan_name: "table_plan ar s p e meta x = Inr (Some pl) \<Longrightarrow> fst pl = fst x"
  by (cases x) (auto simp: table_plan_def Let_def split: if_splits option.splits)

lemma list_all2_member: "list_all2 P xs ys \<Longrightarrow> x \<in> set xs \<Longrightarrow> \<exists>y\<in>set ys. P x y"
  by (induction rule: list_all2_induct) auto

lemma mem_map_filter_id: "y \<in> set (List.map_filter (\<lambda>x. x) ys) \<longleftrightarrow> Some y \<in> set ys"
proof (induction ys)
  case (Cons x ys)
  then show ?case by (cases x) (simp_all add: List.map_filter_simps)
qed (simp add: List.map_filter_simps)

lemma store_plans_Inr:
  assumes "store_plans ar s p e meta = Inr plans" and "bt_wf (st_tables s)"
  shows "distinct (map fst plans)"
    and "bt_get (st_tables s) n = Some t \<Longrightarrow> table_plan ar s p e meta (n, t) = Inr None \<Longrightarrow> \<forall>pl\<in>set plans. fst pl \<noteq> n"
    and "bt_get (st_tables s) n = Some t \<Longrightarrow> table_plan ar s p e meta (n, t) = Inr (Some pl) \<Longrightarrow> pl \<in> set plans"
    and "bt_get (st_tables s) n = Some t \<Longrightarrow> \<exists>x. table_plan ar s p e meta (n, t) = Inr x"
proof -
  obtain ys where ys: "collect (map (table_plan ar s p e meta) (st_tables s)) = Inr ys" "plans = List.map_filter (\<lambda>x. x) ys"
    using assms(1) by (auto simp: store_plans_def)
  note all2 = collect_map_Inr [OF ys(1)]
  have names: "distinct (map fst plans)"
    unfolding ys(2) using assms(2) map_filter_names [OF all2 table_plan_name [of ar s p e meta]]
    by (simp add: bt_wf_def)
  show "distinct (map fst plans)" by (rule names)
  have image: "set plans = {pl. Inr (Some pl) \<in> table_plan ar s p e meta ` set (st_tables s)}"
  proof -
    have "Some pl \<in> set ys \<longleftrightarrow> Inr (Some pl) \<in> table_plan ar s p e meta ` set (st_tables s)" for pl
      using all2 by (induction rule: list_all2_induct) auto
    then show ?thesis unfolding ys(2) set_eq_iff mem_map_filter_id by simp
  qed
  assume get: "bt_get (st_tables s) n = Some t"
  then have mem: "(n, t) \<in> set (st_tables s)" by (simp add: bt_get_set)
  show "\<exists>x. table_plan ar s p e meta (n, t) = Inr x"
    using list_all2_member [OF all2 mem] by blast
  show "table_plan ar s p e meta (n, t) = Inr (Some pl) \<Longrightarrow> pl \<in> set plans"
    unfolding image using mem by force
  show "\<forall>pl\<in>set plans. fst pl \<noteq> n" if none: "table_plan ar s p e meta (n, t) = Inr None"
  proof
    fix pl assume "pl \<in> set plans"
    then obtain x where x: "x \<in> set (st_tables s)" "table_plan ar s p e meta x = Inr (Some pl)"
      unfolding image by force
    show "fst pl \<noteq> n"
    proof
      assume "fst pl = n"
      then have "fst x = n" using table_plan_name [OF x(2)] by simp
      then have "bt_get (st_tables s) n = Some (snd x)"
        using x(1) bt_get_in_set [OF assms(2), of n "snd x"] by (metis prod.collapse)
      then have "x = (n, t)" using get \<open>fst x = n\<close> by (metis option.inject prod.collapse)
      with x(2) none show False by simp
    qed
  qed
qed

lemma finish_generation_other:
  "bt_get (st_names s) (p, path) \<noteq> Some n \<Longrightarrow>
   bt_get (st_tables (finish_generation p (path, g) s)) n = bt_get (st_tables s) n"
  by (auto simp: finish_generation_def store_named_def btree_simps split: option.splits if_splits)

lemma fold_finish_other:
  "\<forall>(path, g)\<in>set pgs. bt_get (st_names s) (p, path) \<noteq> Some n \<Longrightarrow>
   bt_get (st_tables (fold (finish_generation p) pgs s)) n = bt_get (st_tables s) n"
  by (induction pgs arbitrary: s) (auto simp: finish_generation_other)

lemma fold_drop_other:
  "\<forall>d\<in>set ds. dt_name d \<noteq> n \<Longrightarrow> bt_get (st_tables (fold drop_table ds s)) n = bt_get (st_tables s) n"
  by (induction ds arbitrary: s) (auto simp: drop_table_def btree_simps)

lemma table_plan_append:
  assumes "mt_merge t = None" and "\<forall>c\<in>set (cm_child_tables meta). ct_table c \<noteq> n"
    and "table_plan ar s p e meta (n, t) = Inr x"
  shows "x = (let staged = concat (map snd (staged_in t p e (cm_segments meta)))
    in if staged = [] then None else Some (n, staged, None))"
proof -
  have "find (\<lambda>child. ct_table child = n) (cm_child_tables meta) = None"
    using assms(2) by (simp add: find_None_iff)
  then show ?thesis
    using assms(1,3) by (auto simp: table_plan_def listed_child_def Let_def split: if_splits)
qed

text \<open>What a commit publishes to a table that appends.\<close>

definition committed_batches :: "'b mem_table \<Rightarrow> pipeline_id \<Rightarrow> epoch \<Rightarrow> commit_meta \<Rightarrow> 'b staged" where
  "committed_batches t p e meta = concat (map snd (staged_in t p e (cm_segments meta)))"

definition published_to :: "'b mem_table \<Rightarrow> 'b staged \<Rightarrow> 'b mem_table \<Rightarrow> bool" where
  "published_to t batches t' \<longleftrightarrow>
     mt_published t' = mt_published t @ map snd (filter (\<lambda>(g, _). g = None) batches) \<and>
     (\<forall>g. bt_default [] (mt_generations t') g
            = bt_default [] (mt_generations t) g @ map snd (filter (\<lambda>(g', _). g' = Some g) batches))"

lemma store_publish_append:
  assumes pub: "store_publish ar p e meta s = Inr (s', counts)" and wf: "bt_wf (st_tables s)"
    and get: "bt_get (st_tables s) n = Some t" and "mt_merge t = None"
    and child: "\<forall>c\<in>set (cm_child_tables meta). ct_table c \<noteq> n"
    and finish: "\<forall>(path, g)\<in>set (cm_finish_generations meta). bt_get (st_names s) (p, path) \<noteq> Some n"
    and drop: "\<forall>d\<in>set (cm_drop_tables meta). dt_name d \<noteq> n"
  shows "\<exists>t'. bt_get (st_tables s') n = Some t' \<and> published_to t (committed_batches t p e meta) t' \<and>
    mt_staged t' = filter (\<lambda>(k, _). \<not> of_session p e (cm_segments meta) k \<and> \<not> of_session p e (cm_abandoned meta) k)
      (mt_staged t)"
proof -
  obtain plans where plans: "store_plans ar s p e meta = Inr plans"
    and s': "s' = fold drop_table (cm_drop_tables meta) (fold (finish_generation p) (cm_finish_generations meta)
      (s\<lparr>st_tables := fold apply_plan plans (bt_map (unstage p e meta) (st_tables s))\<rparr>))"
    using pub by (auto simp: store_publish_def Let_def)
  let ?tabs = "bt_map (unstage p e meta) (st_tables s)"
  have tab: "bt_get ?tabs n = Some (unstage p e meta t)" using get by (simp add: btree_simps)
  have "bt_get (st_tables s') n = bt_get (fold apply_plan plans ?tabs) n"
    unfolding s' using finish drop by (simp add: fold_drop_other fold_finish_other)
  moreover obtain x where x: "table_plan ar s p e meta (n, t) = Inr x"
    using store_plans_Inr(4) [OF plans wf get] by blast
  note plan = table_plan_append [OF assms(4) child x, folded committed_batches_def, unfolded Let_def]
  have "bt_get (fold apply_plan plans ?tabs) n
      = Some (fold push_batch (committed_batches t p e meta) (unstage p e meta t))"
  proof (cases "committed_batches t p e meta = []")
    case True
    then have "\<forall>pl\<in>set plans. fst pl \<noteq> n" using store_plans_Inr(2) [OF plans wf get] x plan by simp
    with True tab show ?thesis by (simp add: fold_apply_plan_other)
  next
    case False
    then have "(n, committed_batches t p e meta, None) \<in> set plans"
      using store_plans_Inr(3) [OF plans wf get] x plan by simp
    from fold_apply_plan_one [OF store_plans_Inr(1) [OF plans wf] this, of ?tabs] tab show ?thesis
      by (simp add: plan_table_def)
  qed
  ultimately show ?thesis
    by (simp add: published_to_def fold_push_batch unstage_staged)
qed

subsection \<open>What a commit may not touch\<close>

lemma owned_all_Inr: "owned_all s p names = Inr () \<longleftrightarrow> (\<forall>n\<in>set names. \<exists>t. store_owned s p n = Inr t)"
  by (induction names) auto

lemma store_owned_Inr:
  "store_owned s p n = Inr t \<longleftrightarrow> bt_get (st_tables s) n = Some t \<and> mt_owner t = Some p"
  by (auto simp: store_owned_def split: option.splits if_splits)

lemma store_publish_foreign:
  assumes pub: "store_publish ar p e meta s = Inr (s', counts)" and wf: "bt_wf (st_tables s)"
    and get: "bt_get (st_tables s) n = Some t" and foreign: "mt_owner t \<noteq> Some p"
  shows "bt_get (st_tables s') n = Some (unstage p e meta t)"
proof -
  obtain plans where owns: "store_owns s p meta = Inr ()" and plans: "store_plans ar s p e meta = Inr plans"
    and s': "s' = fold drop_table (cm_drop_tables meta) (fold (finish_generation p) (cm_finish_generations meta)
      (s\<lparr>st_tables := fold apply_plan plans (bt_map (unstage p e meta) (st_tables s))\<rparr>))"
    using pub by (auto simp: store_publish_def Let_def)
  have no: "\<nexists>u. store_owned s p n = Inr u" using get foreign by (auto simp: store_owned_Inr)
  have owned: "\<forall>m\<in>set (List.map_filter (\<lambda>(path, _). store_named s p path) (cm_finish_generations meta) @
      filter (\<lambda>name. bt_get (st_tables s) name \<noteq> None) (map dt_name (cm_drop_tables meta))). m \<noteq> n"
    using owns no unfolding store_owns_def Let_def owned_all_Inr by blast
  have finish: "\<forall>(path, g)\<in>set (cm_finish_generations meta). bt_get (st_names s) (p, path) \<noteq> Some n"
  proof clarify
    fix path g assume "(path, g) \<in> set (cm_finish_generations meta)" "bt_get (st_names s) (p, path) = Some n"
    moreover from this have "store_named s p path = Some n" using get by (simp add: store_named_def)
    ultimately have "n \<in> set (List.map_filter (\<lambda>(path, _). store_named s p path) (cm_finish_generations meta))"
      by (force simp: List.map_filter_def)
    with owned show False by auto
  qed
  have drop: "\<forall>d\<in>set (cm_drop_tables meta). dt_name d \<noteq> n" using owned get by auto
  have "\<forall>pl\<in>set plans. fst pl \<noteq> n"
  proof -
    obtain x where x: "table_plan ar s p e meta (n, t) = Inr x"
      using store_plans_Inr(4) [OF plans wf get] by blast
    then have "x = None" using no by (auto simp: table_plan_def Let_def split: if_splits)
    with x show ?thesis using store_plans_Inr(2) [OF plans wf get] by simp
  qed
  with finish drop get show ?thesis
    unfolding s' by (simp add: fold_drop_other fold_finish_other fold_apply_plan_other btree_simps)
qed


subsection \<open>Properties\<close>



text \<open>C2: what a commit publishes to a table that appends. Where a commit applies, a table of the store
  with no merge key, that the commit neither lists as a child, nor swaps, nor drops, has after it its
  batches followed by those staged in the commit's segments by this session, each once, in staging
  order, each in the generation it was written for; the batches of those segments and of the abandoned
  ones are no longer staged, and no other staged batch is lost.\<close>

theorem commit_publishes:
  assumes "mem_commit ar now p e meta s = (s', Inr r)"
    and "pl_landed (store_pipeline s p) \<noteq> Some r"
    and "bt_wf (st_tables s)" and "bt_get (st_tables s) n = Some t" and "mt_merge t = None"
    and "\<forall>c\<in>set (cm_child_tables meta). ct_table c \<noteq> n"
    and "\<forall>(path, g)\<in>set (cm_finish_generations meta). bt_get (st_names s) (p, path) \<noteq> Some n"
    and "\<forall>d\<in>set (cm_drop_tables meta). dt_name d \<noteq> n"
  shows "\<exists>t'. bt_get (st_tables s') n = Some t' \<and> published_to t (committed_batches t p e meta) t' \<and>
    mt_staged t' = filter (\<lambda>(k, _). \<not> of_session p e (cm_segments meta) k \<and> \<not> of_session p e (cm_abandoned meta) k)
      (mt_staged t)"
  using assms(1)
proof (cases rule: mem_commit_cases)
  case (applied r s0 s1 rows bytes)
  have "st_tables s0 = st_tables s" "st_names s0 = st_names s" using applied(4) by (simp_all add: store_same_def)
  then show ?thesis
    using store_publish_append [OF applied(5), of n t] assms(3-8) applied(7) by simp
qed (use assms(2) in auto)

text \<open>C4: a commit cannot touch another pipeline's table: a table that is not owned by the committing
  pipeline keeps its rows, tombstones, generations, schema, owner and every batch another pipeline staged,
  whatever the commit names.\<close>

theorem commit_isolated:
  assumes "mem_commit ar now p e meta s = (s', res)" and "bt_wf (st_tables s)"
    and "bt_get (st_tables s) n = Some t" and "mt_owner t \<noteq> Some p"
  shows "\<exists>t'. bt_get (st_tables s') n = Some t' \<and> mt_published t' = mt_published t \<and>
    mt_tombstones t' = mt_tombstones t \<and> mt_generations t' = mt_generations t \<and>
    mt_schema t' = mt_schema t \<and> mt_owner t' = mt_owner t \<and> mt_merge t' = mt_merge t \<and>
    filter (\<lambda>(k, _). fst k \<noteq> p) (mt_staged t') = filter (\<lambda>(k, _). fst k \<noteq> p) (mt_staged t)"
  using assms(1)
proof (cases rule: mem_commit_cases)
  case (applied r s0 s1 rows bytes)
  have "st_tables s0 = st_tables s" using applied(4) by (simp add: store_same_def)
  then have "bt_get (st_tables s') n = Some (unstage p e meta t)"
    using store_publish_foreign [OF applied(5), of n t] assms(2-4) applied(7) by simp
  moreover have "filter (\<lambda>(k, _). fst k \<noteq> p) (mt_staged (unstage p e meta t)) = filter (\<lambda>(k, _). fst k \<noteq> p) (mt_staged t)"
    unfolding unstage_staged by (induction "mt_staged t") (auto simp: of_session_def intro!: filter_cong)
  ultimately show ?thesis by simp
qed (use assms(3) in \<open>auto simp: store_same_def\<close>)


text \<open>C6: the state a session opens with is the state of every commit that landed. Where the records
  rebuild into a state and a commit's changes apply to it, the session opened after the commit reads
  records that rebuild into the changed state, part by part.\<close>

theorem commit_state_refines:
  assumes "json_keys js" and "records_wf (pl_state (store_pipeline s p))"
    and "from_records js (map snd (pl_state (store_pipeline s p))) = Inr st"
    and "state_apply_all js st (cm_state_delta meta) = Inr st'"
    and "mem_commit ar now p e meta s = (s', Inr r)" and "pl_landed (store_pipeline s p) \<noteq> Some r"
    and "mem_open p s' = (s'', Inr (e', landed, records))"
  shows "landed = Some r \<and> (\<exists>st''. from_records js records = Inr st'' \<and> (\<forall>k. state_part st'' k = state_part st' k))"
  using assms(5)
proof (cases rule: mem_commit_cases)
  case (applied r' s0 s1 rows bytes)
  let ?recs = "foldl records_apply (pl_state (store_pipeline s p)) (cm_state_delta meta)"
  have "records = map snd ?recs" "landed = Some r"
    using assms(7) applied by (auto elim!: mem_open_cases simp: pipeline_committed_def)
  then show ?thesis
    using state_rebuilt [OF assms(1-4)] by auto
qed (use assms(6) in auto)


subsection \<open>The properties at work\<close>

text \<open>A batch as a list of row numbers, with kernels that append.\<close>

definition plain_arrow :: "(nat list, field list) arrow" where
  "plain_arrow =
     \<lparr>ar_rows = length, ar_size = (\<lambda>b. 8 * length b), ar_schema = (\<lambda>_. []), ar_to_arrow = (\<lambda>fs. fs),
      ar_merge = (\<lambda>_ rows _ staged _. Inr (rows @ staged, [])),
      ar_merge_children = (\<lambda>_ rows staged _ _ _. Inr (rows @ staged)),
      ar_admitted = (\<lambda>_ _ _. Inr ()), ar_holds = (\<lambda>_ _. Inr ()), ar_tombstone_schema = (\<lambda>s _. Inr s)\<rparr>"

text \<open>A store with a table of each of two pipelines, and a commit of the first one's session.\<close>

definition demo_table :: "nat list mem_table" where
  "demo_table = mem_table_default\<lparr>mt_owner := Some ''p'', mt_published := [[1]],
     mt_staged := [((''p'', 1, 0), [(None, [7, 8])]), ((''p'', 1, 2), [(None, [9])])]\<rparr>"

definition demo_other :: "nat list mem_table" where
  "demo_other = mem_table_default\<lparr>mt_owner := Some ''q'', mt_published := [[2]],
     mt_staged := [((''q'', 4, 0), [(None, [3])])]\<rparr>"

definition demo_store :: "nat list store" where
  "demo_store =
     \<lparr>st_pipelines = [(''p'', \<lparr>pl_epoch = 1, pl_state = [], pl_landed = None\<rparr>)],
      st_tables = [(''t'', demo_table), (''u'', demo_other)], st_names = [((''p'', [''t'']), ''t''), ((''q'', [''u'']), ''u'')]\<rparr>"

definition demo_meta :: "epoch \<Rightarrow> commit_meta" where
  "demo_meta e =
     \<lparr>cm_key = CommitKey e 1, cm_after = None, cm_segments = [seg_range 0 1], cm_abandoned = [],
      cm_state_delta = [Put (to_record plain_json (EpochEntry 3))], cm_finish_generations = [], cm_child_tables = [],
      cm_drop_tables = []\<rparr>"

definition demo_receipt :: receipt where
  "demo_receipt = \<lparr>rc_key = CommitKey 1 1, rc_committed_at = 5, rc_rows = 2, rc_bytes = 16\<rparr>"

abbreviation demo_commit :: "nat list store \<times> (conn_error + receipt)" where
  "demo_commit \<equiv> mem_commit plain_arrow 5 ''p'' 1 (demo_meta 1) demo_store"

lemma demo_commit_receipt: "demo_commit = (fst demo_commit, Inr demo_receipt)"
proof -
  have "snd demo_commit = Inr demo_receipt" by code_simp
  then show ?thesis by (metis prod.collapse)
qed



theorem commit_publishes_witness:
  "\<exists>t'. bt_get (st_tables (fst demo_commit)) ''t'' = Some t' \<and> mt_published t' = [[1], [7, 8]] \<and>
     map fst (mt_staged t') = [(''p'', 1, 2)]"
proof -
  have "\<exists>t'. bt_get (st_tables (fst demo_commit)) ''t'' = Some t' \<and>
    published_to demo_table (committed_batches demo_table ''p'' 1 (demo_meta 1)) t' \<and>
    mt_staged t' = filter (\<lambda>(k, _). \<not> of_session ''p'' 1 (cm_segments (demo_meta 1)) k \<and>
      \<not> of_session ''p'' 1 (cm_abandoned (demo_meta 1)) k) (mt_staged demo_table)"
  proof (rule commit_publishes [OF demo_commit_receipt])
    show "pl_landed (store_pipeline demo_store ''p'') \<noteq> Some demo_receipt" by code_simp
    show "bt_wf (st_tables demo_store)" by (simp add: demo_store_def bt_wf_def)
    show "bt_get (st_tables demo_store) ''t'' = Some demo_table" by (simp add: demo_store_def)
    show "mt_merge demo_table = None" by (simp add: demo_table_def mem_table_default_def)
  qed (simp_all add: demo_meta_def)
  moreover have "committed_batches demo_table ''p'' 1 (demo_meta 1) = [(None, [7, 8])]" by code_simp
  moreover have "mt_published demo_table = [[1]]" by (simp add: demo_table_def)
  moreover have "map fst (filter (\<lambda>(k, _). \<not> of_session ''p'' 1 (cm_segments (demo_meta 1)) k \<and>
      \<not> of_session ''p'' 1 (cm_abandoned (demo_meta 1)) k) (mt_staged demo_table)) = [(''p'', 1, 2)]"
    by code_simp
  ultimately show ?thesis by (auto simp: published_to_def)
qed

theorem commit_isolated_witness:
  "\<exists>t'. bt_get (st_tables (fst demo_commit)) ''u'' = Some t' \<and> mt_published t' = [[2]] \<and> mt_owner t' = Some ''q''"
proof -
  have wf: "bt_wf (st_tables demo_store)" by (simp add: demo_store_def bt_wf_def)
  have get: "bt_get (st_tables demo_store) ''u'' = Some demo_other" by (simp add: demo_store_def)
  have own: "mt_owner demo_other \<noteq> Some ''p''" by (simp add: demo_other_def)
  from commit_isolated [OF demo_commit_receipt wf get own] show ?thesis by (auto simp: demo_other_def)
qed


theorem commit_state_refines_witness:
  "\<exists>st. from_records plain_json (map snd (pl_state (store_pipeline (fst demo_commit) ''p''))) = Inr st \<and>
     (\<forall>k. state_part st k = state_part (pipeline_default\<lparr>ps_epoch := 3\<rparr>) k)"
proof -
  have "snd (mem_open ''p'' (fst demo_commit))
      = Inr (2, Some demo_receipt, map snd (pl_state (store_pipeline (fst demo_commit) ''p'')))" by code_simp
  then have opened: "mem_open ''p'' (fst demo_commit) = (fst (mem_open ''p'' (fst demo_commit)),
      Inr (2, Some demo_receipt, map snd (pl_state (store_pipeline (fst demo_commit) ''p''))))"
    by (metis prod.collapse)
  have empty: "pl_state (store_pipeline demo_store ''p'') = []" by code_simp
  have landed: "pl_landed (store_pipeline demo_store ''p'') \<noteq> Some demo_receipt" by code_simp
  have delta: "state_apply_all plain_json pipeline_default (cm_state_delta (demo_meta 1)) = Inr (pipeline_default\<lparr>ps_epoch := 3\<rparr>)"
    by (simp add: demo_meta_def state_apply_def from_record_def to_record_def state_key_parse_def state_key_encode_def
        plain_json_def plain_read_key_def pipeline_default_def bt_modify_def)
  show ?thesis
    using commit_state_refines [OF plain_json_keys _ _ delta demo_commit_receipt landed opened]
    by (simp add: empty from_records_def records_wf_def)
qed

end
