(* ===== verification/Owners.thy ===== *)
theory Owners
  imports Publish
begin

text \<open>
  The invariant of the memory destination's store and that every operation keeps it: the maps are in
  order, every table has an owner, a registered name names a table its pipeline owns, and the state
  records stand under their own keys. The operations are the steps of a relation over stores, so the
  invariant holds of every store the destination can be in.
\<close>

subsection \<open>The invariant\<close>

definition owners :: "'b store \<Rightarrow> string \<Rightarrow> pipeline_id option option" where
  "owners s n = map_option mt_owner (bt_get (st_tables s) n)"

definition names_owned :: "'b store \<Rightarrow> bool" where
  "names_owned s \<longleftrightarrow> (\<forall>p path n. bt_get (st_names s) (p, path) = Some n \<longrightarrow> owners s n = Some (Some p))"

definition store_inv :: "'b store \<Rightarrow> bool" where
  "store_inv s \<longleftrightarrow> bt_wf (st_pipelines s) \<and> bt_wf (st_tables s) \<and> bt_wf (st_names s) \<and>
     (\<forall>n. owners s n \<noteq> Some None) \<and> names_owned s \<and> (\<forall>p. records_wf (pl_state (store_pipeline s p)))"

lemma store_inv_default: "store_inv store_default"
  by (simp add: store_inv_def store_default_def names_owned_def owners_def store_pipeline_def bt_default_def
      pipeline_store_default_def records_wf_def)

lemma store_inv_pipelines:
  assumes "store_inv s" and "st_tables s' = st_tables s" and "st_names s' = st_names s"
    and "bt_wf (st_pipelines s')" and "\<forall>q. records_wf (pl_state (store_pipeline s' q))"
  shows "store_inv s'"
  using assms by (simp add: store_inv_def names_owned_def owners_def)

lemma store_inv_tables:
  assumes "store_inv s" and "st_pipelines s' = st_pipelines s" and "st_names s' = st_names s"
    and "bt_wf (st_tables s')" and "\<forall>n. owners s' n = owners s n"
  shows "store_inv s'"
  using assms by (simp add: store_inv_def names_owned_def store_pipeline_def)

subsection \<open>Publishing keeps owners\<close>

lemma plan_table_owner [simp]: "mt_owner (plan_table pl t) = mt_owner t"
  by (cases pl) (auto simp: plan_table_def fold_push_batch split: option.splits)

lemma fold_apply_plan_wf: "bt_wf tables \<Longrightarrow> bt_wf (fold apply_plan plans tables)"
  by (induction plans arbitrary: tables) (simp_all add: apply_plan_def)

lemma fold_apply_plan_owner:
  "\<forall>pl\<in>set plans. bt_get tables (fst pl) \<noteq> None \<Longrightarrow>
   map_option mt_owner (bt_get (fold apply_plan plans tables) n) = map_option mt_owner (bt_get tables n)"
proof (induction plans arbitrary: tables)
  case (Cons pl plans)
  have step: "map_option mt_owner (bt_get (apply_plan pl tables) m) = map_option mt_owner (bt_get tables m)" for m
    using Cons.prems by (auto simp: apply_plan_def btree_simps bt_default_def)
  have "\<forall>q\<in>set plans. bt_get (apply_plan pl tables) (fst q) \<noteq> None"
    using Cons.prems by (simp add: apply_plan_def btree_simps)
  from Cons.IH [OF this] step show ?case by simp
qed simp

lemma finish_generation_owners [simp]: "owners (finish_generation p pg s) n = owners s n"
  by (cases pg) (auto simp: owners_def finish_generation_def store_named_def btree_simps bt_default_def
      split: option.splits if_splits)

lemma fold_finish_owners [simp]: "owners (fold (finish_generation p) pgs s) n = owners s n"
  by (induction pgs arbitrary: s) simp_all

lemma finish_generation_wf: "bt_wf (st_tables s) \<Longrightarrow> bt_wf (st_tables (finish_generation p pg s))"
  by (cases pg) (auto simp: finish_generation_def split: option.splits)

lemma fold_finish_wf: "bt_wf (st_tables s) \<Longrightarrow> bt_wf (st_tables (fold (finish_generation p) pgs s))"
  by (induction pgs arbitrary: s) (simp_all add: finish_generation_wf)

lemma map_of_filter_value:
  "distinct (map fst m) \<Longrightarrow> map_of (filter (\<lambda>(_, v). P v) m) k = (case map_of m k of Some v \<Rightarrow> if P v then Some v else None | None \<Rightarrow> None)"
proof (induction m)
  case (Cons x m)
  obtain a b where x: "x = (a, b)" by (cases x)
  have "a \<notin> fst ` set m" using Cons.prems x by simp
  then have "map_of m a = None" by (simp add: map_of_eq_None_iff)
  with Cons x show ?case by (cases "map_of m k") auto
qed simp

lemma drop_table_inv: "store_inv s \<Longrightarrow> store_inv (drop_table d s)"
proof -
  assume inv: "store_inv s"
  then have "distinct (map fst (st_names s))" using bt_wf_distinct unfolding store_inv_def by blast
  then have names: "bt_get (st_names (drop_table d s)) k
      = (case bt_get (st_names s) k of Some v \<Rightarrow> if v \<noteq> dt_name d then Some v else None | None \<Rightarrow> None)" for k
    using map_of_filter_value [of "st_names s" "\<lambda>v. v \<noteq> dt_name d" k]
    by (simp add: drop_table_def)
  have own: "owners (drop_table d s) n = (if n = dt_name d then None else owners s n)" for n
    by (simp add: owners_def drop_table_def btree_simps)
  have "names_owned (drop_table d s)"
    using inv unfolding names_owned_def names own store_inv_def
    by (auto split: option.splits if_splits)
  with inv show ?thesis
    unfolding store_inv_def own by (simp add: drop_table_def bt_wf_filter store_pipeline_def)
qed

lemma fold_drop_inv: "store_inv s \<Longrightarrow> store_inv (fold drop_table ds s)"
  by (induction ds arbitrary: s) (simp_all add: drop_table_inv)

lemma plan_name_present:
  assumes "store_plans ar s p e meta = Inr plans" and "pl \<in> set plans"
  shows "bt_get (st_tables s) (fst pl) \<noteq> None"
proof -
  obtain ys where ys: "collect (map (table_plan ar s p e meta) (st_tables s)) = Inr ys"
    "plans = List.map_filter (\<lambda>x. x) ys"
    using assms(1) by (auto simp: store_plans_def)
  have "list_all2 (\<lambda>y x. table_plan ar s p e meta x = Inr y) ys (st_tables s)"
    using collect_map_Inr [OF ys(1)] by (simp add: list_all2_conv_all_nth)
  moreover have "Some pl \<in> set ys" using assms(2) unfolding ys(2) mem_map_filter_id .
  ultimately obtain x where x: "x \<in> set (st_tables s)" "table_plan ar s p e meta x = Inr (Some pl)"
    by (rule list_all2_member [THEN bexE])
  then have "fst pl \<in> fst ` set (st_tables s)" using table_plan_name [OF x(2)] by simp
  then show ?thesis by (simp add: map_of_eq_None_iff)
qed

lemma store_publish_inv:
  assumes "store_inv s" and "store_publish ar p e meta s = Inr (s', counts)"
  shows "store_inv s'"
proof -
  obtain plans where plans: "store_plans ar s p e meta = Inr plans"
    and s': "s' = fold drop_table (cm_drop_tables meta) (fold (finish_generation p) (cm_finish_generations meta)
      (s\<lparr>st_tables := fold apply_plan plans (bt_map (unstage p e meta) (st_tables s))\<rparr>))"
    using assms(2) by (auto simp: store_publish_def Let_def)
  let ?s = "s\<lparr>st_tables := fold apply_plan plans (bt_map (unstage p e meta) (st_tables s))\<rparr>"
  have "\<forall>pl\<in>set plans. bt_get (bt_map (unstage p e meta) (st_tables s)) (fst pl) \<noteq> None"
    using plan_name_present [OF plans] by (simp add: btree_simps)
  then have "owners ?s n = owners s n" for n
    by (simp add: owners_def fold_apply_plan_owner btree_simps option.map_comp o_def)
  moreover have wf: "bt_wf (st_tables ?s)" using assms(1) by (simp add: store_inv_def fold_apply_plan_wf)
  ultimately have "store_inv (fold (finish_generation p) (cm_finish_generations meta) ?s)"
    by (intro store_inv_tables [OF assms(1)]) (simp_all add: fold_finish_wf)
  then show ?thesis unfolding s' by (rule fold_drop_inv)
qed


subsection \<open>Every operation keeps it\<close>

lemma fold_records_wf: "records_wf recs \<Longrightarrow> records_wf (foldl records_apply recs cs)"
  by (induction cs arbitrary: recs) (simp_all add: records_apply_wf)

lemma mem_open_inv:
  assumes "store_inv s"
  shows "store_inv (fst (mem_open p s))"
proof (rule store_inv_pipelines [OF assms])
  show "bt_wf (st_pipelines (fst (mem_open p s)))"
    using assms by (simp add: mem_open_def Let_def store_inv_def split: option.splits)
  show "\<forall>q. records_wf (pl_state (store_pipeline (fst (mem_open p s)) q))"
    using assms by (simp add: mem_open_def Let_def store_inv_def store_pipeline_entry split: option.splits)
qed (simp_all add: mem_open_def Let_def split: option.splits)

lemma mem_commit_inv:
  assumes "store_inv s"
  shows "store_inv (fst (mem_commit ar now p e meta s))"
proof -
  define s0 where "s0 = s\<lparr>st_pipelines := bt_entry p pipeline_store_default id (st_pipelines s)\<rparr>"
  have s0: "store_inv s0"
    using assms unfolding s0_def
    by (intro store_inv_pipelines [OF assms]) (simp_all add: store_inv_def store_pipeline_entry)
  have publish: "store_inv (s1\<lparr>st_pipelines := bt_entry p pipeline_store_default (pipeline_committed meta r) (st_pipelines s1)\<rparr>)"
    if "store_publish ar p e meta s0 = Inr (s1, counts)" for s1 counts r
  proof (rule store_inv_pipelines [OF store_publish_inv [OF s0 that]])
    note inv = store_publish_inv [OF s0 that, unfolded store_inv_def]
    then show "bt_wf (st_pipelines (s1\<lparr>st_pipelines := bt_entry p pipeline_store_default (pipeline_committed meta r) (st_pipelines s1)\<rparr>))"
      by simp
    show "\<forall>q. records_wf (pl_state (store_pipeline (s1\<lparr>st_pipelines := bt_entry p pipeline_store_default (pipeline_committed meta r) (st_pipelines s1)\<rparr>) q))"
      using inv by (simp add: store_pipeline_entry pipeline_committed_def fold_records_wf)
  qed simp_all
  show ?thesis
    using s0 publish unfolding mem_commit_def Let_def s0_def [symmetric]
    by (auto split: sum.splits option.splits prod.splits)
qed

lemma mem_discard_owners: "owners (mem_discard_staged p e s) n = owners s n"
  by (cases "bt_get (st_tables s) n") (simp_all add: mem_discard_staged_def owners_def btree_simps)

lemma mem_discard_inv:
  assumes "store_inv s"
  shows "store_inv (mem_discard_staged p e s)"
  using assms by (intro store_inv_tables [OF assms])
    (simp_all add: mem_discard_owners, simp_all add: mem_discard_staged_def store_inv_def)

lemma store_claim_inv:
  assumes "store_inv s" and "store_claim p e ref s = Inr s'"
  shows "store_inv s' \<and> owners s' (tr_name ref) = Some (Some p)"
proof -
  let ?old = "bt_default mem_table_default (st_tables s) (tr_name ref)"
  define t where "t = ?old\<lparr>mt_owner := Some p, mt_merge := tr_merge ref\<rparr>"
  have s': "s' = s\<lparr>st_tables := bt_insert (tr_name ref) t (st_tables s),
      st_names := bt_insert (p, tr_path ref) (tr_name ref) (st_names s)\<rparr>"
    and mine: "mt_owner ?old = None \<or> mt_owner ?old = Some p"
    using assms(2) by (auto simp: store_claim_def Let_def t_def split: if_splits option.splits)
  have own: "owners s' n = (if n = tr_name ref then Some (Some p) else owners s n)" for n
    by (simp add: s' owners_def btree_simps t_def)
  have kept: "owners s' n = Some (Some q)" if "owners s n = Some (Some q)" for n q
    using that mine own by (auto simp: owners_def bt_default_def split: if_splits)
  have "names_owned s'"
    using assms(1) kept own by (auto simp: names_owned_def store_inv_def s' btree_simps split: if_splits)
  then show ?thesis
    using assms(1) own by (simp add: store_inv_def s' store_pipeline_def)
qed

lemma table_change_owner: "table_change_apply ar k t c = Inr t' \<Longrightarrow> mt_owner t' = mt_owner t"
  by (auto simp: table_change_apply_def Let_def split: sum.splits)

lemma store_inv_put:
  assumes "store_inv s" and "bt_get (st_tables s) n = Some t" and "mt_owner t' = mt_owner t"
  shows "store_inv (s\<lparr>st_tables := bt_insert n t' (st_tables s)\<rparr>)"
proof (rule store_inv_tables [OF assms(1)])
  show "bt_wf (st_tables (s\<lparr>st_tables := bt_insert n t' (st_tables s)\<rparr>))"
    using assms(1) by (simp add: store_inv_def)
  show "\<forall>m. owners (s\<lparr>st_tables := bt_insert n t' (st_tables s)\<rparr>) m = owners s m"
    using assms(2,3) by (simp add: owners_def btree_simps)
qed simp_all

lemma mem_apply_schema_inv:
  assumes "store_inv s"
  shows "store_inv (fst (mem_apply_schema ar p e ref change s))"
proof (cases "store_claim p e ref s")
  case (Inl err)
  then show ?thesis using assms by (simp add: mem_apply_schema_def)
next
  case (Inr s')
  note inv = store_claim_inv [OF assms Inr]
  then obtain t where t: "bt_get (st_tables s') (tr_name ref) = Some t" "mt_owner t = Some p"
    by (auto simp: owners_def)
  show ?thesis
  proof (cases "table_change_apply ar (tr_merge ref) t change")
    case (Inl err)
    then show ?thesis using inv Inr t by (simp add: mem_apply_schema_def bt_default_def)
  next
    case applied: (Inr t')
    have "store_inv (s'\<lparr>st_tables := bt_insert (tr_name ref) t' (st_tables s')\<rparr>)"
      by (rule store_inv_put [OF conjunct1 [OF inv] t(1) table_change_owner [OF applied]])
    then show ?thesis using applied Inr t by (simp add: mem_apply_schema_def bt_default_def)
  qed
qed

lemma mem_writer_open_inv:
  assumes "store_inv s"
  shows "store_inv (fst (mem_writer_open p e ref s))"
  using assms store_claim_inv [OF assms, of p e ref]
  by (auto simp: mem_writer_open_def split: sum.splits option.splits)

lemma stage_batch_owner: "mt_owner (fold (stage_batch w) bs t) = mt_owner t"
  by (induction bs arbitrary: t) (auto simp: stage_batch_def)

lemma mem_flush_inv:
  assumes "store_inv s"
  shows "store_inv (fst (mem_flush ar w s))"
proof -
  have "store_inv (s\<lparr>st_tables := bt_insert n (fold (stage_batch w) bs t) (st_tables s)\<rparr>)"
    if "store_owned s p n = Inr t" for n t p bs
    using that [unfolded store_owned_Inr]
    by (intro store_inv_put [OF assms, where t = t]) (simp_all add: stage_batch_owner)
  then show ?thesis
    using assms by (auto simp: mem_flush_def Let_def split: sum.splits)
qed

subsection \<open>The stores a destination can be in\<close>

inductive store_reachable :: "('b, 'sch) arrow \<Rightarrow> 'b store \<Rightarrow> bool" for ar where
  start: "store_reachable ar store_default"
| opened: "store_reachable ar s \<Longrightarrow> store_reachable ar (fst (mem_open p s))"
| discarded: "store_reachable ar s \<Longrightarrow> store_reachable ar (mem_discard_staged p e s)"
| changed: "store_reachable ar s \<Longrightarrow> store_reachable ar (fst (mem_apply_schema ar p e ref change s))"
| writer: "store_reachable ar s \<Longrightarrow> store_reachable ar (fst (mem_writer_open p e ref s))"
| flushed: "store_reachable ar s \<Longrightarrow> store_reachable ar (fst (mem_flush ar w s))"
| committed: "store_reachable ar s \<Longrightarrow> store_reachable ar (fst (mem_commit ar now p e meta s))"

lemma store_reachable_inv: "store_reachable ar s \<Longrightarrow> store_inv s"
  by (induction rule: store_reachable.induct)
    (simp_all only: store_inv_default mem_open_inv mem_discard_inv mem_apply_schema_inv mem_writer_open_inv
      mem_flush_inv mem_commit_inv)

subsection \<open>Properties\<close>

text \<open>C7: in every store the destination can reach, each table has an owner, each name a pipeline
  registered names a table that pipeline owns, the maps are in key order and each state record stands
  under its own key, whatever mix of opens, claims, schema changes, flushes, discards and commits of
  however many pipelines led there.\<close>

theorem store_reachable_owned:
  assumes "store_reachable ar s"
  shows "(\<forall>n t. bt_get (st_tables s) n = Some t \<longrightarrow> mt_owner t \<noteq> None) \<and>
    (\<forall>p path n. bt_get (st_names s) (p, path) = Some n \<longrightarrow>
       (\<exists>t. bt_get (st_tables s) n = Some t \<and> mt_owner t = Some p)) \<and>
    bt_wf (st_tables s) \<and> (\<forall>p. records_wf (pl_state (store_pipeline s p)))"
  using store_reachable_inv [OF assms]
  by (fastforce simp: store_inv_def names_owned_def owners_def)


definition demo_ref :: table_ref where
  "demo_ref = \<lparr>tr_path = [''t''], tr_name = ''t'', tr_version = 1, tr_generation = None, tr_merge = None\<rparr>"

theorem store_reachable_owned_witness:
  "\<exists>t. bt_get (st_tables (fst (mem_writer_open ''p'' 1 demo_ref (fst (mem_open ''p'' store_default))))) ''t'' = Some (t :: nat list mem_table)
     \<and> mt_owner t = Some ''p''"
proof -
  let ?s = "fst (mem_writer_open ''p'' 1 demo_ref (fst (mem_open ''p'' (store_default :: nat list store))))"
  have "store_reachable plain_arrow ?s" by (intro store_reachable.writer store_reachable.opened store_reachable.start)
  moreover have "bt_get (st_names ?s) (''p'', [''t'']) = Some ''t''" by code_simp
  ultimately show ?thesis using store_reachable_owned by blast
qed

end
