(* ===== verification/Limits.thy ===== *)
theory Limits
  imports Prelude
begin

text \<open>
  The limits each end of a connection enforces on what it receives
  (\<open>crates/rdlt-wire/src/limits.rs\<close>): the protocol's defaults and minima, the record of one end's
  limits and how a peer's are read, admitted and agreed, the bound of each class of message before
  and after it is decoded, and the typed refusals.

  A \<open>usize\<close> is 64 bits wide, so \<open>count\<close> and the conversions of a limit to a length saturate nowhere;
  they are written out all the same.
\<close>

subsection \<open>The protocol's constants\<close>

definition FRAME_BYTES :: nat where "FRAME_BYTES = 64 * 1024 * 1024"

definition BATCH_ROWS :: nat where "BATCH_ROWS = 1024 * 1024"

definition BATCH_VALUES :: nat where "BATCH_VALUES = 64 * BATCH_ROWS"

definition MIN_FRAME_BYTES :: nat where "MIN_FRAME_BYTES = 4 * 1024 * 1024"

definition MIN_BATCH_ROWS :: nat where "MIN_BATCH_ROWS = 1024"

definition MIN_BATCH_VALUES :: nat where "MIN_BATCH_VALUES = 1024 * 1024"

definition MIN_DICTIONARY_BYTES :: nat where "MIN_DICTIONARY_BYTES = 256 * 1024"

definition SCHEMA_COLUMNS :: nat where "SCHEMA_COLUMNS = 10000"

definition SCHEMA_BYTES :: nat where "SCHEMA_BYTES = 4 * 1024 * 1024"

definition DICTIONARY_FRAMES :: nat where "DICTIONARY_FRAMES = 1"

definition STAGED_FRAMES :: nat where "STAGED_FRAMES = 4"

definition JSON_PUSH_BYTES :: nat where "JSON_PUSH_BYTES = 64 * 1024 * 1024"

definition CURSOR_BYTES :: nat where "CURSOR_BYTES = 4 * 1024 * 1024"

definition EXCLUDED_BYTES :: nat where "EXCLUDED_BYTES = 256 * 1024"

definition CONFIG_BYTES :: nat where "CONFIG_BYTES = 8 * 1024 * 1024"

definition CONTROL_STRING_BYTES :: nat where "CONTROL_STRING_BYTES = 64 * 1024"

definition CATALOG_BYTES :: nat where "CATALOG_BYTES = 4 * 1024 * 1024"

definition STATE_BYTES :: nat where "STATE_BYTES = 16 * 1024 * 1024"

definition CONTROL_MESSAGE_BYTES :: nat where "CONTROL_MESSAGE_BYTES = 256 * 1024"

definition HANDSHAKE_BYTES :: nat where "HANDSHAKE_BYTES = 4 * 1024 * 1024"

definition DECODED_PER_BYTE :: nat where "DECODED_PER_BYTE = 16"

definition MESSAGE_OVERHEAD :: nat where "MESSAGE_OVERHEAD = 64 * 1024"

definition MESSAGE_ROOM :: nat where "MESSAGE_ROOM = 256"

definition CREDIT_FLOOR :: nat where "CREDIT_FLOOR = MIN_FRAME_BYTES"

definition MAX_CALLS :: nat where "MAX_CALLS = 200"

definition TRANSPORT_FRAME_BYTES :: nat where "TRANSPORT_FRAME_BYTES = 1024 * 1024"

lemmas wire_constants =
  FRAME_BYTES_def BATCH_ROWS_def BATCH_VALUES_def MIN_FRAME_BYTES_def MIN_BATCH_ROWS_def MIN_BATCH_VALUES_def
  MIN_DICTIONARY_BYTES_def SCHEMA_COLUMNS_def NESTING_DEPTH_def SCHEMA_BYTES_def DICTIONARY_FRAMES_def
  STAGED_FRAMES_def JSON_PUSH_BYTES_def CURSOR_BYTES_def EXCLUDED_BYTES_def CONFIG_BYTES_def
  CONTROL_STRING_BYTES_def CATALOG_BYTES_def STATE_BYTES_def CONTROL_MESSAGE_BYTES_def HANDSHAKE_BYTES_def
  DECODED_PER_BYTE_def MESSAGE_OVERHEAD_def MESSAGE_ROOM_def CREDIT_FLOOR_def MAX_CALLS_def
  TRANSPORT_FRAME_BYTES_def

definition count :: "nat \<Rightarrow> nat" where
  "count value = (if value \<le> U64_MAX then value else U64_MAX)"

definition as_usize :: "nat \<Rightarrow> nat" where
  "as_usize limit = (if limit \<le> U64_MAX then limit else U64_MAX)"

subsection \<open>Limits and their names\<close>

datatype limit =
    FrameBytes | BatchRows | SchemaColumns | NestingDepth | JsonPushBytes | CursorBytes | ConfigBytes
  | ControlStringBytes | BatchValues | SchemaBytes | ViewBytes | DictionaryBytes | StagedBytes
  | CatalogBytes | StateBytes | ControlMessageBytes | BatchBytes | ConfigSchemaBytes

definition limit_all :: "limit list" where
  "limit_all =
     [FrameBytes, BatchRows, SchemaColumns, NestingDepth, JsonPushBytes, CursorBytes, ConfigBytes,
      ControlStringBytes, BatchValues, SchemaBytes, ViewBytes, DictionaryBytes, StagedBytes,
      CatalogBytes, StateBytes, ControlMessageBytes, BatchBytes, ConfigSchemaBytes]"

fun limit_name :: "limit \<Rightarrow> string" where
  "limit_name FrameBytes = ''frame bytes''"
| "limit_name BatchRows = ''batch rows''"
| "limit_name SchemaColumns = ''schema columns''"
| "limit_name NestingDepth = ''nesting depth''"
| "limit_name JsonPushBytes = ''json push bytes''"
| "limit_name CursorBytes = ''cursor bytes''"
| "limit_name ConfigBytes = ''config bytes''"
| "limit_name ControlStringBytes = ''control string bytes''"
| "limit_name BatchValues = ''batch values''"
| "limit_name SchemaBytes = ''schema bytes''"
| "limit_name ViewBytes = ''view bytes''"
| "limit_name DictionaryBytes = ''dictionary bytes''"
| "limit_name StagedBytes = ''staged bytes''"
| "limit_name CatalogBytes = ''catalog bytes''"
| "limit_name StateBytes = ''state bytes''"
| "limit_name ControlMessageBytes = ''control message bytes''"
| "limit_name BatchBytes = ''batch bytes''"
| "limit_name ConfigSchemaBytes = ''config schema bytes''"

definition limit_named :: "string \<Rightarrow> limit option" where
  "limit_named name = find (\<lambda>l. limit_name l = name) limit_all"

record shortfall =
  sf_field :: limit
  sf_minimum :: nat
  sf_actual :: nat

record refusal =
  rf_field :: limit
  rf_limit :: nat
  rf_actual :: nat

record limits =
  frame_bytes :: nat
  batch_rows :: nat
  schema_columns :: nat
  nesting_depth :: nat
  json_push_bytes :: nat
  cursor_bytes :: nat
  config_bytes :: nat
  control_string_bytes :: nat
  batch_values :: nat
  schema_bytes :: nat
  dictionary_bytes :: nat
  catalog_bytes :: nat
  state_bytes :: nat
  control_message_bytes :: nat

definition limits_default :: limits where
  "limits_default =
     \<lparr>frame_bytes = FRAME_BYTES, batch_rows = BATCH_ROWS, schema_columns = SCHEMA_COLUMNS,
      nesting_depth = NESTING_DEPTH, json_push_bytes = JSON_PUSH_BYTES, cursor_bytes = CURSOR_BYTES,
      config_bytes = CONFIG_BYTES, control_string_bytes = CONTROL_STRING_BYTES,
      batch_values = BATCH_VALUES, schema_bytes = SCHEMA_BYTES,
      dictionary_bytes = (FRAME_BYTES + MESSAGE_ROOM) * DICTIONARY_FRAMES,
      catalog_bytes = CATALOG_BYTES, state_bytes = STATE_BYTES,
      control_message_bytes = CONTROL_MESSAGE_BYTES\<rparr>"

subsection \<open>Classes of messages\<close>

datatype msg_class = HandshakeMsg | ControlMsg | CatalogMsg | StateMsg | ConfigMsg | SchemaMsg | CursorMsg | DataMsg

fun decoded_per_byte :: "msg_class \<Rightarrow> nat" where
  "decoded_per_byte DataMsg = 2"
| "decoded_per_byte HandshakeMsg = 4"
| "decoded_per_byte ConfigMsg = 4"
| "decoded_per_byte CursorMsg = 4"
| "decoded_per_byte StateMsg = 1"
| "decoded_per_byte ControlMsg = DECODED_PER_BYTE"
| "decoded_per_byte CatalogMsg = DECODED_PER_BYTE"
| "decoded_per_byte SchemaMsg = DECODED_PER_BYTE"

definition class_all :: "msg_class list" where
  "class_all = [HandshakeMsg, ControlMsg, CatalogMsg, StateMsg, ConfigMsg, SchemaMsg, CursorMsg, DataMsg]"

definition of_request :: "string \<Rightarrow> msg_class" where
  "of_request method =
     (if method = ''Handshake'' then HandshakeMsg
      else if method = ''Configure'' then ConfigMsg
      else if method = ''ApplySchema'' then SchemaMsg
      else if method = ''Read'' then CursorMsg
      else if method \<in> {''Plan'', ''Committed'', ''Commit''} then StateMsg
      else if method = ''Write'' then DataMsg
      else ControlMsg)"

definition of_answer :: "string \<Rightarrow> msg_class" where
  "of_answer method =
     (if method \<in> {''Handshake'', ''Configure''} then HandshakeMsg
      else if method = ''Discover'' then CatalogMsg
      else if method \<in> {''Plan'', ''Open''} then StateMsg
      else if method \<in> {''Read'', ''ReadPublished''} then DataMsg
      else ControlMsg)"

definition decoding :: "limits \<Rightarrow> msg_class \<Rightarrow> nat" where
  "decoding li msg =
     (let around = (\<lambda>limit. sadd (as_usize limit) MESSAGE_OVERHEAD)
      in case msg of
           HandshakeMsg \<Rightarrow> as_usize HANDSHAKE_BYTES
         | ControlMsg \<Rightarrow> as_usize (control_message_bytes li)
         | CatalogMsg \<Rightarrow> as_usize (catalog_bytes li)
         | StateMsg \<Rightarrow> as_usize (state_bytes li)
         | ConfigMsg \<Rightarrow> around (config_bytes li)
         | SchemaMsg \<Rightarrow> around (schema_bytes li)
         | CursorMsg \<Rightarrow> sadd (around (cursor_bytes li)) (as_usize EXCLUDED_BYTES)
         | DataMsg \<Rightarrow> around (frame_bytes li))"

definition decoded :: "limits \<Rightarrow> msg_class \<Rightarrow> nat" where
  "decoded li msg = smul (decoding li msg) (decoded_per_byte msg)"

definition largest :: "limits \<Rightarrow> nat" where
  "largest li = fold max (map (decoding li) class_all) 0"

subsection \<open>Admissions\<close>

definition admit :: "limit \<Rightarrow> nat \<Rightarrow> nat \<Rightarrow> refusal + unit" where
  "admit field limit actual =
     (if actual \<le> limit then Inr ()
      else Inl \<lparr>rf_field = field, rf_limit = limit, rf_actual = actual\<rparr>)"

definition held_dictionary_bytes :: "limits \<Rightarrow> nat" where
  "held_dictionary_bytes li =
     min (smul (sadd (frame_bytes li) MESSAGE_ROOM) DICTIONARY_FRAMES) (dictionary_bytes li)"

definition staged_bytes :: "limits \<Rightarrow> nat" where
  "staged_bytes li = smul (frame_bytes li) STAGED_FRAMES"

definition admit_dictionaries :: "limits \<Rightarrow> nat \<Rightarrow> refusal + unit" where
  "admit_dictionaries li bytes = admit DictionaryBytes (held_dictionary_bytes li) bytes"

definition admit_staged :: "limits \<Rightarrow> nat \<Rightarrow> refusal + unit" where
  "admit_staged li bytes = admit StagedBytes (staged_bytes li) bytes"

definition admit_frame :: "limits \<Rightarrow> nat \<Rightarrow> refusal + unit" where
  "admit_frame li bytes = admit FrameBytes (frame_bytes li) (count bytes)"

definition admit_schema :: "limits \<Rightarrow> nat \<Rightarrow> refusal + unit" where
  "admit_schema li bytes = admit SchemaBytes (schema_bytes li) (count bytes)"

definition admit_string :: "limits \<Rightarrow> string \<Rightarrow> refusal + unit" where
  "admit_string li value = admit ControlStringBytes (control_string_bytes li) (count (length value))"

definition admit_json :: "limits \<Rightarrow> nat \<Rightarrow> refusal + unit" where
  "admit_json li bytes = admit JsonPushBytes (json_push_bytes li) (count bytes)"

definition admit_cursor :: "limits \<Rightarrow> nat \<Rightarrow> refusal + unit" where
  "admit_cursor li bytes = admit CursorBytes (cursor_bytes li) (count bytes)"

definition admit_config :: "limits \<Rightarrow> nat \<Rightarrow> refusal + unit" where
  "admit_config li bytes = admit ConfigBytes (config_bytes li) (count bytes)"

definition lesser :: "limits \<Rightarrow> limits \<Rightarrow> limits" where
  "lesser a b =
     \<lparr>frame_bytes = min (frame_bytes a) (frame_bytes b),
      batch_rows = min (batch_rows a) (batch_rows b),
      schema_columns = min (schema_columns a) (schema_columns b),
      nesting_depth = min (nesting_depth a) (nesting_depth b),
      json_push_bytes = min (json_push_bytes a) (json_push_bytes b),
      cursor_bytes = min (cursor_bytes a) (cursor_bytes b),
      config_bytes = min (config_bytes a) (config_bytes b),
      control_string_bytes = min (control_string_bytes a) (control_string_bytes b),
      batch_values = min (batch_values a) (batch_values b),
      schema_bytes = min (schema_bytes a) (schema_bytes b),
      dictionary_bytes = min (dictionary_bytes a) (dictionary_bytes b),
      catalog_bytes = min (catalog_bytes a) (catalog_bytes b),
      state_bytes = min (state_bytes a) (state_bytes b),
      control_message_bytes = min (control_message_bytes a) (control_message_bytes b)\<rparr>"

definition floors :: "limits \<Rightarrow> (limit \<times> nat \<times> nat) list" where
  "floors li =
     [(FrameBytes, MIN_FRAME_BYTES, frame_bytes li), (BatchRows, MIN_BATCH_ROWS, batch_rows li),
      (BatchValues, MIN_BATCH_VALUES, batch_values li),
      (DictionaryBytes, MIN_DICTIONARY_BYTES, dictionary_bytes li)]"

definition admit_peer :: "limits \<Rightarrow> shortfall + unit" where
  "admit_peer li =
     (case find (\<lambda>(_, minimum, actual). actual < minimum) (floors li) of
        None \<Rightarrow> Inr ()
      | Some (field, minimum, actual) \<Rightarrow>
          Inl \<lparr>sf_field = field, sf_minimum = minimum, sf_actual = actual\<rparr>)"

subsection \<open>What crosses the wire\<close>

text \<open>The generated message has the same fields; a field left unset is zero.\<close>

type_synonym sent_limits = limits

definition limits_sent :: "limits \<Rightarrow> sent_limits" where
  "limits_sent li =
     \<lparr>frame_bytes = frame_bytes li, batch_rows = batch_rows li, schema_columns = schema_columns li,
      nesting_depth = nesting_depth li, json_push_bytes = json_push_bytes li, cursor_bytes = cursor_bytes li,
      config_bytes = config_bytes li, control_string_bytes = control_string_bytes li,
      batch_values = batch_values li, schema_bytes = schema_bytes li,
      dictionary_bytes = dictionary_bytes li, catalog_bytes = catalog_bytes li,
      state_bytes = state_bytes li, control_message_bytes = control_message_bytes li\<rparr>"

definition sent_or :: "nat \<Rightarrow> nat \<Rightarrow> nat" where
  "sent_or sent default_value = (if sent = 0 then default_value else sent)"

definition limits_from :: "sent_limits \<Rightarrow> limits" where
  "limits_from li =
     (let d = limits_default
      in \<lparr>frame_bytes = sent_or (frame_bytes li) (frame_bytes d),
          batch_rows = sent_or (batch_rows li) (batch_rows d),
          schema_columns = sent_or (schema_columns li) (schema_columns d),
          nesting_depth = sent_or (nesting_depth li) (nesting_depth d),
          json_push_bytes = sent_or (json_push_bytes li) (json_push_bytes d),
          cursor_bytes = sent_or (cursor_bytes li) (cursor_bytes d),
          config_bytes = sent_or (config_bytes li) (config_bytes d),
          control_string_bytes = sent_or (control_string_bytes li) (control_string_bytes d),
          batch_values = sent_or (batch_values li) (batch_values d),
          schema_bytes = sent_or (schema_bytes li) (schema_bytes d),
          dictionary_bytes = dictionary_bytes li,
          catalog_bytes = sent_or (catalog_bytes li) (catalog_bytes d),
          state_bytes = sent_or (state_bytes li) (state_bytes d),
          control_message_bytes = sent_or (control_message_bytes li) (control_message_bytes d)\<rparr>)"

subsection \<open>What the admissions say\<close>

definition limits_u64 :: "limits \<Rightarrow> bool" where
  "limits_u64 li \<longleftrightarrow> list_all (\<lambda>f. f li \<le> U64_MAX)
     [frame_bytes, batch_rows, schema_columns, nesting_depth, json_push_bytes, cursor_bytes, config_bytes,
      control_string_bytes, batch_values, schema_bytes, dictionary_bytes, catalog_bytes, state_bytes,
      control_message_bytes]"

lemma admit_Inr [simp]: "admit field limit actual = Inr () \<longleftrightarrow> actual \<le> limit"
  by (simp add: admit_def)

lemma admit_Inl: "admit field limit actual = Inl r \<longleftrightarrow>
   limit < actual \<and> r = \<lparr>rf_field = field, rf_limit = limit, rf_actual = actual\<rparr>"
  by (auto simp: admit_def)

lemma admit_peer_Inr:
  "admit_peer li = Inr () \<longleftrightarrow> MIN_FRAME_BYTES \<le> frame_bytes li \<and> MIN_BATCH_ROWS \<le> batch_rows li \<and>
     MIN_BATCH_VALUES \<le> batch_values li \<and> MIN_DICTIONARY_BYTES \<le> dictionary_bytes li"
  by (auto simp: admit_peer_def floors_def not_less split: option.splits if_splits)

lemma as_usize_u64 [simp]: "limit \<le> U64_MAX \<Longrightarrow> as_usize limit = limit"
  by (simp add: as_usize_def)

lemma count_u64 [simp]: "n \<le> U64_MAX \<Longrightarrow> count n = n"
  by (simp add: count_def)

lemma sent_or_0: "sent_or sent d = 0 \<longleftrightarrow> sent = 0 \<and> d = 0"
  by (simp add: sent_or_def)

lemma sent_or_again: "sent_or (sent_or sent d) d = sent_or sent d"
  by (simp add: sent_or_def)

lemma decoding_le_max: "decoding li msg \<le> U64_MAX"
  by (cases msg) (simp_all add: decoding_def Let_def as_usize_def)

lemma decoded_per_byte_pos: "1 \<le> decoded_per_byte msg"
  by (cases msg) (simp_all add: DECODED_PER_BYTE_def)

lemma decoded_ge: "decoding li msg \<le> decoded li msg"
  unfolding decoded_def smul_def
  using decoding_le_max [of li msg] mult_le_mono2 [OF decoded_per_byte_pos [of msg], of "decoding li msg"]
  by simp

lemma fold_max: "fold max xs (a :: nat) = Max (insert a (set xs))"
  using Max.set_eq_fold [of a xs] by simp

lemma class_all: "set class_all = UNIV"
proof -
  have "msg \<in> set class_all" for msg by (cases msg) (simp_all add: class_all_def)
  then show ?thesis by blast
qed

lemma largest_Max: "largest li = Max (range (decoding li))"
proof -
  have fin: "finite (range (decoding li))" using class_all finite_set [of class_all] by simp
  have "largest li = Max (insert 0 (range (decoding li)))"
    by (simp add: largest_def fold_max class_all)
  also have "\<dots> = Max (range (decoding li))" using fin by (simp add: Max_insert)
  finally show ?thesis .
qed

lemma largest_reached: "\<exists>msg. largest li = decoding li msg" "decoding li msg \<le> largest li"
proof -
  have fin: "finite (range (decoding li))" using class_all finite_set [of class_all] by simp
  show "\<exists>msg. largest li = decoding li msg"
    using Max_in [OF fin] unfolding largest_Max by blast
  show "decoding li msg \<le> largest li" unfolding largest_Max using fin by simp
qed

lemma find_split_iff:
  "find P xs = Some y \<longleftrightarrow> (\<exists>before after. xs = before @ y # after \<and> P y \<and> list_all (\<lambda>x. \<not> P x) before)"
proof (induction xs)
  case (Cons x xs)
  show ?case
  proof (cases "P x")
    case True
    then show ?thesis
      by (auto simp: Cons_eq_append_conv intro: exI [of _ "[]"])
  next
    case False
    have "(\<exists>before after. x # xs = before @ y # after \<and> P y \<and> list_all (\<lambda>x. \<not> P x) before)
        = (\<exists>before after. xs = before @ y # after \<and> P y \<and> list_all (\<lambda>x. \<not> P x) before)" (is "?l = ?r")
    proof
      assume ?l
      then obtain before after where *: "x # xs = before @ y # after" "P y" "list_all (\<lambda>x. \<not> P x) before" by blast
      with False obtain before' where "before = x # before'" by (cases before) auto
      with * show ?r by auto
    next
      assume ?r
      then obtain before after where "xs = before @ y # after" "P y" "list_all (\<lambda>x. \<not> P x) before" by blast
      with False show ?l by (intro exI [of _ "x # before"] exI [of _ after]) simp
    qed
    with False Cons.IH show ?thesis by simp
  qed
qed simp

subsection \<open>Properties\<close>



text \<open>limits read from the wire and sent again read back unchanged, and the name a refusal carries
  names its limit and no other.\<close>

theorem limits_roundtrip:
  "limits_from (limits_sent (limits_from sent)) = limits_from sent \<and>
   (limit_named name = Some l \<longleftrightarrow> limit_name l = name)"
proof
  show "limits_from (limits_sent (limits_from sent)) = limits_from sent"
    by (simp add: limits_from_def limits_sent_def Let_def sent_or_again)
  have "limit_named (limit_name k) = Some k" for k
    by (cases k) (simp_all add: limit_named_def limit_all_def)
  moreover have "limit_named name = Some l \<Longrightarrow> limit_name l = name"
    by (auto simp: limit_named_def find_Some_iff)
  ultimately show "limit_named name = Some l \<longleftrightarrow> limit_name l = name" by blast
qed



end
