(* ===== verification/Flow.thy ===== *)
theory Flow
  imports Limits
begin

text \<open>
  Flow control of a data-plane call (\<open>crates/rdlt-wire/src/flow.rs\<close>): the credit a receiver grants as
  it takes frames, the credit a sender spends, and the windows both set on their transport. A call is
  the two ends with what is in transit between them, frames one way and grants the other, and a step
  sends a frame, takes one, or delivers a grant. An \<open>i64\<close> is an \<open>int\<close> with saturation written out.
\<close>

subsection \<open>The two ends\<close>

definition I64_MAX :: int where "I64_MAX = 9223372036854775807"

definition I64_MIN :: int where "I64_MIN = - 9223372036854775808"

definition as_i64 :: "nat \<Rightarrow> int" where
  "as_i64 n = (if int n \<le> I64_MAX then int n else I64_MAX)"

definition i64_sat :: "int \<Rightarrow> int" where
  "i64_sat x = (if x < I64_MIN then I64_MIN else if I64_MAX < x then I64_MAX else x)"

record granting =
  gr_floor :: nat
  gr_limit :: nat
  gr_window :: nat

definition granting_new :: "nat \<Rightarrow> limits \<Rightarrow> granting" where
  "granting_new floor li =
     (let limit = count (decoding li DataMsg);
          floor' = clamp floor 1 (max limit 1)
      in \<lparr>gr_floor = floor', gr_limit = limit, gr_window = floor'\<rparr>)"

definition granting_opening :: "granting \<Rightarrow> nat" where
  "granting_opening g = gr_floor g"

definition taken :: "nat \<Rightarrow> granting \<Rightarrow> granting \<times> nat" where
  "taken bytes g =
     (let two = smul (min bytes (gr_limit g)) 2;
          grown = clamp two (gr_floor g) (max (gr_limit g) (gr_floor g));
          growth = grown - gr_window g
      in (g\<lparr>gr_window := wadd (gr_window g) growth\<rparr>, sadd bytes growth))"

record spending =
  sp_credit :: int

definition spending_default :: spending where
  "spending_default = \<lparr>sp_credit = 0\<rparr>"

definition may_send :: "spending \<Rightarrow> bool" where
  "may_send sp \<longleftrightarrow> sp_credit sp > 0"

definition spend :: "nat \<Rightarrow> spending \<Rightarrow> spending" where
  "spend bytes sp = sp\<lparr>sp_credit := i64_sat (sp_credit sp - as_i64 bytes)\<rparr>"

datatype zero_grant = ZeroGrant

definition grant :: "nat \<Rightarrow> spending \<Rightarrow> zero_grant + spending" where
  "grant bytes sp =
     (if bytes = 0 then Inl ZeroGrant
      else Inr (sp\<lparr>sp_credit := i64_sat (sp_credit sp + as_i64 bytes)\<rparr>))"

subsection \<open>The transport's windows\<close>

definition U32_MAX :: nat where "U32_MAX = 4294967295"

record transport =
  stream_window :: nat
  connection_window :: nat
  max_frame :: nat

definition transport_default :: transport where
  "transport_default =
     (let window = (\<lambda>bytes. if bytes \<le> U32_MAX then bytes else U32_MAX);
          calls = MAX_CALLS + 1
      in \<lparr>stream_window = window CREDIT_FLOOR, connection_window = window (smul calls CREDIT_FLOOR),
          max_frame = TRANSPORT_FRAME_BYTES\<rparr>)"

lemma transport_holds_every_call:
  "connection_window transport_default = (MAX_CALLS + 1) * stream_window transport_default"
  by (simp add: transport_default_def Let_def wire_constants U32_MAX_def smul_def U64_MAX_def)

subsection \<open>A call\<close>

record call =
  ca_receiver :: granting
  ca_sender :: spending
  ca_frames :: "nat list"
  ca_grants :: "nat list"

definition call_open :: "nat \<Rightarrow> limits \<Rightarrow> call" where
  "call_open floor li =
     (let g = granting_new floor li
      in \<lparr>ca_receiver = g, ca_sender = spending_default, ca_frames = [], ca_grants = [granting_opening g]\<rparr>)"

inductive call_step :: "call \<Rightarrow> call \<Rightarrow> bool" where
  send: "may_send (ca_sender c) \<Longrightarrow> 1 \<le> bytes \<Longrightarrow> bytes \<le> gr_limit (ca_receiver c) \<Longrightarrow>
    call_step c (c\<lparr>ca_sender := spend bytes (ca_sender c), ca_frames := ca_frames c @ [bytes]\<rparr>)"
| take: "ca_frames c = bytes # rest \<Longrightarrow> taken bytes (ca_receiver c) = (g, credit) \<Longrightarrow>
    call_step c (c\<lparr>ca_receiver := g, ca_frames := rest, ca_grants := ca_grants c @ [credit]\<rparr>)"
| credit: "ca_grants c = bytes # rest \<Longrightarrow> grant bytes (ca_sender c) = Inr sp \<Longrightarrow>
    call_step c (c\<lparr>ca_sender := sp, ca_grants := rest\<rparr>)"

inductive call_reachable :: "nat \<Rightarrow> limits \<Rightarrow> call \<Rightarrow> bool" for floor li where
  start: "call_reachable floor li (call_open floor li)"
| step: "call_reachable floor li c \<Longrightarrow> call_step c c' \<Longrightarrow> call_reachable floor li c'"

inductive_cases call_stepE: "call_step c c'"

subsection \<open>The invariant\<close>

definition granting_bounded :: "granting \<Rightarrow> bool" where
  "granting_bounded g \<longleftrightarrow> 1 \<le> gr_floor g \<and> gr_floor g \<le> gr_window g \<and>
     gr_window g \<le> gr_limit g \<and> 2 * int (gr_limit g) \<le> I64_MAX"

definition call_inv :: "call \<Rightarrow> bool" where
  "call_inv c \<longleftrightarrow> granting_bounded (ca_receiver c) \<and>
     sp_credit (ca_sender c) + int (sum_list (ca_frames c)) + int (sum_list (ca_grants c)) = int (gr_window (ca_receiver c)) \<and>
     - int (gr_limit (ca_receiver c)) < sp_credit (ca_sender c) \<and>
     0 \<notin> set (ca_grants c) \<and> (\<forall>b\<in>set (ca_frames c). 1 \<le> b \<and> b \<le> gr_limit (ca_receiver c))"

lemma taken_bounded:
  assumes "granting_bounded g" and "1 \<le> bytes" and "bytes \<le> gr_limit g" and "taken bytes g = (g', credit)"
  shows "granting_bounded g' \<and> gr_limit g' = gr_limit g \<and> gr_window g \<le> gr_window g' \<and>
    credit = bytes + (gr_window g' - gr_window g)"
proof -
  define growth where "growth = clamp (smul bytes 2) (gr_floor g) (gr_limit g) - gr_window g"
  have lim: "gr_floor g \<le> gr_limit g" "gr_limit g \<le> 9223372036854775807"
    using assms(1) by (simp_all add: granting_bounded_def I64_MAX_def)
  then have sum: "gr_window g + growth \<le> gr_limit g"
    using clamp_bounds [of "gr_floor g" "gr_limit g" "smul bytes 2"] assms(1)
    by (auto simp: growth_def granting_bounded_def)
  have "taken bytes g = (g\<lparr>gr_window := wadd (gr_window g) growth\<rparr>, sadd bytes growth)"
    using lim(1) assms(3) by (simp add: taken_def Let_def growth_def min_absorb1 max_absorb1)
  also have "\<dots> = (g\<lparr>gr_window := gr_window g + growth\<rparr>, bytes + growth)"
    using sum lim(2) assms(3) by (simp add: wadd_exact sadd_exact U64_MAX_def)
  finally show ?thesis
    using assms(1,4) sum by (auto simp: granting_bounded_def)
qed

lemma as_i64_exact: "int n \<le> I64_MAX \<Longrightarrow> as_i64 n = int n"
  by (simp add: as_i64_def)

lemma i64_sat_exact: "I64_MIN \<le> x \<Longrightarrow> x \<le> I64_MAX \<Longrightarrow> i64_sat x = x"
  by (simp add: i64_sat_def)

lemma granting_new_bounded:
  assumes "2 * int (decoding li DataMsg) \<le> I64_MAX"
  shows "granting_bounded (granting_new floor li) \<and> gr_window (granting_new floor li) = gr_floor (granting_new floor li)"
proof -
  let ?limit = "decoding li DataMsg"
  have "1 \<le> ?limit"
    by (simp add: decoding_def Let_def sadd_def MESSAGE_OVERHEAD_def U64_MAX_def)
  then show ?thesis
    using assms decoding_le_max [of li DataMsg] clamp_bounds [of 1 ?limit floor]
    by (simp add: granting_new_def Let_def granting_bounded_def max_absorb1)
qed

lemma call_open_inv: "2 * int (decoding li DataMsg) \<le> I64_MAX \<Longrightarrow> call_inv (call_open floor li)"
  using granting_new_bounded [of li floor]
  by (auto simp: call_open_def Let_def call_inv_def spending_default_def granting_opening_def granting_bounded_def)

lemma credit_le_window:
  "call_inv c \<Longrightarrow> sp_credit (ca_sender c) \<le> int (gr_window (ca_receiver c)) - int (sum_list (ca_grants c))"
  by (simp add: call_inv_def)

lemma send_inv:
  assumes "call_inv c" and "may_send (ca_sender c)" and "1 \<le> bytes" and "bytes \<le> gr_limit (ca_receiver c)"
  shows "call_inv (c\<lparr>ca_sender := spend bytes (ca_sender c), ca_frames := ca_frames c @ [bytes]\<rparr>)"
proof -
  have lim: "int (gr_limit (ca_receiver c)) \<le> I64_MAX"
    using assms(1) by (simp add: call_inv_def granting_bounded_def)
  have top: "sp_credit (ca_sender c) \<le> I64_MAX"
    using credit_le_window [OF assms(1)] assms(1) by (simp add: call_inv_def granting_bounded_def)
  have "sp_credit (spend bytes (ca_sender c)) = sp_credit (ca_sender c) - int bytes"
    using assms(2,4) lim top
    by (simp add: spend_def as_i64_exact i64_sat_exact may_send_def I64_MIN_def I64_MAX_def)
  then show ?thesis using assms by (simp add: call_inv_def may_send_def)
qed

lemma take_inv:
  assumes "call_inv c" and "ca_frames c = bytes # rest" and "taken bytes (ca_receiver c) = (g, credit)"
  shows "call_inv (c\<lparr>ca_receiver := g, ca_frames := rest, ca_grants := ca_grants c @ [credit]\<rparr>)"
proof -
  have "1 \<le> bytes" "bytes \<le> gr_limit (ca_receiver c)" "granting_bounded (ca_receiver c)"
    using assms(1,2) by (simp_all add: call_inv_def)
  note t = taken_bounded [OF this(3,1,2) assms(3)]
  show ?thesis using assms(1,2) t \<open>1 \<le> bytes\<close> by (simp add: call_inv_def)
qed

lemma credit_inv:
  assumes "call_inv c" and "ca_grants c = bytes # rest" and "grant bytes (ca_sender c) = Inr sp"
  shows "call_inv (c\<lparr>ca_sender := sp, ca_grants := rest\<rparr>)"
proof -
  let ?limit = "int (gr_limit (ca_receiver c))"
  have window: "2 * ?limit \<le> I64_MAX" "int (gr_window (ca_receiver c)) \<le> ?limit" "- ?limit < sp_credit (ca_sender c)"
    using assms(1) by (simp_all add: call_inv_def granting_bounded_def)
  have sum: "sp_credit (ca_sender c) + int bytes \<le> int (gr_window (ca_receiver c))"
    using assms(1,2) by (simp add: call_inv_def)
  have "as_i64 bytes = int bytes" "i64_sat (sp_credit (ca_sender c) + int bytes) = sp_credit (ca_sender c) + int bytes"
    using sum window by (auto simp: as_i64_exact i64_sat_exact I64_MIN_def I64_MAX_def)
  then have "sp_credit sp = sp_credit (ca_sender c) + int bytes"
    using assms(3) by (auto simp: grant_def split: if_splits)
  then show ?thesis using assms(1,2) by (simp add: call_inv_def)
qed

lemma call_reachable_inv:
  assumes "2 * int (decoding li DataMsg) \<le> I64_MAX"
  shows "call_reachable floor li c \<Longrightarrow> call_inv c"
proof (induction rule: call_reachable.induct)
  case start
  show ?case using assms by (rule call_open_inv)
next
  case (step c c')
  from step.hyps(2) step.IH show ?case
    by (cases rule: call_step.cases) (auto intro: send_inv take_inv credit_inv)
qed

subsection \<open>Properties\<close>

text \<open>C27: credit is what was granted less what was spent, however many frames a call carries and however
  its grants are delayed: the sender's credit with the frames and grants in transit is the receiver's
  window, never above it and never below minus the largest frame, the window stays between the floor and
  the limit, and no grant in transit is empty, so none is refused.\<close>

theorem credit_is_window:
  assumes "2 * int (decoding li DataMsg) \<le> I64_MAX" and "call_reachable floor li c"
  shows "sp_credit (ca_sender c) + int (sum_list (ca_frames c)) + int (sum_list (ca_grants c))
      = int (gr_window (ca_receiver c)) \<and>
    - int (gr_limit (ca_receiver c)) < sp_credit (ca_sender c) \<and>
    gr_floor (ca_receiver c) \<le> gr_window (ca_receiver c) \<and> gr_window (ca_receiver c) \<le> gr_limit (ca_receiver c) \<and>
    (\<forall>bytes\<in>set (ca_grants c). \<exists>sp. grant bytes (ca_sender c) = Inr sp)"
  using call_reachable_inv [OF assms]
  by (auto simp: call_inv_def granting_bounded_def grant_def intro: ccontr)

text \<open>C28: a call is never stuck: in every state it can reach, a frame may be sent, a frame is there to be
  taken, or a grant is there to be delivered; in particular once everything sent was taken and every grant
  arrived, the sender has the whole window, at least one byte, as credit.\<close>

theorem call_never_stuck:
  assumes "2 * int (decoding li DataMsg) \<le> I64_MAX" and "call_reachable floor li c"
  shows "(\<exists>c'. call_step c c') \<and>
    (ca_frames c = [] \<and> ca_grants c = [] \<longrightarrow>
       sp_credit (ca_sender c) = int (gr_window (ca_receiver c)) \<and> may_send (ca_sender c))"
proof -
  note inv = call_reachable_inv [OF assms]
  have idle: "sp_credit (ca_sender c) = int (gr_window (ca_receiver c)) \<and> may_send (ca_sender c)"
    if "ca_frames c = []" "ca_grants c = []"
    using inv that by (simp add: call_inv_def granting_bounded_def may_send_def)
  show ?thesis
  proof (cases "ca_frames c")
    case (Cons b rest)
    then show ?thesis using take [OF Cons, of "fst (taken b (ca_receiver c))"] idle by (metis list.distinct(1) prod.collapse)
  next
    case none: Nil
    show ?thesis
    proof (cases "ca_grants c")
      case (Cons b rest)
      then have "b \<noteq> 0" using inv by (auto simp: call_inv_def)
      then show ?thesis using credit [OF Cons] Cons by (auto simp: grant_def)
    next
      case Nil
      have "1 \<le> gr_limit (ca_receiver c)" using inv by (simp add: call_inv_def granting_bounded_def)
      then show ?thesis using send [of c 1] idle [OF none Nil] by auto
    qed
  qed
qed

abbreviation sent_call :: call where
  "sent_call \<equiv> \<lparr>ca_receiver = granting_new 10 limits_default, ca_sender = \<lparr>sp_credit = 10\<rparr>, ca_frames = [], ca_grants = []\<rparr>"

lemma sent_call_reachable: "call_reachable 10 limits_default sent_call"
proof -
  have "call_step (call_open 10 limits_default)
      ((call_open 10 limits_default)\<lparr>ca_sender := \<lparr>sp_credit = 10\<rparr>, ca_grants := []\<rparr>)"
    by (rule credit [of _ 10]) code_simp+
  from call_reachable.step [OF call_reachable.start this] show ?thesis
    by (simp add: call_open_def Let_def)
qed

lemma default_data_bound: "2 * int (decoding limits_default DataMsg) \<le> I64_MAX"
  by code_simp

theorem credit_is_window_witness: "sp_credit (ca_sender sent_call) = int (gr_window (ca_receiver sent_call))"
  using credit_is_window [OF default_data_bound sent_call_reachable] by simp

theorem call_never_stuck_witness: "\<exists>c'. call_step sent_call c'"
  using call_never_stuck [OF default_data_bound sent_call_reachable] by blast

end
