(* ===== verification/Ledger.thy ===== *)
theory Ledger
  imports Limits
begin

text \<open>
  The ledger of the engine's memory budget (\<open>crates/rdlt-engine/src/budget/ledger.rs\<close>, with the shares
  of \<open>crates/rdlt-engine/src/limits.rs\<close>): what each share holds, who waits for it, and who is admitted
  next. Every method runs under the ledger's lock, so each is one function from a ledger to a ledger.

  The five queues, which the source keeps in an array by place in \<open>WAITING\<close>, are a function of the
  class; reads have none. A request waiting is its place and its bytes; whether its receiver is gone,
  which decides what becomes of a reservation sent to it, is the argument \<open>gone\<close> of the operations that
  send. An instant and a duration are \<open>nat\<close>. The additions of \<open>fits\<close> and \<open>reserved\<close> are written as
  a release build computes them.
\<close>

subsection \<open>Classes and shares\<close>

datatype budget_class = IntakeClass | WorkClass | CursorClass | TablesClass | ReadClass | ControlClass

fun class_what :: "budget_class \<Rightarrow> string" where
  "class_what IntakeClass = ''a push''"
| "class_what WorkClass = ''lowering''"
| "class_what CursorClass = ''a cursor''"
| "class_what TablesClass = ''a table's records''"
| "class_what ReadClass = ''what reads keep''"
| "class_what ControlClass = ''decoding an answer''"

datatype wait = WaitOf budget_class | WaitDecode

fun wait_class :: "wait \<Rightarrow> budget_class" where
  "wait_class (WaitOf c) = c"
| "wait_class WaitDecode = IntakeClass"

definition CURSOR_SHARE :: nat where "CURSOR_SHARE = 64"

definition TABLE_SHARE :: nat where "TABLE_SHARE = 32"

definition READ_SHARE :: nat where "READ_SHARE = 4"

definition CONTROL_SHARE :: nat where "CONTROL_SHARE = 16"

definition REQUEST_SHARE :: nat where "REQUEST_SHARE = 4"

definition PIECE_SHARE :: nat where "PIECE_SHARE = 16"

definition MIN_PIECE :: nat where "MIN_PIECE = 64 * 1024"

lemmas share_constants =
  CURSOR_SHARE_def TABLE_SHARE_def READ_SHARE_def CONTROL_SHARE_def REQUEST_SHARE_def PIECE_SHARE_def MIN_PIECE_def

record shares =
  sh_cursors :: nat
  sh_tables :: nat
  sh_reads :: nat
  sh_control :: nat
  sh_data :: nat
  sh_request :: nat
  sh_intake :: nat
  sh_piece :: nat

definition shares_of :: "nat \<Rightarrow> shares" where
  "shares_of capacity =
     (let cursors = capacity div CURSOR_SHARE;
          tables = capacity div TABLE_SHARE;
          reads = capacity div READ_SHARE;
          control = capacity div CONTROL_SHARE;
          data = capacity - cursors - tables - reads - control;
          request = min (capacity div REQUEST_SHARE) data
      in \<lparr>sh_cursors = cursors, sh_tables = tables, sh_reads = reads, sh_control = control, sh_data = data,
          sh_request = request, sh_intake = data - request,
          sh_piece = min (max (capacity div PIECE_SHARE) MIN_PIECE) request\<rparr>)"

subsection \<open>The ledger\<close>

record waiter =
  wt_id :: nat
  wt_bytes :: nat

record waited =
  wd_count :: nat
  wd_time :: nat

definition waited_default :: waited where
  "waited_default = \<lparr>wd_count = 0, wd_time = 0\<rparr>"

definition waited_add :: "nat \<Rightarrow> waited \<Rightarrow> waited" where
  "waited_add time w = \<lparr>wd_count = sadd (wd_count w) 1, wd_time = wd_time w + time\<rparr>"

record ledger =
  lg_capacity :: nat
  lg_shares :: shares
  lg_intake :: nat
  lg_work :: nat
  lg_cursors :: nat
  lg_tables :: nat
  lg_reads :: nat
  lg_control :: nat
  lg_peak :: nat
  lg_kept_peak :: nat
  lg_waiting :: "budget_class \<Rightarrow> waiter list"
  lg_next :: nat
  lg_pressing :: nat
  lg_pressed :: bool
  lg_cursor_waits :: bool
  lg_waited :: "wait \<Rightarrow> waited"
  lg_signals :: nat
  lg_under_way :: "(nat \<times> wait \<times> nat) list"
  lg_opened :: nat

definition WAITING :: "budget_class list" where
  "WAITING = [CursorClass, TablesClass, ControlClass, WorkClass, IntakeClass]"

definition ledger_new :: "nat \<Rightarrow> ledger" where
  "ledger_new capacity =
     \<lparr>lg_capacity = capacity, lg_shares = shares_of capacity, lg_intake = 0, lg_work = 0, lg_cursors = 0,
      lg_tables = 0, lg_reads = 0, lg_control = 0, lg_peak = 0, lg_kept_peak = 0, lg_waiting = (\<lambda>_. []),
      lg_next = 0, lg_pressing = 0, lg_pressed = False, lg_cursor_waits = False,
      lg_waited = (\<lambda>_. waited_default), lg_signals = 0, lg_under_way = [], lg_opened = 0\<rparr>"

definition reserved :: "ledger \<Rightarrow> nat" where
  "reserved l =
     wadd (wadd (wadd (wadd (wadd (lg_intake l) (lg_work l)) (lg_cursors l)) (lg_tables l)) (lg_reads l)) (lg_control l)"

fun held :: "ledger \<Rightarrow> budget_class \<Rightarrow> nat" where
  "held l IntakeClass = lg_intake l"
| "held l WorkClass = lg_work l"
| "held l CursorClass = lg_cursors l"
| "held l TablesClass = lg_tables l"
| "held l ReadClass = lg_reads l"
| "held l ControlClass = lg_control l"

fun set_held :: "budget_class \<Rightarrow> nat \<Rightarrow> ledger \<Rightarrow> ledger" where
  "set_held IntakeClass v l = l\<lparr>lg_intake := v\<rparr>"
| "set_held WorkClass v l = l\<lparr>lg_work := v\<rparr>"
| "set_held CursorClass v l = l\<lparr>lg_cursors := v\<rparr>"
| "set_held TablesClass v l = l\<lparr>lg_tables := v\<rparr>"
| "set_held ReadClass v l = l\<lparr>lg_reads := v\<rparr>"
| "set_held ControlClass v l = l\<lparr>lg_control := v\<rparr>"

fun class_limit :: "ledger \<Rightarrow> budget_class \<Rightarrow> nat" where
  "class_limit l IntakeClass = sh_intake (lg_shares l)"
| "class_limit l WorkClass = sh_request (lg_shares l)"
| "class_limit l CursorClass = sh_cursors (lg_shares l)"
| "class_limit l TablesClass = sh_tables (lg_shares l)"
| "class_limit l ReadClass = sh_reads (lg_shares l)"
| "class_limit l ControlClass = sh_control (lg_shares l)"

record too_large_refusal =
  tl_what :: string
  tl_asked :: nat
  tl_limit :: nat

definition too_large :: "ledger \<Rightarrow> budget_class \<Rightarrow> nat \<Rightarrow> too_large_refusal option" where
  "too_large l c bytes =
     (let limit = class_limit l c
      in if bytes > limit then Some \<lparr>tl_what = class_what c, tl_asked = bytes, tl_limit = limit\<rparr> else None)"

fun budget_fits :: "ledger \<Rightarrow> budget_class \<Rightarrow> nat \<Rightarrow> bool" where
  "budget_fits l IntakeClass bytes \<longleftrightarrow>
     wadd (lg_intake l) bytes \<le> sh_intake (lg_shares l) \<and>
     sadd (wadd (lg_intake l) (lg_work l)) bytes \<le> sh_data (lg_shares l)"
| "budget_fits l WorkClass bytes \<longleftrightarrow>
     wadd (wadd (lg_intake l) (lg_work l)) bytes \<le> sh_data (lg_shares l)"
| "budget_fits l CursorClass bytes \<longleftrightarrow> wadd (lg_cursors l) bytes \<le> sh_cursors (lg_shares l)"
| "budget_fits l TablesClass bytes \<longleftrightarrow> wadd (lg_tables l) bytes \<le> sh_tables (lg_shares l)"
| "budget_fits l ReadClass bytes \<longleftrightarrow> wadd (lg_reads l) bytes \<le> sh_reads (lg_shares l)"
| "budget_fits l ControlClass bytes \<longleftrightarrow> wadd (lg_control l) bytes \<le> sh_control (lg_shares l)"

definition class_waits :: "ledger \<Rightarrow> budget_class \<Rightarrow> bool" where
  "class_waits l c \<longleftrightarrow> c \<in> set WAITING \<and> lg_waiting l c \<noteq> []"

definition budget_open :: "ledger \<Rightarrow> budget_class \<Rightarrow> nat \<Rightarrow> bool" where
  "budget_open l c bytes \<longleftrightarrow>
     \<not> (class_waits l c \<or> c = IntakeClass \<and> class_waits l WorkClass) \<and> budget_fits l c bytes"

definition reserve :: "budget_class \<Rightarrow> nat \<Rightarrow> ledger \<Rightarrow> ledger" where
  "reserve c bytes l =
     (let l' = set_held c (wadd (held l c) bytes) l
      in l'\<lparr>lg_peak := max (lg_peak l') (reserved l')\<rparr>)"

definition release :: "budget_class \<Rightarrow> nat \<Rightarrow> ledger \<Rightarrow> ledger" where
  "release c bytes l = set_held c (held l c - min bytes (held l c)) l"

definition press :: "ledger \<Rightarrow> ledger" where
  "press l =
     (let pressed = (lg_pressing l > 0 \<or> class_waits l WorkClass \<or> class_waits l IntakeClass);
          cursor_waits = (class_waits l CursorClass \<or> class_waits l TablesClass);
          sent = (if lg_pressed l = pressed then 0 else 1) + (if lg_cursor_waits l = cursor_waits then 0 else 1)
      in l\<lparr>lg_pressed := pressed, lg_cursor_waits := cursor_waits, lg_signals := sadd (lg_signals l) sent\<rparr>)"

definition queue_wait :: "budget_class \<Rightarrow> nat \<Rightarrow> ledger \<Rightarrow> ledger \<times> nat option" where
  "queue_wait c bytes l =
     (let number = lg_next l;
          l' = l\<lparr>lg_next := wadd (lg_next l) 1\<rparr>
      in if c \<notin> set WAITING then (l', None)
         else (press (l'\<lparr>lg_waiting := (lg_waiting l')(c := lg_waiting l' c @ [\<lparr>wt_id = number, wt_bytes = bytes\<rparr>])\<rparr>),
               Some number))"

definition open_wait :: "wait \<Rightarrow> nat \<Rightarrow> ledger \<Rightarrow> ledger \<times> nat" where
  "open_wait w began l =
     (l\<lparr>lg_opened := wadd (lg_opened l) 1, lg_under_way := lg_under_way l @ [(lg_opened l, w, began)]\<rparr>, lg_opened l)"

definition count_wait :: "wait \<Rightarrow> nat \<Rightarrow> ledger \<Rightarrow> ledger" where
  "count_wait w time l = l\<lparr>lg_waited := (lg_waited l)(w := waited_add time (lg_waited l w))\<rparr>"

fun remove_first :: "('a \<Rightarrow> bool) \<Rightarrow> 'a list \<Rightarrow> 'a list" where
  "remove_first P [] = []"
| "remove_first P (x # xs) = (if P x then xs else x # remove_first P xs)"

definition close_wait :: "wait \<Rightarrow> nat \<Rightarrow> nat \<Rightarrow> ledger \<Rightarrow> ledger" where
  "close_wait w number time l =
     count_wait w time (l\<lparr>lg_under_way := remove_first (\<lambda>(opened, _). opened = number) (lg_under_way l)\<rparr>)"

definition earliest :: "wait \<Rightarrow> ledger \<Rightarrow> nat option" where
  "earliest w l = map_option (\<lambda>(_, _, began). began) (find (\<lambda>(_, counted, _). counted = w) (lg_under_way l))"

definition forget :: "nat \<Rightarrow> ledger \<Rightarrow> ledger" where
  "forget number l =
     l\<lparr>lg_waiting := (\<lambda>c. if c \<in> set WAITING then filter (\<lambda>w. wt_id w \<noteq> number) (lg_waiting l c) else lg_waiting l c)\<rparr>"

record exhausted_refusal =
  ex_what :: string
  ex_asked :: nat
  ex_capacity :: nat
  ex_intake :: nat
  ex_work :: nat
  ex_cursors :: nat
  ex_tables :: nat
  ex_reads :: nat
  ex_control :: nat
  ex_waited :: nat

definition exhausted :: "ledger \<Rightarrow> budget_class \<Rightarrow> nat \<Rightarrow> nat \<Rightarrow> exhausted_refusal" where
  "exhausted l c asked time =
     \<lparr>ex_what = class_what c, ex_asked = asked, ex_capacity = lg_capacity l,
      ex_intake = lg_intake l, ex_work = lg_work l, ex_cursors = lg_cursors l, ex_tables = lg_tables l,
      ex_reads = lg_reads l, ex_control = lg_control l, ex_waited = time\<rparr>"

definition pressing :: "bool \<Rightarrow> ledger \<Rightarrow> ledger" where
  "pressing up l = press (l\<lparr>lg_pressing := (if up then wadd (lg_pressing l) 1 else lg_pressing l - 1)\<rparr>)"

fun next_in :: "budget_class list \<Rightarrow> ledger \<Rightarrow> (budget_class \<times> waiter \<times> ledger) option" where
  "next_in [] l = None"
| "next_in (c # cs) l =
     (case lg_waiting l c of
        front # rest \<Rightarrow>
          if budget_fits l c (wt_bytes front)
          then Some (c, front, l\<lparr>lg_waiting := (lg_waiting l)(c := rest)\<rparr>)
          else if c = WorkClass then None
          else next_in cs l
      | [] \<Rightarrow> next_in cs l)"

definition next_waiter :: "ledger \<Rightarrow> (budget_class \<times> waiter \<times> ledger) option" where
  "next_waiter = next_in WAITING"

definition waiting_count :: "ledger \<Rightarrow> nat" where
  "waiting_count l = sum_list (map (\<lambda>c. length (lg_waiting l c)) WAITING)"

type_synonym delivery = "nat \<times> budget_class \<times> nat"

definition send_to :: "(nat \<Rightarrow> bool) \<Rightarrow> budget_class \<Rightarrow> waiter \<Rightarrow> ledger \<Rightarrow> ledger \<times> delivery list" where
  "send_to gone c w l =
     (let peak = lg_peak l;
          l' = reserve c (wt_bytes w) l
      in if gone (wt_id w) then ((release c (wt_bytes w) l')\<lparr>lg_peak := peak\<rparr>, [])
         else (l', [(wt_id w, c, wt_bytes w)]))"

lemma set_held_waiting [simp]: "lg_waiting (set_held c v l) = lg_waiting l"
  by (cases c) simp_all

lemma send_to_waiting [simp]: "lg_waiting (fst (send_to gone c w l)) = lg_waiting l"
  by (simp add: send_to_def Let_def reserve_def release_def)

lemma next_in_pops:
  "next_in cs l = Some (c, w, l') \<Longrightarrow>
   c \<in> set cs \<and> budget_fits l c (wt_bytes w) \<and>
   (\<exists>rest. lg_waiting l c = w # rest \<and> l' = l\<lparr>lg_waiting := (lg_waiting l)(c := rest)\<rparr>)"
  by (induction cs l rule: next_in.induct) (auto split: list.splits if_splits)

lemma waiting_count_pop:
  assumes "next_waiter l = Some (c, w, l')"
  shows "waiting_count l' < waiting_count l"
proof -
  obtain rest where "c \<in> set WAITING" "lg_waiting l c = w # rest" "l' = l\<lparr>lg_waiting := (lg_waiting l)(c := rest)\<rparr>"
    using next_in_pops [OF assms [unfolded next_waiter_def]] by blast
  then show ?thesis by (auto simp: waiting_count_def WAITING_def)
qed

lemma waiting_count_cong: "lg_waiting l = lg_waiting l' \<Longrightarrow> waiting_count l = waiting_count l'"
  by (simp add: waiting_count_def)

lemma send_to_count: "(l1, sent) = send_to gone c w l \<Longrightarrow> waiting_count l1 = waiting_count l"
  using send_to_waiting [of gone c w l] by (metis fst_conv waiting_count_cong)

function admit_loop :: "(nat \<Rightarrow> bool) \<Rightarrow> ledger \<Rightarrow> ledger \<times> delivery list" where
  "admit_loop gone l =
     (case next_waiter l of
        None \<Rightarrow> (l, [])
      | Some (c, w, l') \<Rightarrow>
          let (l1, sent) = send_to gone c w l';
              (l2, rest) = admit_loop gone l1
          in (l2, sent @ rest))"
  by pat_completeness auto

termination
  by (relation "measure (waiting_count \<circ> snd)") (auto dest!: waiting_count_pop send_to_count)

declare admit_loop.simps [simp del]

definition admit_waiting :: "(nat \<Rightarrow> bool) \<Rightarrow> ledger \<Rightarrow> ledger \<times> delivery list" where
  "admit_waiting gone l = (let (l', sent) = admit_loop gone l in (press l', sent))"

subsection \<open>The shares add up\<close>

lemma div_parts:
  "64 * (capacity div 64) \<le> capacity" "32 * (capacity div 32) \<le> capacity" "16 * (capacity div 16) \<le> capacity"
  "4 * (capacity div 4) \<le> capacity" "capacity < 4 * (capacity div 4) + 4" "capacity < 16 * (capacity div 16) + 16"
  "capacity \<le> 4 * (capacity div 4) + 3" "capacity \<le> 16 * (capacity div 16) + 15"
  for capacity :: nat
  using dividend_less_times_div [of 4 capacity] dividend_less_times_div [of 16 capacity] by simp_all

lemma parts_le: "64 * a \<le> c \<Longrightarrow> 32 * b \<le> c \<Longrightarrow> 16 * d \<le> c \<Longrightarrow> 4 * e \<le> c \<Longrightarrow> a + b + 2 * e + d \<le> c"
  for a b c d e :: nat
  by linarith

lemma shares_parts:
  "capacity div 64 + capacity div 32 + 2 * (capacity div 4) + capacity div 16 \<le> capacity" for capacity :: nat
  by (rule parts_le) (rule div_parts)+

lemma min_left_room: "a + b + 2 * e + d \<le> c \<Longrightarrow> min e (c - a - b - e - d) = e" for a b c d e :: nat
  by simp

lemma data_room:
  "a + b + 2 * e + d \<le> c \<Longrightarrow> c - a - b - e - d + a + b + d + e = c"
  "a + b + 2 * e + d \<le> c \<Longrightarrow> c - a - b - e - d - e + e = c - a - b - e - d" for a b c d e :: nat
  by simp_all

lemma shares_form:
  obtains a b d e where "64 * a \<le> capacity" "32 * b \<le> capacity" "16 * d \<le> capacity" "4 * e \<le> capacity"
    "capacity \<le> 4 * e + 3" "capacity \<le> 16 * d + 15"
    "sh_cursors (shares_of capacity) = a" "sh_tables (shares_of capacity) = b" "sh_control (shares_of capacity) = d"
    "sh_reads (shares_of capacity) = e" "sh_request (shares_of capacity) = e"
    "sh_data (shares_of capacity) + a + b + d + e = capacity"
    "sh_intake (shares_of capacity) + e = sh_data (shares_of capacity)"
    "sh_piece (shares_of capacity) \<le> e"
proof -
  let ?a = "capacity div 64" and ?b = "capacity div 32" and ?d = "capacity div 16" and ?e = "capacity div 4"
  note sum = shares_parts [of capacity]
  have request: "min ?e (capacity - ?a - ?b - ?e - ?d) = ?e" using min_left_room [OF sum] .
  have eqs: "sh_cursors (shares_of capacity) = ?a" "sh_tables (shares_of capacity) = ?b"
    "sh_control (shares_of capacity) = ?d" "sh_reads (shares_of capacity) = ?e" "sh_request (shares_of capacity) = ?e"
    "sh_data (shares_of capacity) = capacity - ?a - ?b - ?e - ?d"
    "sh_intake (shares_of capacity) = capacity - ?a - ?b - ?e - ?d - ?e"
    unfolding shares_of_def Let_def share_constants by (simp_all only: shares.simps request)
  have piece: "sh_piece (shares_of capacity) \<le> ?e"
    unfolding shares_of_def Let_def share_constants by (simp only: shares.simps request min.cobounded2)
  note arith = data_room [OF sum]
  show ?thesis
    using arith by (intro that [OF div_parts(1,2,3,4,7,8) eqs(1-5) _ _ piece]) (simp_all only: eqs)
qed

lemma shares_sum:
  "sh_cursors (shares_of capacity) + sh_tables (shares_of capacity) + sh_reads (shares_of capacity) +
     sh_control (shares_of capacity) + sh_data (shares_of capacity) = capacity"
  "sh_intake (shares_of capacity) + sh_request (shares_of capacity) = sh_data (shares_of capacity)"
  by (rule shares_form [of capacity], simp)+

lemma shares_wide:
  assumes "capacity \<le> U64_MAX"
  shows "2 * sh_intake (shares_of capacity) \<le> U64_MAX" "sh_data (shares_of capacity) + sh_request (shares_of capacity) \<le> U64_MAX"
    "2 * sh_cursors (shares_of capacity) \<le> U64_MAX" "2 * sh_tables (shares_of capacity) \<le> U64_MAX"
    "2 * sh_reads (shares_of capacity) \<le> U64_MAX" "2 * sh_control (shares_of capacity) \<le> U64_MAX"
    "sh_data (shares_of capacity) < U64_MAX"
proof -
  obtain a b d e where form: "64 * a \<le> capacity" "32 * b \<le> capacity" "16 * d \<le> capacity" "4 * e \<le> capacity"
    "capacity \<le> 4 * e + 3" "capacity \<le> 16 * d + 15" and eqs:
    "sh_cursors (shares_of capacity) = a" "sh_tables (shares_of capacity) = b" "sh_control (shares_of capacity) = d"
    "sh_reads (shares_of capacity) = e" "sh_request (shares_of capacity) = e" and
    data: "sh_data (shares_of capacity) + a + b + d + e = capacity"
    "sh_intake (shares_of capacity) + e = sh_data (shares_of capacity)"
    by (rule shares_form [of capacity])
  have wide: "40 \<le> U64_MAX" by (simp add: U64_MAX_def)
  show "sh_data (shares_of capacity) + sh_request (shares_of capacity) \<le> U64_MAX"
    "2 * sh_cursors (shares_of capacity) \<le> U64_MAX" "2 * sh_tables (shares_of capacity) \<le> U64_MAX"
    "2 * sh_reads (shares_of capacity) \<le> U64_MAX" "2 * sh_control (shares_of capacity) \<le> U64_MAX"
    unfolding eqs using form data assms by linarith+
  show "sh_data (shares_of capacity) < U64_MAX"
    using form(5) data(1) assms wide by linarith
  have "2 * sh_intake (shares_of capacity) + 2 * d \<le> capacity + 3"
    using form(5) data by linarith
  then show "2 * sh_intake (shares_of capacity) \<le> U64_MAX"
    using form(6) assms wide by linarith
qed

end
