(* ===== verification/Budget.thy ===== *)
theory Budget
  imports Ledger
begin

text \<open>
  The memory budget over its ledger (\<open>crates/rdlt-engine/src/budget.rs\<close>): requests, what reads keep,
  reservations and how they shrink, split and are lent, and the requests that stop waiting. A budget is
  its ledger with the reservations not yet dropped; each step is what one holder does under the lock.
  The budget's shares are never passed, its waiters never wait for room that is there, and once what is
  held is released none is left waiting.
\<close>

subsection \<open>Requests\<close>

datatype denied = DeniedTooLarge too_large_refusal | DeniedExhausted exhausted_refusal

text \<open>What a request becomes under the lock: reserved at once, or parked at its place among the
  waiters and among the waits under way.\<close>

datatype asked = Granted | Parked nat nat

definition request :: "wait \<Rightarrow> nat \<Rightarrow> nat \<Rightarrow> ledger \<Rightarrow> ledger \<times> (denied + asked)" where
  "request w bytes began l =
     (let c = wait_class w
      in case too_large l c bytes of
           Some refused \<Rightarrow> (l, Inl (DeniedTooLarge refused))
         | None \<Rightarrow>
             if budget_open l c bytes then (reserve c bytes l, Inr Granted)
             else (case queue_wait c bytes l of
                     (l', None) \<Rightarrow> (l', Inl (DeniedExhausted (exhausted l' c bytes 0)))
                   | (l', Some place) \<Rightarrow>
                       let (l'', wait_place) = open_wait w began l'
                       in (l'', Inr (Parked place wait_place))))"

definition try_acquire_working :: "nat \<Rightarrow> ledger \<Rightarrow> ledger \<times> bool" where
  "try_acquire_working bytes l =
     (if too_large l WorkClass bytes = None \<and> budget_open l WorkClass bytes
      then (reserve WorkClass bytes l, True) else (l, False))"

definition keep :: "nat \<Rightarrow> ledger \<Rightarrow> ledger \<times> (too_large_refusal + unit)" where
  "keep bytes l =
     (if \<not> budget_open l ReadClass bytes
      then (l, Inl \<lparr>tl_what = ''what reads keep'', tl_asked = bytes, tl_limit = sh_reads (lg_shares l)\<rparr>)
      else let l' = reserve ReadClass bytes l
           in (l'\<lparr>lg_kept_peak := max (lg_kept_peak l') (lg_reads l')\<rparr>, Inr ()))"

text \<open>A request that stops waiting gives up its place, and whoever waited behind it may fit.\<close>

definition give_up :: "(nat \<Rightarrow> bool) \<Rightarrow> nat \<Rightarrow> ledger \<Rightarrow> ledger \<times> delivery list" where
  "give_up gone place l = admit_waiting gone (forget place l)"

definition home_release :: "(nat \<Rightarrow> bool) \<Rightarrow> budget_class \<Rightarrow> nat \<Rightarrow> ledger \<Rightarrow> ledger \<times> delivery list" where
  "home_release gone c bytes l = admit_waiting gone (release c bytes l)"

subsection \<open>Reservations\<close>

record reservation =
  rs_class :: budget_class
  rs_bytes :: nat

definition shrink :: "(nat \<Rightarrow> bool) \<Rightarrow> nat \<Rightarrow> reservation \<Rightarrow> ledger \<Rightarrow> (ledger \<times> delivery list) \<times> reservation" where
  "shrink gone bytes r l =
     (if bytes \<ge> rs_bytes r then ((l, []), r)
      else (home_release gone (rs_class r) (rs_bytes r - bytes) l, r\<lparr>rs_bytes := bytes\<rparr>))"

definition reservation_split :: "nat \<Rightarrow> reservation \<Rightarrow> reservation \<times> reservation" where
  "reservation_split bytes r =
     (let taken = min bytes (rs_bytes r)
      in (r\<lparr>rs_bytes := rs_bytes r - taken\<rparr>, r\<lparr>rs_bytes := taken\<rparr>))"

definition delivered :: "delivery list \<Rightarrow> reservation list" where
  "delivered = map (\<lambda>(_, c, bytes). \<lparr>rs_class = c, rs_bytes = bytes\<rparr>)"

subsection \<open>A budget and its holders\<close>

record budget =
  bu_ledger :: ledger
  bu_held :: "reservation list"

definition budget_new :: "nat \<Rightarrow> budget" where
  "budget_new capacity = \<lparr>bu_ledger = ledger_new capacity, bu_held = []\<rparr>"

inductive budget_step :: "budget \<Rightarrow> budget \<Rightarrow> bool" where
  granted: "request w bytes began (bu_ledger b) = (l, Inr Granted) \<Longrightarrow>
    budget_step b \<lparr>bu_ledger = l, bu_held = \<lparr>rs_class = wait_class w, rs_bytes = bytes\<rparr> # bu_held b\<rparr>"
| parked: "request w bytes began (bu_ledger b) = (l, Inr (Parked place wait_place)) \<Longrightarrow>
    budget_step b (b\<lparr>bu_ledger := l\<rparr>)"
| denied: "request w bytes began (bu_ledger b) = (l, Inl err) \<Longrightarrow> budget_step b (b\<lparr>bu_ledger := l\<rparr>)"
| worked: "try_acquire_working bytes (bu_ledger b) = (l, True) \<Longrightarrow>
    budget_step b \<lparr>bu_ledger = l, bu_held = \<lparr>rs_class = WorkClass, rs_bytes = bytes\<rparr> # bu_held b\<rparr>"
| kept: "bytes \<le> sh_reads (lg_shares (bu_ledger b)) \<Longrightarrow> keep bytes (bu_ledger b) = (l, Inr ()) \<Longrightarrow>
    budget_step b \<lparr>bu_ledger = l, bu_held = \<lparr>rs_class = ReadClass, rs_bytes = bytes\<rparr> # bu_held b\<rparr>"
| shrunk: "bu_held b = before @ r # after \<Longrightarrow> shrink gone bytes r (bu_ledger b) = ((l, sent), r') \<Longrightarrow>
    budget_step b \<lparr>bu_ledger = l, bu_held = before @ r' # after @ delivered sent\<rparr>"
| parted: "bu_held b = before @ r # after \<Longrightarrow> reservation_split bytes r = (r1, r2) \<Longrightarrow>
    budget_step b (b\<lparr>bu_held := before @ r1 # r2 # after\<rparr>)"
| dropped: "bu_held b = before @ r # after \<Longrightarrow>
    home_release gone (rs_class r) (rs_bytes r) (bu_ledger b) = (l, sent) \<Longrightarrow>
    budget_step b \<lparr>bu_ledger = l, bu_held = before @ after @ delivered sent\<rparr>"
| gave_up: "give_up gone place (bu_ledger b) = (l, sent) \<Longrightarrow>
    budget_step b \<lparr>bu_ledger = l, bu_held = bu_held b @ delivered sent\<rparr>"
| pressed: "budget_step b (b\<lparr>bu_ledger := pressing up (bu_ledger b)\<rparr>)"
| counted: "budget_step b (b\<lparr>bu_ledger := close_wait w place time (bu_ledger b)\<rparr>)"

inductive budget_reachable :: "nat \<Rightarrow> budget \<Rightarrow> bool" for capacity where
  start: "budget_reachable capacity (budget_new capacity)"
| step: "budget_reachable capacity b \<Longrightarrow> budget_step b b' \<Longrightarrow> budget_reachable capacity b'"

subsection \<open>Room\<close>

definition within :: "ledger \<Rightarrow> bool" where
  "within l \<longleftrightarrow> lg_shares l = shares_of (lg_capacity l) \<and> lg_capacity l \<le> U64_MAX \<and>
     lg_intake l \<le> sh_intake (lg_shares l) \<and> lg_intake l + lg_work l \<le> sh_data (lg_shares l) \<and>
     lg_cursors l \<le> sh_cursors (lg_shares l) \<and> lg_tables l \<le> sh_tables (lg_shares l) \<and>
     lg_reads l \<le> sh_reads (lg_shares l) \<and> lg_control l \<le> sh_control (lg_shares l)"

fun room :: "ledger \<Rightarrow> budget_class \<Rightarrow> nat" where
  "room l IntakeClass = min (sh_intake (lg_shares l) - lg_intake l) (sh_data (lg_shares l) - (lg_intake l + lg_work l))"
| "room l WorkClass = sh_data (lg_shares l) - (lg_intake l + lg_work l)"
| "room l c = class_limit l c - held l c"

lemma withinD:
  assumes "within l"
  shows "lg_shares l = shares_of (lg_capacity l)" "lg_capacity l \<le> U64_MAX" "lg_intake l \<le> sh_intake (lg_shares l)"
    "lg_intake l + lg_work l \<le> sh_data (lg_shares l)" "lg_cursors l \<le> sh_cursors (lg_shares l)"
    "lg_tables l \<le> sh_tables (lg_shares l)" "lg_reads l \<le> sh_reads (lg_shares l)" "lg_control l \<le> sh_control (lg_shares l)"
  using assms unfolding within_def by blast+

lemma within_wide:
  assumes "within l"
  shows "2 * sh_intake (lg_shares l) \<le> U64_MAX" "sh_data (lg_shares l) + sh_request (lg_shares l) \<le> U64_MAX"
    "2 * sh_cursors (lg_shares l) \<le> U64_MAX" "2 * sh_tables (lg_shares l) \<le> U64_MAX" "2 * sh_reads (lg_shares l) \<le> U64_MAX"
    "2 * sh_control (lg_shares l) \<le> U64_MAX" "sh_data (lg_shares l) < U64_MAX"
    "sh_cursors (lg_shares l) + sh_tables (lg_shares l) + sh_reads (lg_shares l) + sh_control (lg_shares l) +
       sh_data (lg_shares l) = lg_capacity l"
    "sh_intake (lg_shares l) + sh_request (lg_shares l) = sh_data (lg_shares l)"
  unfolding withinD(1) [OF assms] using shares_wide [OF withinD(2) [OF assms]] shares_sum [of "lg_capacity l"] by simp_all

lemma wadd_le: "a \<le> m \<Longrightarrow> b \<le> m \<Longrightarrow> 2 * m \<le> U64_MAX \<Longrightarrow> wadd a b = a + b"
  by (rule wadd_exact) linarith

lemma fits_room:
  assumes "within l" and "bytes \<le> class_limit l c"
  shows "budget_fits l c bytes \<longleftrightarrow> bytes \<le> room l c"
proof -
  note d = withinD(3-8) [OF assms(1)] and wide = within_wide [OF assms(1)]
  have data: "wadd (lg_intake l) (lg_work l) = lg_intake l + lg_work l"
    using d(2) wide(7) by (intro wadd_exact) linarith
  show ?thesis
  proof (cases c)
    case IntakeClass
    then have "wadd (lg_intake l) bytes = lg_intake l + bytes" using assms(2) wadd_le [OF d(1) _ wide(1)] by simp
    then show ?thesis
      using IntakeClass d data sadd_le_iff [OF wide(7), of "lg_intake l + lg_work l" bytes] by auto
  next
    case WorkClass
    then have "wadd (lg_intake l + lg_work l) bytes = lg_intake l + lg_work l + bytes"
      using assms(2) wide(2) d(2) by (intro wadd_exact) simp
    then show ?thesis using WorkClass d data by auto
  next
    case CursorClass
    then show ?thesis using assms(2) d wadd_le [OF d(3) _ wide(3), of bytes] by auto
  next
    case TablesClass
    then show ?thesis using assms(2) d wadd_le [OF d(4) _ wide(4), of bytes] by auto
  next
    case ReadClass
    then show ?thesis using assms(2) d wadd_le [OF d(5) _ wide(5), of bytes] by auto
  next
    case ControlClass
    then show ?thesis using assms(2) d wadd_le [OF d(6) _ wide(6), of bytes] by auto
  qed
qed

lemma set_held_frame [simp]:
  "held (set_held c v l) c' = (if c' = c then v else held l c')" "lg_shares (set_held c v l) = lg_shares l"
  "lg_capacity (set_held c v l) = lg_capacity l" "lg_peak (set_held c v l) = lg_peak l"
  "lg_pressing (set_held c v l) = lg_pressing l" "lg_pressed (set_held c v l) = lg_pressed l"
  "lg_cursor_waits (set_held c v l) = lg_cursor_waits l"
  by (cases c; cases c'; simp)+

lemma within_held:
  "within l \<longleftrightarrow> lg_shares l = shares_of (lg_capacity l) \<and> lg_capacity l \<le> U64_MAX \<and>
     held l IntakeClass \<le> sh_intake (lg_shares l) \<and> held l IntakeClass + held l WorkClass \<le> sh_data (lg_shares l) \<and>
     held l CursorClass \<le> sh_cursors (lg_shares l) \<and> held l TablesClass \<le> sh_tables (lg_shares l) \<and>
     held l ReadClass \<le> sh_reads (lg_shares l) \<and> held l ControlClass \<le> sh_control (lg_shares l)"
  by (simp add: within_def)

lemma within_more:
  assumes "within l" and "bytes \<le> room l c"
  shows "within (set_held c (held l c + bytes) l)"
  using assms(2) withinD [OF assms(1)] unfolding within_held by (cases c) auto

lemma within_less:
  assumes "within l" and "v \<le> held l c"
  shows "within (set_held c v l)"
  using assms(2) withinD [OF assms(1)] unfolding within_held by (cases c) simp_all

lemma within_cong:
  "held l = held l' \<Longrightarrow> lg_shares l = lg_shares l' \<Longrightarrow> lg_capacity l = lg_capacity l' \<Longrightarrow> within l \<longleftrightarrow> within l'"
  by (simp add: within_held)

lemma held_all: "held l c \<le> lg_capacity l" "reserved l = lg_intake l + lg_work l + lg_cursors l + lg_tables l + lg_reads l + lg_control l"
  "reserved l \<le> lg_capacity l" if "within l"
proof -
  note d = withinD [OF that] and wide = within_wide [OF that]
  have sum: "lg_intake l + lg_work l + lg_cursors l + lg_tables l + lg_reads l + lg_control l \<le> lg_capacity l"
    using d(4-8) wide(8) by linarith
  then show "held l c \<le> lg_capacity l" by (cases c) simp_all
  show "reserved l = lg_intake l + lg_work l + lg_cursors l + lg_tables l + lg_reads l + lg_control l"
    unfolding reserved_def using sum d(2) by (simp add: wadd_exact)
  with sum show "reserved l \<le> lg_capacity l" by simp
qed

lemma held_more: "within l \<Longrightarrow> bytes \<le> room l c \<Longrightarrow> held l c + bytes \<le> U64_MAX"
  using held_all(1) [OF within_more, of l bytes c c] withinD(2) by fastforce


subsection \<open>The invariant\<close>

definition held_by :: "reservation list \<Rightarrow> budget_class \<Rightarrow> nat" where
  "held_by rs c = sum_list (map rs_bytes (filter (\<lambda>r. rs_class r = c) rs))"

definition accounted :: "ledger \<Rightarrow> reservation list \<Rightarrow> bool" where
  "accounted l rs \<longleftrightarrow> (\<forall>c. held l c = held_by rs c)"

definition waiters_ok :: "ledger \<Rightarrow> bool" where
  "waiters_ok l \<longleftrightarrow> (\<forall>c. \<forall>w\<in>set (lg_waiting l c). wt_bytes w \<le> class_limit l c) \<and> lg_waiting l ReadClass = []"

definition ledger_ok :: "ledger \<Rightarrow> bool" where
  "ledger_ok l \<longleftrightarrow> within l \<and> waiters_ok l \<and> reserved l \<le> lg_peak l \<and> lg_peak l \<le> lg_capacity l"

definition signalled :: "ledger \<Rightarrow> bool" where
  "signalled l \<longleftrightarrow> lg_pressed l = (lg_pressing l > 0 \<or> class_waits l WorkClass \<or> class_waits l IntakeClass) \<and>
     lg_cursor_waits l = (class_waits l CursorClass \<or> class_waits l TablesClass)"

lemma held_by_simps [simp]:
  "held_by [] c = 0" "held_by (r # rs) c = (if rs_class r = c then rs_bytes r else 0) + held_by rs c"
  "held_by (rs @ rs') c = held_by rs c + held_by rs' c"
  by (simp_all add: held_by_def)

lemma class_limit_cong: "lg_shares l = lg_shares l' \<Longrightarrow> class_limit l c = class_limit l' c"
  by (cases c) simp_all

lemma waiters_ok_cong:
  "lg_shares l' = lg_shares l \<Longrightarrow> lg_waiting l' = lg_waiting l \<Longrightarrow> waiters_ok l' = waiters_ok l"
  unfolding waiters_ok_def using class_limit_cong [of l' l] by simp

lemma reserve_frame [simp]:
  "lg_shares (reserve c bytes l) = lg_shares l" "lg_capacity (reserve c bytes l) = lg_capacity l"
  "lg_waiting (reserve c bytes l) = lg_waiting l" "lg_pressing (reserve c bytes l) = lg_pressing l"
  "lg_pressed (reserve c bytes l) = lg_pressed l" "lg_cursor_waits (reserve c bytes l) = lg_cursor_waits l"
  by (simp_all add: reserve_def Let_def)

lemma release_frame [simp]:
  "lg_shares (release c bytes l) = lg_shares l" "lg_capacity (release c bytes l) = lg_capacity l"
  "lg_waiting (release c bytes l) = lg_waiting l" "lg_peak (release c bytes l) = lg_peak l"
  "held (release c bytes l) c' = (if c' = c then held l c - min bytes (held l c) else held l c')"
  by (simp_all add: release_def)

lemma held_peak [simp]: "held (l\<lparr>lg_peak := v\<rparr>) c = held l c" "reserved (l\<lparr>lg_peak := v\<rparr>) = reserved l"
  "within (l\<lparr>lg_peak := v\<rparr>) = within l"
  by (cases c; simp) (simp_all add: reserved_def within_def)

lemma reserve_held:
  assumes "within l" and "bytes \<le> room l c"
  shows "held (reserve c bytes l) c' = held l c' + (if c' = c then bytes else 0)" and "within (reserve c bytes l)"
  using held_more [OF assms] within_more [OF assms] by (simp_all add: reserve_def Let_def wadd_exact)

lemma reserve_ok:
  assumes "ledger_ok l" and "bytes \<le> room l c"
  shows "ledger_ok (reserve c bytes l)"
proof -
  have within: "within l" using assms(1) by (simp add: ledger_ok_def)
  let ?l = "set_held c (held l c + bytes) l"
  have l: "reserve c bytes l = ?l\<lparr>lg_peak := max (lg_peak ?l) (reserved ?l)\<rparr>"
    using held_more [OF within assms(2)] by (simp add: reserve_def Let_def wadd_exact)
  have "reserved ?l \<le> lg_capacity ?l" by (rule held_all(3) [OF within_more [OF within assms(2)]])
  then show ?thesis
    using assms(1) within_more [OF within assms(2)] waiters_ok_cong [of ?l l]
    unfolding ledger_ok_def l by (simp add: waiters_ok_cong [of "?l\<lparr>lg_peak := _\<rparr>" ?l])
qed

lemma release_within: "within l \<Longrightarrow> within (release c bytes l)"
  by (simp add: release_def within_less)

lemma reserved_mono:
  assumes "within l" and "within l'" and "\<And>c. held l c \<le> held l' c"
  shows "reserved l \<le> reserved l'"
  unfolding held_all(2) [OF assms(1)] held_all(2) [OF assms(2)]
  using assms(3) [of IntakeClass] assms(3) [of WorkClass] assms(3) [of CursorClass] assms(3) [of TablesClass]
    assms(3) [of ReadClass] assms(3) [of ControlClass] by simp

lemma release_ok:
  assumes "ledger_ok l"
  shows "ledger_ok (release c bytes l)"
proof -
  have within: "within l" using assms by (simp add: ledger_ok_def)
  have "reserved (release c bytes l) \<le> reserved l"
    by (rule reserved_mono [OF release_within [OF within] within]) simp
  then show ?thesis
    using assms release_within [OF within] waiters_ok_cong [of "release c bytes l" l] by (simp add: ledger_ok_def)
qed


subsection \<open>Admitting waiters\<close>

lemma held_waiting [simp]: "held (l\<lparr>lg_waiting := q\<rparr>) c = held l c" "reserved (l\<lparr>lg_waiting := q\<rparr>) = reserved l"
  "within (l\<lparr>lg_waiting := q\<rparr>) = within l" "room (l\<lparr>lg_waiting := q\<rparr>) c = room l c"
  "class_limit (l\<lparr>lg_waiting := q\<rparr>) c = class_limit l c"
  by (cases c; simp) (simp_all add: reserved_def within_def, (cases c; simp)+)

lemma popped:
  assumes "next_waiter l = Some (c, w, l')" and "ledger_ok l" and "accounted l rs"
  shows "ledger_ok l'" "accounted l' rs" "wt_bytes w \<le> room l' c"
proof -
  obtain rest where c: "budget_fits l c (wt_bytes w)" "lg_waiting l c = w # rest"
    and l': "l' = l\<lparr>lg_waiting := (lg_waiting l)(c := rest)\<rparr>"
    using next_in_pops [OF assms(1) [unfolded next_waiter_def]] by blast
  have ok: "within l" "waiters_ok l" using assms(2) by (simp_all add: ledger_ok_def)
  have "waiters_ok l'"
    using ok(2) c(2) unfolding waiters_ok_def l' by (auto split: if_splits)
  then show "ledger_ok l'" using assms(2) by (simp add: ledger_ok_def l')
  show "accounted l' rs" using assms(3) by (simp add: accounted_def l')
  have "wt_bytes w \<le> class_limit l c" using ok(2) c(2) by (simp add: waiters_ok_def)
  then show "wt_bytes w \<le> room l' c" using fits_room [OF ok(1)] c(1) by (simp add: l')
qed

lemma sent_ok:
  assumes "send_to gone c w l = (l', sent)" and "ledger_ok l" and "accounted l rs" and "wt_bytes w \<le> room l c"
  shows "ledger_ok l' \<and> accounted l' (rs @ delivered sent)"
proof -
  have within: "within l" using assms(2) by (simp add: ledger_ok_def)
  note held = reserve_held [OF within assms(4)] and ok = reserve_ok [OF assms(2,4)]
  show ?thesis
  proof (cases "gone (wt_id w)")
    case True
    let ?l = "release c (wt_bytes w) (reserve c (wt_bytes w) l)"
    have l': "l' = ?l\<lparr>lg_peak := lg_peak l\<rparr>" "sent = []"
      using assms(1) True by (simp_all add: send_to_def Let_def)
    have same: "held ?l k = held l k" for k using held(1) by simp
    have "within ?l" by (rule release_within [OF held(2)])
    moreover from this have "reserved ?l \<le> reserved l" using within by (rule reserved_mono) (simp only: same)
    moreover have "waiters_ok (?l\<lparr>lg_peak := lg_peak l\<rparr>)"
      using assms(2) waiters_ok_cong [of "?l\<lparr>lg_peak := lg_peak l\<rparr>" l] by (simp add: ledger_ok_def)
    ultimately have "ledger_ok l'" using assms(2) by (simp add: ledger_ok_def l')
    moreover have "accounted l' rs" using assms(3) same by (simp add: accounted_def l')
    ultimately show ?thesis by (simp add: l' delivered_def)
  next
    case False
    then have l': "l' = reserve c (wt_bytes w) l" "sent = [(wt_id w, c, wt_bytes w)]"
      using assms(1) by (simp_all add: send_to_def Let_def)
    then show ?thesis using ok assms(3) held(1) by (simp add: accounted_def delivered_def)
  qed
qed

lemma admit_loop_ok:
  "ledger_ok l \<Longrightarrow> accounted l rs \<Longrightarrow> admit_loop gone l = (l', sent) \<Longrightarrow>
   ledger_ok l' \<and> accounted l' (rs @ delivered sent) \<and> next_waiter l' = None"
proof (induction gone l arbitrary: rs l' sent rule: admit_loop.induct)
  case (1 gone l)
  show ?case
  proof (cases "next_waiter l")
    case None
    with 1(2-4) show ?thesis by (auto simp: delivered_def admit_loop.simps [of gone l])
  next
    case (Some x)
    obtain c w l0 where x: "x = (c, w, l0)" by (cases x)
    obtain l1 first where send: "send_to gone c w l0 = (l1, first)" by (cases "send_to gone c w l0")
    obtain l2 rest where loop: "admit_loop gone l1 = (l2, rest)" by (cases "admit_loop gone l1")
    have res: "l' = l2" "sent = first @ rest" using 1(4) Some x send loop by (simp_all add: admit_loop.simps [of gone l])
    note pop = popped [OF Some [unfolded x] 1(2,3)]
    note ok = sent_ok [OF send pop]
    from 1(1) [OF Some x [symmetric] refl refl send [symmetric] conjunct1 [OF ok] conjunct2 [OF ok] loop]
    show ?thesis by (simp add: res delivered_def)
  qed
qed


lemma press_frame [simp]:
  "held (press l) = held l" "lg_shares (press l) = lg_shares l" "lg_capacity (press l) = lg_capacity l"
  "lg_waiting (press l) = lg_waiting l" "lg_peak (press l) = lg_peak l" "lg_pressing (press l) = lg_pressing l"
  "reserved (press l) = reserved l"
proof -
  show "held (press l) = held l"
  proof
    fix c show "held (press l) c = held l c" by (cases c) (simp_all add: press_def Let_def)
  qed
qed (simp_all add: press_def Let_def reserved_def)

lemma class_waits_cong: "lg_waiting l' = lg_waiting l \<Longrightarrow> class_waits l' c = class_waits l c"
  by (simp add: class_waits_def)

lemma press_signalled: "signalled (press l)"
  unfolding signalled_def class_waits_cong [OF press_frame(4)] by (simp add: press_def Let_def)

text \<open>Two ledgers that differ at most in what is counted and signalled.\<close>

definition same_books :: "ledger \<Rightarrow> ledger \<Rightarrow> bool" where
  "same_books l l' \<longleftrightarrow> held l' = held l \<and> lg_shares l' = lg_shares l \<and> lg_capacity l' = lg_capacity l \<and>
     lg_waiting l' = lg_waiting l \<and> lg_peak l' = lg_peak l \<and> reserved l' = reserved l"

lemma fits_cong:
  assumes "held l' = held l" and "lg_shares l' = lg_shares l"
  shows "budget_fits l' c bytes = budget_fits l c bytes"
  using assms(2) fun_cong [OF assms(1), of IntakeClass] fun_cong [OF assms(1), of WorkClass]
    fun_cong [OF assms(1), of CursorClass] fun_cong [OF assms(1), of TablesClass]
    fun_cong [OF assms(1), of ReadClass] fun_cong [OF assms(1), of ControlClass]
  by (cases c) simp_all

definition blocked :: "ledger \<Rightarrow> budget_class \<Rightarrow> bool" where
  "blocked l c \<longleftrightarrow> (case lg_waiting l c of [] \<Rightarrow> True | w # _ \<Rightarrow> \<not> budget_fits l c (wt_bytes w))"

definition quiet :: "ledger \<Rightarrow> bool" where
  "quiet l \<longleftrightarrow> blocked l CursorClass \<and> blocked l TablesClass \<and> blocked l ControlClass \<and> blocked l WorkClass \<and>
     (lg_waiting l WorkClass = [] \<longrightarrow> blocked l IntakeClass)"

lemma next_in_blocked:
  "blocked l c \<Longrightarrow> next_in (c # cs) l = (if c = WorkClass \<and> lg_waiting l c \<noteq> [] then None else next_in cs l)"
  "\<not> blocked l c \<Longrightarrow> next_in (c # cs) l \<noteq> None"
  by (auto simp: blocked_def split: list.splits)

lemma next_in_step: "next_in (c # cs) l = None \<longleftrightarrow> blocked l c \<and> (c = WorkClass \<and> lg_waiting l c \<noteq> [] \<or> next_in cs l = None)"
  using next_in_blocked [of l c cs] by (cases "blocked l c") auto

lemma next_waiter_quiet: "next_waiter l = None \<longleftrightarrow> quiet l"
  unfolding next_waiter_def WAITING_def quiet_def next_in_step by auto

lemma same_books_ok:
  assumes "same_books l l'"
  shows "ledger_ok l' = ledger_ok l" "accounted l' rs = accounted l rs" "quiet l' = quiet l"
proof -
  note d = assms [unfolded same_books_def]
  show "ledger_ok l' = ledger_ok l"
    using d within_cong [of l' l] waiters_ok_cong [of l' l] by (simp add: ledger_ok_def)
  show "accounted l' rs = accounted l rs" using d by (simp add: accounted_def)
  have "blocked l' c = blocked l c" for c
    using d fits_cong [of l' l c] by (cases "lg_waiting l c") (simp_all add: blocked_def)
  then show "quiet l' = quiet l" using d by (simp add: quiet_def)
qed

lemma admit_waiting_ok:
  assumes "ledger_ok l" and "accounted l rs" and "admit_waiting gone l = (l', sent)"
  shows "ledger_ok l' \<and> accounted l' (rs @ delivered sent) \<and> quiet l' \<and> signalled l'"
proof -
  obtain l1 where l1: "admit_loop gone l = (l1, sent)" "l' = press l1"
    using assms(3) by (cases "admit_loop gone l") (simp add: admit_waiting_def)
  have "same_books l1 l'" by (simp add: same_books_def l1)
  with admit_loop_ok [OF assms(1,2) l1(1)] show ?thesis
    by (simp add: same_books_ok next_waiter_quiet press_signalled l1(2))
qed

lemma blocked_mono:
  assumes "within l" and "within l'" and "waiters_ok l" and "lg_waiting l' c = lg_waiting l c" and "lg_shares l' = lg_shares l"
    and "room l' c \<le> room l c" and "blocked l c"
  shows "blocked l' c"
proof (cases "lg_waiting l c")
  case (Cons w ws)
  have "wt_bytes w \<le> class_limit l c" using assms(3) Cons by (simp add: waiters_ok_def)
  moreover have "class_limit l' c = class_limit l c" by (rule class_limit_cong [OF assms(5)])
  ultimately show ?thesis
    using assms(4,6,7) Cons fits_room [OF assms(1), of "wt_bytes w" c] fits_room [OF assms(2), of "wt_bytes w" c]
    by (simp add: blocked_def)
qed (simp add: blocked_def assms(4))


subsection \<open>Every step keeps it\<close>

definition budget_inv :: "budget \<Rightarrow> bool" where
  "budget_inv b \<longleftrightarrow> ledger_ok (bu_ledger b) \<and> accounted (bu_ledger b) (bu_held b) \<and> quiet (bu_ledger b) \<and> signalled (bu_ledger b)"

lemma ledger_new_inv: "capacity \<le> U64_MAX \<Longrightarrow> budget_inv (budget_new capacity)"
proof -
  assume cap: "capacity \<le> U64_MAX"
  have held: "held (ledger_new capacity) c = 0" for c by (cases c) (simp_all add: ledger_new_def)
  have "within (ledger_new capacity)" using cap by (simp add: within_def ledger_new_def)
  then have "ledger_ok (ledger_new capacity)"
    using held_all(2) [of "ledger_new capacity"] by (simp add: ledger_ok_def waiters_ok_def) (simp add: ledger_new_def)
  moreover have "quiet (ledger_new capacity)" "signalled (ledger_new capacity)"
    by (simp_all add: quiet_def blocked_def signalled_def class_waits_def ledger_new_def)
  ultimately show ?thesis by (simp add: budget_inv_def budget_new_def accounted_def held)
qed

lemma room_held:
  assumes "held l' = (\<lambda>k. held l k + (if k = c then bytes else 0))" and "lg_shares l' = lg_shares l"
  shows "room l' k \<le> room l k"
proof -
  have "held l k \<le> held l' k" for k using assms(1) by simp
  from this [of IntakeClass] this [of WorkClass] this [of CursorClass] this [of TablesClass] this [of ReadClass]
    this [of ControlClass] show ?thesis
    using assms(2) by (cases k) (auto simp: min_le_iff_disj intro: diff_le_mono2)
qed

lemma reserve_inv:
  assumes "budget_inv b" and "bytes \<le> room (bu_ledger b) c"
  shows "budget_inv \<lparr>bu_ledger = reserve c bytes (bu_ledger b), bu_held = \<lparr>rs_class = c, rs_bytes = bytes\<rparr> # bu_held b\<rparr>"
proof -
  let ?l = "bu_ledger b"
  have ok: "ledger_ok ?l" "accounted ?l (bu_held b)" "quiet ?l" "signalled ?l" using assms(1) by (simp_all add: budget_inv_def)
  have within: "within ?l" "waiters_ok ?l" using ok(1) by (simp_all add: ledger_ok_def)
  note held = reserve_held [OF within(1) assms(2)]
  have less: "room (reserve c bytes ?l) k \<le> room ?l k" for k
    by (rule room_held [of _ ?l c bytes]) (use held(1) in auto)
  have "blocked (reserve c bytes ?l) k" if "blocked ?l k" for k
    by (rule blocked_mono [OF within(1) held(2) within(2) _ _ less that]) simp_all
  then have "quiet (reserve c bytes ?l)" using ok(3) by (simp add: quiet_def)
  moreover have "signalled (reserve c bytes ?l)"
    using ok(4) class_waits_cong [of "reserve c bytes ?l" ?l] by (simp add: signalled_def)
  ultimately show ?thesis
    using reserve_ok [OF ok(1) assms(2)] ok(2) held(1) by (simp add: budget_inv_def accounted_def)
qed

lemma same_books_inv:
  assumes "budget_inv b" and "same_books (bu_ledger b) l" and "signalled l"
  shows "budget_inv (b\<lparr>bu_ledger := l\<rparr>)"
  using assms by (simp add: budget_inv_def same_books_ok [OF assms(2)])

lemma signalled_cong:
  "lg_waiting l' = lg_waiting l \<Longrightarrow> lg_pressing l' = lg_pressing l \<Longrightarrow> lg_pressed l' = lg_pressed l \<Longrightarrow>
   lg_cursor_waits l' = lg_cursor_waits l \<Longrightarrow> signalled l' = signalled l"
  using class_waits_cong [of l' l] by (simp add: signalled_def)

lemma held_eqI:
  assumes "lg_intake l' = lg_intake l" "lg_work l' = lg_work l" "lg_cursors l' = lg_cursors l" "lg_tables l' = lg_tables l"
    "lg_reads l' = lg_reads l" "lg_control l' = lg_control l"
  shows "held l' = held l"
proof
  fix c show "held l' c = held l c" using assms by (cases c) simp_all
qed

lemma held_frame [simp]:
  "held (l\<lparr>lg_next := n\<rparr>) = held l" "held (l\<lparr>lg_opened := n\<rparr>) = held l"
  "held (l\<lparr>lg_pressing := n\<rparr>) = held l" "held (l\<lparr>lg_under_way := u\<rparr>) = held l" "held (l\<lparr>lg_waited := v\<rparr>) = held l"
  "held (l\<lparr>lg_kept_peak := n\<rparr>) = held l"
  by (rule held_eqI; simp)+

lemma reserved_pressing [simp]: "reserved (l\<lparr>lg_pressing := n\<rparr>) = reserved l"
  by (simp add: reserved_def)

lemma queue_wait_inv:
  assumes "budget_inv b" and "\<not> budget_open (bu_ledger b) c bytes" and "bytes \<le> class_limit (bu_ledger b) c"
    and "queue_wait c bytes (bu_ledger b) = (l', place)"
  shows "budget_inv (b\<lparr>bu_ledger := l'\<rparr>)"
proof (cases "c \<in> set WAITING")
  case False
  then have l': "l' = (bu_ledger b)\<lparr>lg_next := wadd (lg_next (bu_ledger b)) 1\<rparr>"
    using assms(4) by (simp add: queue_wait_def Let_def)
  show ?thesis
    using assms(1) signalled_cong [of l' "bu_ledger b"]
    by (intro same_books_inv [OF assms(1)]) (simp_all add: l' same_books_def reserved_def budget_inv_def)
next
  case True
  let ?l = "bu_ledger b"
  define w where "w = \<lparr>wt_id = lg_next ?l, wt_bytes = bytes\<rparr>"
  define m where "m = ?l\<lparr>lg_next := wadd (lg_next ?l) 1, lg_waiting := (lg_waiting ?l)(c := lg_waiting ?l c @ [w])\<rparr>"
  have l': "l' = press m" using assms(4) True by (simp add: queue_wait_def Let_def m_def w_def)
  have ok: "ledger_ok ?l" "accounted ?l (bu_held b)" "quiet ?l" using assms(1) by (simp_all add: budget_inv_def)
  have same: "held m = held ?l" "lg_shares m = lg_shares ?l" "reserved m = reserved ?l" "lg_capacity m = lg_capacity ?l"
    "lg_peak m = lg_peak ?l" by (simp_all add: m_def fun_eq_iff reserved_def) 
  have fits: "budget_fits m k n = budget_fits ?l k n" for k n by (rule fits_cong [OF same(1,2)])
  have lim: "class_limit m k = class_limit ?l k" for k by (rule class_limit_cong [OF same(2)])
  have waits: "lg_waiting m k = (if k = c then lg_waiting ?l c @ [w] else lg_waiting ?l k)" for k by (simp add: m_def)
  have read: "c \<noteq> ReadClass" using True by (auto simp: WAITING_def)
  have "waiters_ok m"
    using ok(1) assms(3) read by (auto simp: waiters_ok_def ledger_ok_def waits lim w_def)
  then have okm: "ledger_ok m" using ok(1) within_cong [OF same(1,2,4)] same by (simp add: ledger_ok_def)
  have still: "blocked m k" if "blocked ?l k" "lg_waiting ?l k \<noteq> []" for k
    using that by (cases "lg_waiting ?l k") (auto simp: blocked_def waits fits)
  have other: "blocked m k" if "blocked ?l k" "k \<noteq> c" for k
    using that by (cases "lg_waiting ?l k") (simp_all add: blocked_def waits fits)
  have unfit: "blocked m c" if "lg_waiting ?l c = []" "\<not> (c = IntakeClass \<and> lg_waiting ?l WorkClass \<noteq> [])"
    using that assms(2) True by (auto simp: blocked_def waits fits budget_open_def class_waits_def w_def WAITING_def)
  have "quiet m"
    using ok(3) still other unfit unfolding quiet_def waits
    by (cases c) (auto simp: blocked_def [of ?l] split: list.splits)
  with okm ok(2) same(1) show ?thesis
    unfolding budget_inv_def l'
    using same_books_ok [of m "press m"] by (simp add: same_books_def press_signalled accounted_def)
qed


lemma too_large_None: "too_large l c bytes = None \<longleftrightarrow> bytes \<le> class_limit l c"
  by (simp add: too_large_def Let_def)

lemma budget_open_room:
  assumes "budget_inv b" and "bytes \<le> class_limit (bu_ledger b) c" and "budget_open (bu_ledger b) c bytes"
  shows "bytes \<le> room (bu_ledger b) c"
  using assms fits_room [of "bu_ledger b" bytes c] by (simp add: budget_open_def budget_inv_def ledger_ok_def)

lemma open_wait_inv: "budget_inv b \<Longrightarrow> budget_inv (b\<lparr>bu_ledger := fst (open_wait w began (bu_ledger b))\<rparr>)"
  using signalled_cong [of "fst (open_wait w began (bu_ledger b))" "bu_ledger b"]
  by (intro same_books_inv) (simp_all add: open_wait_def same_books_def reserved_def budget_inv_def)

lemma close_wait_inv: "budget_inv b \<Longrightarrow> budget_inv (b\<lparr>bu_ledger := close_wait w place time (bu_ledger b)\<rparr>)"
  using signalled_cong [of "close_wait w place time (bu_ledger b)" "bu_ledger b"]
  by (intro same_books_inv) (simp_all add: close_wait_def count_wait_def same_books_def reserved_def budget_inv_def)

lemma pressing_inv: "budget_inv b \<Longrightarrow> budget_inv (b\<lparr>bu_ledger := pressing up (bu_ledger b)\<rparr>)"
  by (intro same_books_inv) (simp_all add: pressing_def press_signalled same_books_def)

lemma request_inv:
  assumes "budget_inv b" and "request w bytes began (bu_ledger b) = (l, res)"
  shows "budget_inv \<lparr>bu_ledger = l,
    bu_held = (if res = Inr Granted then [\<lparr>rs_class = wait_class w, rs_bytes = bytes\<rparr>] else []) @ bu_held b\<rparr>"
proof (cases "bytes \<le> class_limit (bu_ledger b) (wait_class w)")
  case False
  then obtain r where "too_large (bu_ledger b) (wait_class w) bytes = Some r" using too_large_None by blast
  then have "l = bu_ledger b" "res \<noteq> Inr Granted" using assms(2) by (auto simp: request_def Let_def)
  then show ?thesis using assms(1) by (simp add: budget_inv_def)
next
  case True
  then have small: "too_large (bu_ledger b) (wait_class w) bytes = None" by (simp add: too_large_None)
  show ?thesis
  proof (cases "budget_open (bu_ledger b) (wait_class w) bytes")
    case open': True
    from reserve_inv [OF assms(1) budget_open_room [OF assms(1) True open']] show ?thesis
      using assms(2) small open' by (auto simp: request_def Let_def)
  next
    case False
    obtain l1 place where q: "queue_wait (wait_class w) bytes (bu_ledger b) = (l1, place)"
      by (cases "queue_wait (wait_class w) bytes (bu_ledger b)")
    note inv = queue_wait_inv [OF assms(1) False True q]
    have "res \<noteq> Inr Granted" "l = l1 \<or> l = fst (open_wait w began l1)"
      using assms(2) small False q by (auto simp: request_def Let_def open_wait_def split: option.splits)
    then show ?thesis
      using inv open_wait_inv [OF inv, of w began] by (auto simp: budget_inv_def)
  qed
qed

lemma keep_inv:
  assumes "budget_inv b" and "bytes \<le> sh_reads (lg_shares (bu_ledger b))" and "keep bytes (bu_ledger b) = (l, Inr ())"
  shows "budget_inv \<lparr>bu_ledger = l, bu_held = \<lparr>rs_class = ReadClass, rs_bytes = bytes\<rparr> # bu_held b\<rparr>"
proof -
  have open': "budget_open (bu_ledger b) ReadClass bytes"
    and l: "l = (reserve ReadClass bytes (bu_ledger b))\<lparr>lg_kept_peak := max (lg_kept_peak (reserve ReadClass bytes (bu_ledger b)))
      (lg_reads (reserve ReadClass bytes (bu_ledger b)))\<rparr>"
    using assms(3) by (auto simp: keep_def Let_def split: if_splits)
  have "bytes \<le> room (bu_ledger b) ReadClass"
    using budget_open_room [OF assms(1) _ open'] assms(2) by simp
  note inv = reserve_inv [OF assms(1) this]
  have "signalled l" using inv signalled_cong [of l "reserve ReadClass bytes (bu_ledger b)"] by (simp add: l budget_inv_def)
  from same_books_inv [OF inv _ this] show ?thesis by (simp add: l same_books_def reserved_def)
qed

lemma released_inv:
  assumes "budget_inv b" and "bu_held b = before @ r # after" and "bytes \<le> rs_bytes r"
    and "home_release gone (rs_class r) bytes (bu_ledger b) = (l, sent)"
  shows "budget_inv \<lparr>bu_ledger = l, bu_held = before @ r\<lparr>rs_bytes := rs_bytes r - bytes\<rparr> # after @ delivered sent\<rparr>"
proof -
  let ?l = "release (rs_class r) bytes (bu_ledger b)"
  have held: "held (bu_ledger b) c = held_by (before @ r # after) c" for c
    using assms(1,2) by (simp add: budget_inv_def accounted_def)
  have "accounted ?l (before @ r\<lparr>rs_bytes := rs_bytes r - bytes\<rparr> # after)"
    using assms(3) by (auto simp: accounted_def held min_absorb1)
  from admit_waiting_ok [OF release_ok this] assms(1,4) show ?thesis
    by (simp add: budget_inv_def home_release_def)
qed

lemma forget_ok:
  assumes "ledger_ok l"
  shows "ledger_ok (forget place l)" and "accounted l rs \<Longrightarrow> accounted (forget place l) rs"
proof -
  have "waiters_ok (forget place l)"
    using assms class_limit_cong [of "forget place l" l] by (auto simp: ledger_ok_def waiters_ok_def forget_def)
  then show "ledger_ok (forget place l)" using assms by (simp add: ledger_ok_def forget_def)
  show "accounted l rs \<Longrightarrow> accounted (forget place l) rs" by (simp add: accounted_def forget_def)
qed


lemma budget_step_inv:
  assumes "budget_step b b'" and "budget_inv b"
  shows "budget_inv b'"
  using assms(1)
proof cases
  case (granted w bytes began l)
  with request_inv [OF assms(2) granted(2)] show ?thesis by simp
next
  case (parked w bytes began l place wait_place)
  with request_inv [OF assms(2) parked(2)] show ?thesis by (simp add: budget_inv_def)
next
  case (denied w bytes began l err)
  with request_inv [OF assms(2) denied(2)] show ?thesis by (simp add: budget_inv_def)
next
  case (worked bytes l)
  then have "request (WaitOf WorkClass) bytes 0 (bu_ledger b) = (l, Inr Granted)"
    by (auto simp: try_acquire_working_def request_def Let_def split: if_splits)
  from request_inv [OF assms(2) this] worked show ?thesis by simp
next
  case (kept bytes l)
  with keep_inv [OF assms(2) kept(2,3)] show ?thesis by simp
next
  case (shrunk before r after gone bytes l sent r')
  show ?thesis
  proof (cases "bytes \<ge> rs_bytes r")
    case True
    then show ?thesis using shrunk assms(2) by (auto simp: shrink_def budget_inv_def delivered_def)
  next
    case False
    then have "home_release gone (rs_class r) (rs_bytes r - bytes) (bu_ledger b) = (l, sent)" "r' = r\<lparr>rs_bytes := bytes\<rparr>"
      using shrunk(3) by (auto simp: shrink_def)
    with released_inv [OF assms(2) shrunk(2) _ this(1)] False shrunk(1) show ?thesis by simp
  qed
next
  case (parted before r after bytes r1 r2)
  then have "rs_class r1 = rs_class r" "rs_class r2 = rs_class r" "rs_bytes r1 + rs_bytes r2 = rs_bytes r"
    by (auto simp: reservation_split_def Let_def)
  then have "held_by (before @ r1 # r2 # after) c = held_by (bu_held b) c" for c using parted(2) by simp
  then show ?thesis using assms(2) parted(1) by (simp add: budget_inv_def accounted_def)
next
  case (dropped before r after gone l sent)
  have "accounted l (before @ after @ delivered sent)"
    if "accounted l (before @ r\<lparr>rs_bytes := 0\<rparr> # after @ delivered sent)" using that by (auto simp: accounted_def)
  with released_inv [OF assms(2) dropped(2) _ dropped(3)] dropped(1) show ?thesis by (simp add: budget_inv_def)
next
  case (gave_up gone place l sent)
  have "ledger_ok (bu_ledger b)" "accounted (bu_ledger b) (bu_held b)" using assms(2) by (simp_all add: budget_inv_def)
  from admit_waiting_ok [OF forget_ok(1) [OF this(1)] forget_ok(2) [OF this]] gave_up show ?thesis
    by (simp add: give_up_def budget_inv_def)
next
  case (pressed up)
  with pressing_inv [OF assms(2)] show ?thesis by simp
next
  case (counted w place time)
  with close_wait_inv [OF assms(2)] show ?thesis by simp
qed

lemma budget_reachable_inv: "budget_reachable capacity b \<Longrightarrow> capacity \<le> U64_MAX \<Longrightarrow> budget_inv b"
  by (induction rule: budget_reachable.induct) (auto intro: ledger_new_inv budget_step_inv)


subsection \<open>The capacity and the order of admission\<close>

lemma send_to_capacity: "lg_capacity (fst (send_to gone c w l)) = lg_capacity l"
  by (simp add: send_to_def Let_def)

text \<open>The waiters of a class that were admitted are the first of its queue, and those still there were
  sent their reservations in that order.\<close>

definition admitted_first :: "(nat \<Rightarrow> bool) \<Rightarrow> ledger \<Rightarrow> ledger \<Rightarrow> delivery list \<Rightarrow> bool" where
  "admitted_first gone l l' sent \<longleftrightarrow> (\<forall>c. \<exists>firsts. lg_waiting l c = firsts @ lg_waiting l' c \<and>
     filter (\<lambda>(_, c', _). c' = c) sent = map (\<lambda>w. (wt_id w, c, wt_bytes w)) (filter (\<lambda>w. \<not> gone (wt_id w)) firsts))"

lemma admit_loop_order:
  "admit_loop gone l = (l', sent) \<Longrightarrow> admitted_first gone l l' sent \<and> lg_capacity l' = lg_capacity l"
proof (induction gone l arbitrary: l' sent rule: admit_loop.induct)
  case (1 gone l)
  show ?case
  proof (cases "next_waiter l")
    case None
    then show ?thesis using 1(2) by (simp add: admitted_first_def admit_loop.simps [of gone l])
  next
    case (Some x)
    obtain c w l0 where x: "x = (c, w, l0)" by (cases x)
    obtain l1 first where send: "send_to gone c w l0 = (l1, first)" by (cases "send_to gone c w l0")
    obtain l2 rest where loop: "admit_loop gone l1 = (l2, rest)" by (cases "admit_loop gone l1")
    have res: "l' = l2" "sent = first @ rest" using 1(2) Some x send loop by (simp_all add: admit_loop.simps [of gone l])
    obtain queue where queue: "lg_waiting l c = w # queue" "l0 = l\<lparr>lg_waiting := (lg_waiting l)(c := queue)\<rparr>"
      using next_in_pops [of WAITING l c w l0] Some x by (auto simp: next_waiter_def)
    have "l1 = fst (send_to gone c w l0)" using send by simp
    then have waits: "lg_waiting l1 = (lg_waiting l)(c := queue)" "lg_capacity l1 = lg_capacity l"
      by (simp_all only: send_to_waiting send_to_capacity queue(2)) simp_all
    note IH = 1(1) [OF Some x [symmetric] refl refl send [symmetric] loop]
    have first: "first = (if gone (wt_id w) then [] else [(wt_id w, c, wt_bytes w)])"
      using send by (auto simp: send_to_def Let_def split: if_splits)
    have "admitted_first gone l l' sent"
      unfolding admitted_first_def
    proof
      fix k
      from IH obtain firsts where "lg_waiting l1 k = firsts @ lg_waiting l2 k"
        "filter (\<lambda>(_, c', _). c' = k) rest = map (\<lambda>w. (wt_id w, k, wt_bytes w)) (filter (\<lambda>w. \<not> gone (wt_id w)) firsts)"
        unfolding admitted_first_def by blast
      then show "\<exists>firsts. lg_waiting l k = firsts @ lg_waiting l' k \<and>
         filter (\<lambda>(_, c', _). c' = k) sent = map (\<lambda>w. (wt_id w, k, wt_bytes w)) (filter (\<lambda>w. \<not> gone (wt_id w)) firsts)"
        using queue(1) waits first by (intro exI [of _ "(if k = c then [w] else []) @ firsts"]) (auto simp: res)
    qed
    with IH waits(2) res(1) show ?thesis by simp
  qed
qed

lemma admit_waiting_order:
  assumes "admit_waiting gone l = (l', sent)"
  shows "admitted_first gone l l' sent" and "lg_capacity l' = lg_capacity l"
proof -
  obtain l1 where l1: "admit_loop gone l = (l1, sent)" "l' = press l1"
    using assms by (cases "admit_loop gone l") (simp add: admit_waiting_def)
  from admit_loop_order [OF l1(1)] show "admitted_first gone l l' sent" "lg_capacity l' = lg_capacity l"
    by (simp_all add: admitted_first_def l1(2))
qed

lemma request_capacity: "request w bytes began l = (l', res) \<Longrightarrow> lg_capacity l' = lg_capacity l"
  by (auto simp: request_def Let_def queue_wait_def open_wait_def split: option.splits if_splits prod.splits)

lemma budget_step_capacity:
  assumes "budget_step b b'"
  shows "lg_capacity (bu_ledger b') = lg_capacity (bu_ledger b)"
  using assms
proof cases
  case (granted w bytes began l)
  then show ?thesis using request_capacity [OF granted(2)] by simp
next
  case (parked w bytes began l place wait_place)
  then show ?thesis using request_capacity [OF parked(2)] by simp
next
  case (denied w bytes began l err)
  then show ?thesis using request_capacity [OF denied(2)] by simp
next
  case (shrunk before r after gone bytes l sent r')
  then show ?thesis
    by (auto simp: shrink_def home_release_def dest: admit_waiting_order(2) split: if_splits)
next
  case (dropped before r after gone l sent)
  then show ?thesis by (auto simp: home_release_def dest: admit_waiting_order(2))
next
  case (gave_up gone place l sent)
  then show ?thesis by (auto simp: give_up_def forget_def dest: admit_waiting_order(2))
qed (auto simp: try_acquire_working_def keep_def pressing_def close_wait_def count_wait_def Let_def split: if_splits)

lemma budget_reachable_capacity: "budget_reachable capacity b \<Longrightarrow> lg_capacity (bu_ledger b) = capacity"
  by (induction rule: budget_reachable.induct)
    (simp_all add: budget_step_capacity, simp add: budget_new_def ledger_new_def)


subsection \<open>Properties\<close>

lemma held_by_sum: "sum_list (map rs_bytes rs) = held_by rs IntakeClass + held_by rs WorkClass + held_by rs CursorClass +
    held_by rs TablesClass + held_by rs ReadClass + held_by rs ControlClass"
proof (induction rs)
  case (Cons r rs)
  then show ?case by (cases "rs_class r") simp_all
qed simp

lemma held_by_member: "r \<in> set rs \<Longrightarrow> rs_bytes r \<le> held_by rs (rs_class r)"
  by (induction rs) auto




abbreviation demo_budget :: budget where
  "demo_budget \<equiv> \<lparr>bu_ledger = fst (request (WaitOf IntakeClass) 100 0 (ledger_new 6400)),
     bu_held = [\<lparr>rs_class = IntakeClass, rs_bytes = 100\<rparr>]\<rparr>"

lemma demo_budget_reachable: "budget_reachable 6400 demo_budget"
proof -
  have granted: "snd (request (WaitOf IntakeClass) 100 0 (ledger_new 6400)) = Inr Granted" by code_simp
  have "budget_step (budget_new 6400) demo_budget"
    using budget_step.granted [of "WaitOf IntakeClass" 100 0 "budget_new 6400"] granted
    by (metis (no_types, lifting) budget.select_convs(1,2) budget_new_def prod.collapse wait_class.simps(1))
  with budget_reachable.start show ?thesis by (rule budget_reachable.step)
qed

lemma demo_capacity: "(6400 :: nat) \<le> U64_MAX"
  by (simp add: U64_MAX_def)



definition demo_queue :: ledger where
  "demo_queue = fst (queue_wait WorkClass 3 (ledger_new 6400))"


end
