(* ===== verification/Lending.thy ===== *)
theory Lending
  imports Budget
begin

text \<open>
  A reservation lent to its holder's own requests (\<open>Lent\<close>, \<open>Lending\<close> and \<open>Holding\<close> of
  \<open>crates/rdlt-engine/src/budget.rs\<close>): parts are taken of what is free, go back to the lending while it is
  open and to the budget once it is closed. What goes back to the budget is the result of each operation;
  the budget takes it as \<open>home_release\<close> says.
\<close>

subsection \<open>A lending\<close>

record lending =
  ln_bytes :: nat
  ln_class :: budget_class
  ln_held :: nat
  ln_free :: nat
  ln_closed :: bool

definition lend :: "reservation \<Rightarrow> lending" where
  "lend r = \<lparr>ln_bytes = rs_bytes r, ln_class = rs_class r, ln_held = rs_bytes r, ln_free = rs_bytes r, ln_closed = False\<rparr>"

text \<open>The reservation inside shrinks to fewer bytes; what it gives up goes to its home.\<close>

definition held_shrink :: "nat \<Rightarrow> lending \<Rightarrow> lending \<times> nat" where
  "held_shrink bytes ln = (if bytes \<ge> ln_held ln then (ln, 0) else (ln\<lparr>ln_held := bytes\<rparr>, ln_held ln - bytes))"

definition give_back :: "nat \<Rightarrow> lending \<Rightarrow> lending \<times> nat" where
  "give_back bytes ln =
     (if ln_closed ln then held_shrink (ln_held ln - bytes) ln
      else (ln\<lparr>ln_free := wadd (ln_free ln) bytes\<rparr>, 0))"

definition close :: "lending \<Rightarrow> lending \<times> nat" where
  "close ln =
     (let (ln', home) = held_shrink (ln_held ln - ln_free ln) (ln\<lparr>ln_closed := True\<rparr>)
      in (ln'\<lparr>ln_free := 0\<rparr>, home))"

definition try_take :: "nat \<Rightarrow> lending \<Rightarrow> lending \<times> reservation option" where
  "try_take bytes ln =
     (if bytes \<le> ln_free ln
      then (ln\<lparr>ln_free := ln_free ln - bytes\<rparr>, Some \<lparr>rs_class = ln_class ln, rs_bytes = bytes\<rparr>)
      else (ln, None))"

text \<open>A request of a lending: refused at once for more than was lent, taken, or left to wait.\<close>

definition take_first :: "nat \<Rightarrow> lending \<Rightarrow> too_large_refusal + lending \<times> reservation option" where
  "take_first bytes ln =
     (if bytes > ln_bytes ln
      then Inl \<lparr>tl_what = class_what (ln_class ln), tl_asked = bytes, tl_limit = ln_bytes ln\<rparr>
      else Inr (try_take bytes ln))"

subsection \<open>A lending and its parts\<close>

record lent =
  le_lending :: lending
  le_parts :: "nat list"
  le_home :: nat

definition lent_new :: "reservation \<Rightarrow> lent" where
  "lent_new r = \<lparr>le_lending = lend r, le_parts = [], le_home = 0\<rparr>"

inductive lent_step :: "lent \<Rightarrow> lent \<Rightarrow> bool" where
  took: "try_take bytes (le_lending s) = (ln, Some r) \<Longrightarrow>
    lent_step s (s\<lparr>le_lending := ln, le_parts := rs_bytes r # le_parts s\<rparr>)"
| returned: "le_parts s = before @ bytes # after \<Longrightarrow> give_back bytes (le_lending s) = (ln, home) \<Longrightarrow>
    lent_step s \<lparr>le_lending = ln, le_parts = before @ after, le_home = le_home s + home\<rparr>"
| shrank: "le_parts s = before @ bytes # after \<Longrightarrow> fewer < bytes \<Longrightarrow> give_back (bytes - fewer) (le_lending s) = (ln, home) \<Longrightarrow>
    lent_step s \<lparr>le_lending = ln, le_parts = before @ fewer # after, le_home = le_home s + home\<rparr>"
| closed: "close (le_lending s) = (ln, home) \<Longrightarrow>
    lent_step s (s\<lparr>le_lending := ln, le_home := le_home s + home\<rparr>)"

inductive lent_reachable :: "reservation \<Rightarrow> lent \<Rightarrow> bool" for r where
  start: "lent_reachable r (lent_new r)"
| step: "lent_reachable r s \<Longrightarrow> lent_step s s' \<Longrightarrow> lent_reachable r s'"

definition lent_inv :: "reservation \<Rightarrow> lent \<Rightarrow> bool" where
  "lent_inv r s \<longleftrightarrow> ln_bytes (le_lending s) = rs_bytes r \<and>
     ln_free (le_lending s) + sum_list (le_parts s) = ln_held (le_lending s) \<and>
     ln_held (le_lending s) + le_home s = rs_bytes r \<and>
     (ln_closed (le_lending s) \<longrightarrow> ln_free (le_lending s) = 0) \<and> (\<not> ln_closed (le_lending s) \<longrightarrow> le_home s = 0)"

lemma give_back_inv:
  assumes "lent_inv r s" and "rs_bytes r \<le> U64_MAX" and "sum_list parts + bytes = sum_list (le_parts s)"
    and "give_back bytes (le_lending s) = (ln, home)"
  shows "lent_inv r \<lparr>le_lending = ln, le_parts = parts, le_home = le_home s + home\<rparr>"
proof (cases "ln_closed (le_lending s)")
  case True
  then have "ln = (le_lending s)\<lparr>ln_held := ln_held (le_lending s) - bytes\<rparr> \<and> home = bytes \<or>
      bytes = 0 \<and> ln = le_lending s \<and> home = 0"
    using assms by (auto simp: lent_inv_def give_back_def held_shrink_def split: if_splits)
  then show ?thesis using assms(1,3) True by (auto simp: lent_inv_def)
next
  case False
  have "wadd (ln_free (le_lending s)) bytes = ln_free (le_lending s) + bytes"
    using assms(1-3) by (intro wadd_exact) (simp add: lent_inv_def)
  then show ?thesis using assms(1,3,4) False by (auto simp: lent_inv_def give_back_def)
qed

lemma lent_step_inv:
  assumes "lent_step s s'" and "lent_inv r s" and "rs_bytes r \<le> U64_MAX"
  shows "lent_inv r s'"
  using assms(1)
proof cases
  case (took bytes ln part)
  then show ?thesis using assms(2) by (auto simp: try_take_def lent_inv_def split: if_splits)
next
  case (returned before bytes after ln home)
  show ?thesis unfolding returned(1) by (rule give_back_inv [OF assms(2,3) _ returned(3)]) (simp add: returned(2))
next
  case (shrank before bytes after fewer ln home)
  show ?thesis
    unfolding shrank(1) using shrank(3) by (intro give_back_inv [OF assms(2,3) _ shrank(4)]) (simp add: shrank(2))
next
  case (closed ln home)
  then show ?thesis
    using assms(2) by (auto simp: close_def held_shrink_def lent_inv_def split: if_splits)
qed

lemma lent_reachable_inv: "lent_reachable r s \<Longrightarrow> rs_bytes r \<le> U64_MAX \<Longrightarrow> lent_inv r s"
proof (induction rule: lent_reachable.induct)
  case start
  show ?case by (simp add: lent_inv_def lent_new_def lend_def)
next
  case (step s s')
  then show ?case by (blast intro: lent_step_inv)
qed

subsection \<open>Properties\<close>

text \<open>C23: a lent reservation is lent out at most once over and all of it comes home. However parts are
  taken, shrink, go back, before or after the lending is closed: the parts with what is free are what is
  held, what is held with what went home is what was lent, and once it is closed and every part went back,
  all of it is home.\<close>

theorem lent_comes_home:
  assumes "lent_reachable r s" and "rs_bytes r \<le> U64_MAX"
  shows "ln_free (le_lending s) + sum_list (le_parts s) = ln_held (le_lending s) \<and>
    ln_held (le_lending s) + le_home s = rs_bytes r \<and>
    (ln_closed (le_lending s) \<and> le_parts s = [] \<longrightarrow> le_home s = rs_bytes r) \<and>
    (\<not> ln_closed (le_lending s) \<and> le_parts s = [] \<longrightarrow>
       (\<forall>bytes. bytes \<le> rs_bytes r \<longrightarrow> (\<exists>ln part. take_first bytes (le_lending s) = Inr (ln, Some part))))"
  using lent_reachable_inv [OF assms] by (auto simp: lent_inv_def take_first_def try_take_def)

theorem lent_comes_home_witness:
  "le_home \<lparr>le_lending = fst (close (lend \<lparr>rs_class = WorkClass, rs_bytes = 9\<rparr>)), le_parts = [], le_home = 9\<rparr> = 9"
proof -
  let ?r = "\<lparr>rs_class = WorkClass, rs_bytes = 9\<rparr>"
  have "lent_step (lent_new ?r) ((lent_new ?r)\<lparr>le_lending := fst (close (lend ?r)), le_home := le_home (lent_new ?r) + 9\<rparr>)"
    by (rule lent_step.closed) (simp add: lent_new_def close_def held_shrink_def lend_def)
  then have "lent_reachable ?r \<lparr>le_lending = fst (close (lend ?r)), le_parts = [], le_home = 9\<rparr>"
    using lent_reachable.step [OF lent_reachable.start] by (simp add: lent_new_def)
  from lent_comes_home [OF this] show ?thesis by (simp add: close_def held_shrink_def lend_def U64_MAX_def)
qed

end
