(* ===== verification/Admits.thy ===== *)
theory Admits
  imports Ledger
begin

text \<open>
  The limits a memory budget admits its connectors within
  (\<open>crates/rdlt-engine/src/budget/admits.rs\<close>, with the costs it takes from
  \<open>crates/rdlt-connector/src/cost.rs\<close> and \<open>crates/rdlt-engine/src/cost.rs\<close>): each limit told to a
  connector is derived from the share it draws on, and what all of them admit at once is shown to fit the
  shares, for every budget and every number of reads. The least budget is found by halving.
\<close>

subsection \<open>Costs\<close>

definition ARRAY :: nat where "ARRAY = 320"

definition array_bytes :: "nat \<Rightarrow> nat" where
  "array_bytes arrays = smul arrays ARRAY"

definition VIEW_BUFFER :: nat where "VIEW_BUFFER = 80"

definition view_buffer_bytes :: "nat \<Rightarrow> nat" where
  "view_buffer_bytes buffers = smul buffers VIEW_BUFFER"

definition JSON_CHARGE :: nat where "JSON_CHARGE = 3"

definition json_charge :: "nat \<Rightarrow> nat" where
  "json_charge text = sadd (smul text JSON_CHARGE) MESSAGE_ROOM"

definition OFFSET_AND_VALIDITY :: nat where "OFFSET_AND_VALIDITY = 5"

definition flags_bytes :: "nat \<Rightarrow> bool \<Rightarrow> nat" where
  "flags_bytes columns text =
     (let width = (columns + 7) div 8;
          bytes = sadd width OFFSET_AND_VALIDITY
      in if \<not> text then bytes else sadd (sadd bytes (smul width 2)) OFFSET_AND_VALIDITY)"

definition COLUMN_RECORD :: nat where "COLUMN_RECORD = 512"

definition SCHEMA_KEPT :: nat where "SCHEMA_KEPT = 6"

definition FIELD_MESSAGE :: nat where "FIELD_MESSAGE = 56"

definition NULL_SLOT :: nat where "NULL_SLOT = 33"

definition META_ROW :: nat where "META_ROW = 1024"

definition META_COLUMNS :: nat where "META_COLUMNS = 16"

lemmas cost_constants =
  ARRAY_def VIEW_BUFFER_def JSON_CHARGE_def OFFSET_AND_VALIDITY_def COLUMN_RECORD_def SCHEMA_KEPT_def FIELD_MESSAGE_def
  NULL_SLOT_def META_ROW_def META_COLUMNS_def

definition row_overhead :: "nat \<Rightarrow> nat" where
  "row_overhead columns =
     (let arrays = sadd (smul columns 2) META_COLUMNS
      in sadd (sadd (sadd (smul columns NULL_SLOT) (flags_bytes columns True)) META_ROW) (array_bytes arrays))"

definition pushed_arrays :: "nat \<Rightarrow> nat" where
  "pushed_arrays columns = sadd (array_bytes (smul columns 2)) (view_buffer_bytes columns)"

subsection \<open>What a budget admits\<close>

definition parts :: "shares \<Rightarrow> nat \<Rightarrow> nat" where
  "parts sh readers =
     (let held = as_usize (sh_reads sh div (2 * MIN_DICTIONARY_BYTES));
          n = min readers held
      in if n = 0 then 1 else n)"

definition kept :: "shares \<Rightarrow> nat \<Rightarrow> nat" where
  "kept sh readers = sh_reads sh div count (parts sh readers)"

definition per_byte :: "msg_class \<Rightarrow> nat" where
  "per_byte msg = count (decoded_per_byte msg)"

definition admitted_columns :: "shares \<Rightarrow> nat \<Rightarrow> nat" where
  "admitted_columns sh readers =
     min (min (sh_tables sh div COLUMN_RECORD) (kept sh readers div 2 div SCHEMA_KEPT div FIELD_MESSAGE))
       (schema_columns limits_default)"

definition admitted :: "shares \<Rightarrow> nat \<Rightarrow> limits" where
  "admitted sh readers =
     (let kept = kept sh readers;
          readers' = max (count readers) 1;
          schema_bytes' = kept div 2 div SCHEMA_KEPT;
          columns = admitted_columns sh readers;
          row = sh_request sh div per_byte DataMsg - row_overhead columns;
          decoded = (\<lambda>msg. sh_control sh div per_byte msg)
      in lesser
           (limits_default
              \<lparr>schema_columns := columns,
               frame_bytes := min (sh_intake sh - kept - MESSAGE_ROOM - pushed_arrays columns) row,
               catalog_bytes := decoded CatalogMsg,
               state_bytes := decoded StateMsg,
               control_message_bytes := decoded ControlMsg,
               json_push_bytes := (sh_intake sh - MESSAGE_ROOM) div JSON_CHARGE,
               cursor_bytes := sh_cursors sh div smul (sadd readers' 1) 2,
               schema_bytes := schema_bytes',
               dictionary_bytes := kept div 2\<rparr>)
           limits_default)"

definition HALVED :: nat where "HALVED = 24"

definition admits :: "nat \<Rightarrow> nat \<Rightarrow> bool" where
  "admits readers capacity \<longleftrightarrow> admit_peer (admitted (shares_of capacity) readers) = Inr ()"

function halve :: "(nat \<Rightarrow> bool) \<Rightarrow> nat \<Rightarrow> nat \<Rightarrow> nat" where
  "halve ok low high =
     (if low < high then
        let middle = low + (high - low) div 2
        in if ok middle then halve ok low middle else halve ok (middle + 1) high
      else low)"
  by pat_completeness auto

termination
  by (relation "measure (\<lambda>(_, low, high). high - low)") auto

declare halve.simps [simp del]

definition least :: "nat \<Rightarrow> nat" where
  "least readers = halve (admits (clamp readers 1 HALVED)) 0 (2 ^ 40)"

subsection \<open>What reads keep\<close>

lemma parts_pos: "1 \<le> parts sh readers"
  by (simp add: parts_def Let_def)

lemma parts_readers: "parts sh readers \<le> max readers 1"
  by (simp add: parts_def Let_def)

lemma parts_u64: "parts sh readers \<le> U64_MAX"
  by (auto simp: parts_def Let_def as_usize_def min_def U64_MAX_def)

lemma kept_eq: "kept sh readers = sh_reads sh div parts sh readers"
  using parts_u64 [of sh readers] by (simp add: kept_def)

lemma parts_kept: "parts sh readers * kept sh readers \<le> sh_reads sh"
  unfolding kept_eq by (metis times_div_less_eq_dividend)

lemma kept_least:
  assumes "2 * MIN_DICTIONARY_BYTES \<le> sh_reads sh"
  shows "2 * MIN_DICTIONARY_BYTES \<le> kept sh readers"
proof (cases "parts sh readers = 1")
  case True
  then show ?thesis using assms by (simp add: kept_eq)
next
  case False
  then have "parts sh readers \<le> sh_reads sh div (2 * MIN_DICTIONARY_BYTES)"
    by (auto simp: parts_def Let_def as_usize_def split: if_splits)
  then have "parts sh readers * (2 * MIN_DICTIONARY_BYTES) \<le> sh_reads sh"
    by (metis MIN_DICTIONARY_BYTES_def less_eq_div_iff_mult_less_eq mult_pos_pos zero_less_numeral)
  then show ?thesis
    unfolding kept_eq using parts_pos [of sh readers]
    by (metis less_eq_div_iff_mult_less_eq less_le_trans mult.commute zero_less_one)
qed


subsection \<open>Each limit within its share\<close>

lemma admitted_columns_sel: "schema_columns (admitted sh readers) = admitted_columns sh readers"
  by (simp only: admitted_def Let_def lesser_def limits_default_def limits.simps)
    (simp only: admitted_columns_def limits_default_def limits.simps min.assoc min.idem)

lemma admitted_sel:
  "frame_bytes (admitted sh readers) = min (min (sh_intake sh - kept sh readers - MESSAGE_ROOM -
     pushed_arrays (admitted_columns sh readers)) (sh_request sh div per_byte DataMsg - row_overhead (admitted_columns sh readers))) FRAME_BYTES"
  "catalog_bytes (admitted sh readers) = min (sh_control sh div per_byte CatalogMsg) CATALOG_BYTES"
  "state_bytes (admitted sh readers) = min (sh_control sh div per_byte StateMsg) STATE_BYTES"
  "control_message_bytes (admitted sh readers) = min (sh_control sh div per_byte ControlMsg) CONTROL_MESSAGE_BYTES"
  "json_push_bytes (admitted sh readers) = min ((sh_intake sh - MESSAGE_ROOM) div JSON_CHARGE) JSON_PUSH_BYTES"
  "cursor_bytes (admitted sh readers) = min (sh_cursors sh div smul (sadd (max (count readers) 1) 1) 2) CURSOR_BYTES"
  "schema_bytes (admitted sh readers) = min (kept sh readers div 2 div SCHEMA_KEPT) SCHEMA_BYTES"
  "dictionary_bytes (admitted sh readers) = min (kept sh readers div 2) (FRAME_BYTES + MESSAGE_ROOM)"
  "batch_rows (admitted sh readers) = BATCH_ROWS" "batch_values (admitted sh readers) = BATCH_VALUES"
  "nesting_depth (admitted sh readers) = NESTING_DEPTH"
  by (simp_all only: admitted_def Let_def lesser_def limits_default_def limits.simps DICTIONARY_FRAMES_def mult_1_right
      min.idem admitted_columns_def min.assoc)

lemma per_byte_values: "per_byte DataMsg = 2" "per_byte StateMsg = 1" "per_byte CatalogMsg = 16" "per_byte ControlMsg = 16"
  by (simp_all add: per_byte_def DECODED_PER_BYTE_def count_def U64_MAX_def)

lemma admitted_lesser: "lesser (admitted sh readers) limits_default = admitted sh readers"
  by (simp only: admitted_def Let_def lesser_def limits.simps min.assoc min.idem)

lemma frame_fits_intake:
  assumes "frame_bytes (admitted sh readers) \<noteq> 0"
  shows "frame_bytes (admitted sh readers) + MESSAGE_ROOM + kept sh readers + pushed_arrays (schema_columns (admitted sh readers))
    \<le> sh_intake sh"
  using assms unfolding admitted_columns_sel admitted_sel by linarith

lemma row_fits_request:
  assumes "frame_bytes (admitted sh readers) \<noteq> 0"
  shows "frame_bytes (admitted sh readers) + row_overhead (schema_columns (admitted sh readers)) \<le> sh_request sh div 2"
  using assms unfolding admitted_columns_sel admitted_sel per_byte_values by linarith

lemma json_charge_exact:
  assumes "text \<le> JSON_PUSH_BYTES + 1"
  shows "json_charge text = 3 * text + 256"
  using assms unfolding json_charge_def smul_def sadd_def
  by (simp add: JSON_CHARGE_def JSON_PUSH_BYTES_def MESSAGE_ROOM_def U64_MAX_def)

lemma json_fits:
  "json_charge (json_push_bytes (admitted sh readers)) \<le> max (sh_intake sh) MESSAGE_ROOM"
  "json_push_bytes (admitted sh readers) = JSON_PUSH_BYTES \<or> sh_intake sh < json_charge (json_push_bytes (admitted sh readers) + 1)"
proof -
  define q where "q = (sh_intake sh - 256) div 3"
  have q: "3 * q \<le> sh_intake sh - 256" "sh_intake sh - 256 < 3 * q + 3"
    unfolding q_def by (simp_all add: dividend_less_times_div)
  have sel: "json_push_bytes (admitted sh readers) = min q JSON_PUSH_BYTES"
    by (simp add: admitted_sel q_def JSON_CHARGE_def MESSAGE_ROOM_def)
  have charge: "json_charge (min q JSON_PUSH_BYTES) = 3 * min q JSON_PUSH_BYTES + 256"
    "json_charge (min q JSON_PUSH_BYTES + 1) = 3 * (min q JSON_PUSH_BYTES + 1) + 256"
    by (rule json_charge_exact, simp)+
  show "json_charge (json_push_bytes (admitted sh readers)) \<le> max (sh_intake sh) MESSAGE_ROOM"
    unfolding sel charge MESSAGE_ROOM_def using q(1) by linarith
  show "json_push_bytes (admitted sh readers) = JSON_PUSH_BYTES \<or> sh_intake sh < json_charge (json_push_bytes (admitted sh readers) + 1)"
    unfolding sel charge using q(2) by (cases "q \<le> JSON_PUSH_BYTES") (auto simp: min_def)
qed

lemma smul_div: "smul (min (a div b) m) b \<le> a"
  using smul_le [of "min (a div b) m" b] div_times_less_eq_dividend [of a b]
  by (meson le_trans min.cobounded1 mult_le_mono1)

lemma control_decoded:
  assumes "msg \<in> {CatalogMsg, StateMsg, ControlMsg}"
  shows "decoded (admitted sh readers) msg \<le> sh_control sh"
proof -
  have "as_usize (min x m) = min x m" if "m \<le> U64_MAX" for x m using that by (simp add: as_usize_def min_def)
  then have "decoded (admitted sh readers) msg = smul (min (sh_control sh div decoded_per_byte msg)
      (case msg of CatalogMsg \<Rightarrow> CATALOG_BYTES | StateMsg \<Rightarrow> STATE_BYTES | _ \<Rightarrow> CONTROL_MESSAGE_BYTES)) (decoded_per_byte msg)"
    using assms by (auto simp: decoded_def decoding_def Let_def admitted_sel per_byte_values DECODED_PER_BYTE_def CATALOG_BYTES_def
        STATE_BYTES_def CONTROL_MESSAGE_BYTES_def U64_MAX_def)
  then show ?thesis by (simp add: smul_div)
qed

lemma data_decoded:
  assumes "sh = shares_of capacity" and "capacity \<le> U64_MAX" and "admit_peer (admitted sh readers) = Inr ()"
  shows "decoded (admitted sh readers) DataMsg \<le> sh_intake sh"
proof -
  let ?f = "frame_bytes (admitted sh readers)"
  have frame: "4194304 \<le> ?f" "?f \<le> 67108864"
    using assms(3) by (simp_all add: admit_peer_Inr MIN_FRAME_BYTES_def) (simp add: admitted_sel FRAME_BYTES_def)
  have row: "2 * ?f \<le> sh_request sh" using row_fits_request [of sh readers] frame(1) by linarith
  obtain a b d e where form: "64 * a \<le> capacity" "32 * b \<le> capacity" "16 * d \<le> capacity" "4 * e \<le> capacity"
    and eqs: "sh_request sh = e" "sh_data sh + a + b + d + e = capacity" "sh_intake sh + e = sh_data sh"
    unfolding assms(1) by (rule shares_form [of capacity])
  have "131072 + e \<le> sh_intake sh" using form eqs row frame(1) by linarith
  moreover have "decoded (admitted sh readers) DataMsg \<le> 2 * (?f + 65536)"
    using frame(2) by (simp add: decoded_def decoding_def Let_def smul_def sadd_def as_usize_def U64_MAX_def MESSAGE_OVERHEAD_def)
  ultimately show ?thesis using row unfolding eqs(1) by simp
qed

lemma cursors_fit:
  assumes "readers \<le> HALVED"
  shows "cursor_bytes (admitted sh readers) * (2 * (readers + 1)) \<le> sh_cursors sh"
proof -
  have "smul (sadd (max (count readers) 1) 1) 2 = 2 * (max readers 1 + 1)"
    using assms by (simp add: count_def HALVED_def smul_def sadd_def U64_MAX_def)
  then have "cursor_bytes (admitted sh readers) * (2 * (max readers 1 + 1)) \<le> sh_cursors sh"
    unfolding admitted_columns_sel admitted_sel by (metis (no_types, lifting) div_times_less_eq_dividend le_trans min.cobounded1 mult_le_mono1)
  moreover have "cursor_bytes (admitted sh readers) * (2 * (readers + 1)) \<le> cursor_bytes (admitted sh readers) * (2 * (max readers 1 + 1))"
    by (intro mult_le_mono2) simp
  ultimately show ?thesis by (rule le_trans [rotated])
qed

lemma schema_fits: "SCHEMA_KEPT * schema_bytes (admitted sh readers) + dictionary_bytes (admitted sh readers) \<le> kept sh readers"
proof -
  have "6 * (kept sh readers div 2 div 6) \<le> kept sh readers div 2" "2 * (kept sh readers div 2) \<le> kept sh readers" by simp_all
  then show ?thesis unfolding admitted_columns_sel admitted_sel SCHEMA_KEPT_def by linarith
qed

lemma columns_fit: "COLUMN_RECORD * schema_columns (admitted sh readers) \<le> sh_tables sh"
proof -
  have "512 * (sh_tables sh div 512) \<le> sh_tables sh" by simp
  then show ?thesis unfolding admitted_columns_sel admitted_sel admitted_columns_def COLUMN_RECORD_def by linarith
qed


subsection \<open>Halving\<close>

lemma halve_ends:
  "low \<le> high \<Longrightarrow> low \<le> halve ok low high \<and> halve ok low high \<le> high \<and>
   (halve ok low high = high \<or> ok (halve ok low high)) \<and> (halve ok low high = low \<or> \<not> ok (halve ok low high - 1))"
proof (induction ok low high rule: halve.induct)
  case (1 ok low high)
  show ?case
  proof (cases "low < high")
    case False
    then show ?thesis using 1(3) by (simp add: halve.simps)
  next
    case True
    let ?middle = "low + (high - low) div 2"
    have middle: "low \<le> ?middle" "?middle < high" using True by auto
    show ?thesis
    proof (cases "ok ?middle")
      case ok: True
      from 1(1) [OF True refl ok middle(1)] ok middle show ?thesis
        using True by (auto simp: halve.simps [of ok low high] Let_def)
    next
      case False
      have "?middle + 1 \<le> high" using middle by simp
      note IH = 1(2) [OF True refl False this]
      have step: "halve ok low high = halve ok (?middle + 1) high"
        using True False by (simp add: halve.simps [of ok low high] Let_def)
      show ?thesis
      proof (cases "halve ok (?middle + 1) high = ?middle + 1")
        case end_: True
        then show ?thesis using IH False middle unfolding step by auto
      next
        case False
        then show ?thesis using IH middle unfolding step by auto
      qed
    qed
  qed
qed

lemma columns_le: "admitted_columns sh readers \<le> 10000"
  by (simp add: admitted_columns_def limits_default_def SCHEMA_COLUMNS_def)

lemma smul_mono: "a \<le> b \<Longrightarrow> smul a c \<le> b * c"
  by (rule order_trans [OF smul_le]) simp

lemma sadd_bound: "a \<le> x \<Longrightarrow> b \<le> y \<Longrightarrow> sadd a b \<le> x + y"
  by (rule order_trans [OF sadd_le]) simp

lemma pushed_arrays_le: "columns \<le> 10000 \<Longrightarrow> pushed_arrays columns \<le> 20000 * 320 + 10000 * 80"
  unfolding pushed_arrays_def array_bytes_def view_buffer_bytes_def ARRAY_def VIEW_BUFFER_def
  by (intro sadd_bound smul_mono) (simp_all add: order_trans [OF smul_le])

lemma row_overhead_le: "columns \<le> 10000 \<Longrightarrow> row_overhead columns \<le> 10000 * 33 + (1251 + 5 + 1251 * 2 + 5) + 1024 + (20000 + 16) * 320"
proof -
  assume columns: "columns \<le> 10000"
  have width: "(columns + 7) div 8 \<le> 1251" and twice: "smul columns 2 \<le> 20000"
    using columns smul_le [of columns 2] by simp_all
  have flags: "flags_bytes columns True = sadd (sadd (sadd ((columns + 7) div 8) 5) (smul ((columns + 7) div 8) 2)) 5"
    by (simp add: flags_bytes_def Let_def OFFSET_AND_VALIDITY_def)
  show ?thesis
    unfolding row_overhead_def Let_def array_bytes_def flags cost_constants
    by (intro sadd_bound smul_mono width twice columns order_refl)
qed

lemma admits_terabyte:
  assumes "1 \<le> n" and "n \<le> HALVED"
  shows "admits n (2 ^ 40) \<and> \<not> admits n 0"
proof -
  let ?sh = "shares_of (2 ^ 40)"
  have sh: "sh_reads ?sh = 274877906944" "sh_intake ?sh = 429496729600" "sh_request ?sh = 274877906944"
    by (simp_all add: shares_of_def Let_def share_constants)
  have kept: "kept ?sh n \<le> 274877906944" "274877906944 div 24 \<le> kept ?sh n"
  proof -
    have p: "parts ?sh n \<le> 24" "1 \<le> parts ?sh n"
      using parts_readers [of ?sh n] parts_pos [of ?sh n] assms by (simp_all add: HALVED_def)
    show "kept ?sh n \<le> 274877906944" unfolding kept_eq sh by simp
    show "274877906944 div 24 \<le> kept ?sh n" unfolding kept_eq sh using p by (intro div_le_mono2) simp_all
  qed
  note cols = columns_le [of ?sh n]
  have "4194304 \<le> frame_bytes (admitted ?sh n)"
    unfolding admitted_sel sh per_byte_values FRAME_BYTES_def MESSAGE_ROOM_def
    using kept pushed_arrays_le [OF cols] row_overhead_le [OF cols] by simp
  moreover have "262144 \<le> dictionary_bytes (admitted ?sh n)"
    unfolding admitted_sel FRAME_BYTES_def MESSAGE_ROOM_def using kept by simp
  ultimately have "admits n (2 ^ 40)"
    unfolding admits_def admit_peer_Inr by (simp add: admitted_sel wire_constants)
  moreover have "\<not> admits n 0"
    unfolding admits_def admit_peer_Inr admitted_sel by (simp add: shares_of_def Let_def wire_constants)
  ultimately show ?thesis by blast
qed

subsection \<open>Properties\<close>

text \<open>C24: what a budget admits its connectors to send, all at once, fits the shares it draws on, whatever
  the budget and however many reads: a frame with its message's room, what the read keeps and its arrays
  fits what pushes may take; one row of it lowered fits half a request; JSON text with the batches it
  becomes fits, and no longer text would but where the wire's limit binds; a frame decoded fits where the
  peer is admitted, and every other answer decoded fits the answers' share; a schema and the dictionaries
  fit what a read keeps, the reads' parts their share, and a table's records the tables' share.\<close>

theorem admitted_fits:
  assumes "sh = shares_of capacity" and "capacity \<le> U64_MAX" and "li = admitted sh readers"
  shows "(frame_bytes li = 0 \<or>
      frame_bytes li + MESSAGE_ROOM + kept sh readers + pushed_arrays (schema_columns li) \<le> sh_intake sh \<and>
      frame_bytes li + row_overhead (schema_columns li) \<le> sh_request sh div 2) \<and>
    json_charge (json_push_bytes li) \<le> max (sh_intake sh) MESSAGE_ROOM \<and>
    (json_push_bytes li = JSON_PUSH_BYTES \<or> sh_intake sh < json_charge (json_push_bytes li + 1)) \<and>
    (admit_peer li = Inr () \<longrightarrow> decoded li DataMsg \<le> sh_intake sh) \<and>
    (\<forall>msg\<in>{CatalogMsg, StateMsg, ControlMsg}. decoded li msg \<le> sh_control sh) \<and>
    SCHEMA_KEPT * schema_bytes li + dictionary_bytes li \<le> kept sh readers \<and>
    parts sh readers * kept sh readers \<le> sh_reads sh \<and>
    COLUMN_RECORD * schema_columns li \<le> sh_tables sh"
  unfolding assms(3)
  using frame_fits_intake [of sh readers] row_fits_request [of sh readers] json_fits [of sh readers]
    data_decoded [OF assms(1,2), of readers] control_decoded [of _ sh readers] schema_fits [of sh readers]
    parts_kept [of sh readers] columns_fit [of sh readers]
  by blast

text \<open>C25: the search for the least budget ends, and where it ends a peer is admitted while with one byte
  less none is, for every number of reads.\<close>

theorem least_admits:
  "admits (clamp readers 1 HALVED) (least readers) \<and> \<not> admits (clamp readers 1 HALVED) (least readers - 1) \<and>
   least readers \<le> 2 ^ 40"
proof -
  let ?n = "clamp readers 1 HALVED"
  have "1 \<le> ?n" "?n \<le> HALVED" using clamp_bounds [of 1 HALVED readers] by (simp_all add: HALVED_def)
  note ends = admits_terabyte [OF this]
  have "least readers \<le> 2 ^ 40 \<and> (least readers = 2 ^ 40 \<or> admits ?n (least readers)) \<and>
      (least readers = 0 \<or> \<not> admits ?n (least readers - 1))"
    using halve_ends [of 0 "2 ^ 40" "admits ?n"] unfolding least_def by blast
  with ends show ?thesis by (metis diff_0_eq_0)
qed


theorem admitted_fits_witness:
  "SCHEMA_KEPT * schema_bytes (admitted (shares_of 268435456) 8) + dictionary_bytes (admitted (shares_of 268435456) 8)
     \<le> kept (shares_of 268435456) 8"
proof -
  have "(268435456 :: nat) \<le> U64_MAX" by (simp add: U64_MAX_def)
  from admitted_fits [OF refl this refl, of 8] show ?thesis by blast
qed


end
