(* ===== verification/Text.thy ===== *)
theory Text
  imports Prelude
begin

text \<open>
  Text a connector sent, as a host shows it (\<open>crates/rdlt-connector/src/text.rs\<close>): every character
  that could deceive a reader is written as an escape, a run of spaces as one space, and a text that
  does not fit its bytes ends in a mark. A character is its code point and a text the list of its
  characters, whose bytes are those of its UTF-8. What is shown is shown to need no showing again.
\<close>

subsection \<open>Characters\<close>

type_synonym uchar = nat
type_synonym utext = "uchar list"

definition utf8_len :: "uchar \<Rightarrow> nat" where
  "utf8_len c = (if c < 0x80 then 1 else if c < 0x800 then 2 else if c < 0x10000 then 3 else 4)"

definition text_len :: "utext \<Rightarrow> nat" where
  "text_len t = sum_list (map utf8_len t)"

text \<open>\<open>char::is_control\<close>: the general category Cc.\<close>

definition is_control :: "uchar \<Rightarrow> bool" where
  "is_control c \<longleftrightarrow> c < 0x20 \<or> 0x7f \<le> c \<and> c \<le> 0x9f"

definition blank :: "uchar \<Rightarrow> bool" where
  "blank c \<longleftrightarrow> c = 0xa0 \<or> c = 0x1680 \<or> 0x2000 \<le> c \<and> c \<le> 0x200a \<or> c = 0x2028 \<or> c = 0x2029
     \<or> c = 0x202f \<or> c = 0x205f \<or> c = 0x2800 \<or> c = 0x3000"

definition format_char :: "uchar \<Rightarrow> bool" where
  "format_char c \<longleftrightarrow> c = 0xad \<or> 0x600 \<le> c \<and> c \<le> 0x605 \<or> c = 0x61c \<or> c = 0x6dd \<or> c = 0x70f
     \<or> 0x890 \<le> c \<and> c \<le> 0x891 \<or> c = 0x8e2 \<or> c = 0x180e \<or> 0x200b \<le> c \<and> c \<le> 0x200f
     \<or> 0x202a \<le> c \<and> c \<le> 0x202e \<or> 0x2060 \<le> c \<and> c \<le> 0x206f \<or> c = 0xfeff
     \<or> 0xfff9 \<le> c \<and> c \<le> 0xfffb \<or> c = 0x110bd \<or> c = 0x110cd \<or> 0x13430 \<le> c \<and> c \<le> 0x1343f
     \<or> 0x1bca0 \<le> c \<and> c \<le> 0x1bca3 \<or> 0x1d173 \<le> c \<and> c \<le> 0x1d17a"

definition ignorable :: "uchar \<Rightarrow> bool" where
  "ignorable c \<longleftrightarrow> c = 0x34f \<or> 0x115f \<le> c \<and> c \<le> 0x1160 \<or> 0x17b4 \<le> c \<and> c \<le> 0x17b5
     \<or> 0x180b \<le> c \<and> c \<le> 0x180f \<or> c = 0x3164 \<or> 0xfe00 \<le> c \<and> c \<le> 0xfe0f \<or> c = 0xffa0
     \<or> 0xfff0 \<le> c \<and> c \<le> 0xfff8 \<or> 0xe0000 \<le> c \<and> c \<le> 0xe0fff"

text \<open>The mask \<open>0xfffe\<close> is set in a character whose last sixteen bits are at least \<open>0xfffe\<close>.\<close>

definition unmeaning :: "uchar \<Rightarrow> bool" where
  "unmeaning c \<longleftrightarrow> 0xe000 \<le> c \<and> c \<le> 0xf8ff \<or> 0xfdd0 \<le> c \<and> c \<le> 0xfdef
     \<or> 0xf0000 \<le> c \<and> c \<le> 0x10ffff \<or> c mod 0x10000 \<ge> 0xfffe"

definition deceives :: "uchar \<Rightarrow> bool" where
  "deceives c \<longleftrightarrow> is_control c \<or> blank c \<or> format_char c \<or> ignorable c \<or> unmeaning c"

text \<open>\<open>char::escape_default\<close>: a backslash before a quote or a backslash, the short escapes of a
  tab, a return and a newline, a printable ASCII character itself, and any other by its code point.\<close>

definition hex_digit :: "nat \<Rightarrow> uchar" where
  "hex_digit d = (if d < 10 then 48 + d else 87 + d)"

fun hex_digits :: "nat \<Rightarrow> utext" where
  "hex_digits n = (if n < 16 then [hex_digit n] else hex_digits (n div 16) @ [hex_digit (n mod 16)])"

declare hex_digits.simps [simp del]

definition escape_default :: "uchar \<Rightarrow> utext" where
  "escape_default c =
     (if c = 9 then [92, 116] else if c = 13 then [92, 114] else if c = 10 then [92, 110]
      else if c = 39 \<or> c = 34 \<or> c = 92 then [92, c]
      else if 0x20 \<le> c \<and> c \<le> 0x7e then [c]
      else [92, 117, 123] @ hex_digits c @ [125])"

subsection \<open>Showing\<close>

text \<open>What ends a text that was cut: a space and \<open>[cut]\<close>.\<close>

definition CUT :: utext where
  "CUT = [32, 91, 99, 117, 116, 93]"

record showing =
  sh_text :: utext
  sh_bytes :: nat
  sh_fits_mark :: nat
  sh_spaced :: bool
  sh_cut :: bool

text \<open>Keeps a piece whole, or cuts the text; the cut is the error the writer returns.\<close>

definition keep_piece :: "utext \<Rightarrow> showing \<Rightarrow> showing" where
  "keep_piece p s =
     (if text_len (sh_text s) + text_len p > sh_bytes s then s\<lparr>sh_cut := True\<rparr>
      else let t = sh_text s @ p
           in s\<lparr>sh_text := t,
                sh_fits_mark := (if text_len t + text_len CUT \<le> sh_bytes s then text_len t else sh_fits_mark s)\<rparr>)"

definition shown_char :: "uchar \<Rightarrow> utext" where
  "shown_char c = (if deceives c then escape_default c else [c])"

fun show_chars :: "utext \<Rightarrow> showing \<Rightarrow> showing" where
  "show_chars [] s = s"
| "show_chars (c # cs) s =
     (if c = 32 then
        (if sh_spaced s then show_chars cs s
         else let s' = keep_piece [32] s
              in if sh_cut s' then s' else show_chars cs (s'\<lparr>sh_spaced := True\<rparr>))
      else let s' = keep_piece (shown_char c) (s\<lparr>sh_spaced := False\<rparr>)
           in if sh_cut s' then s' else show_chars cs s')"

definition write_piece :: "utext \<Rightarrow> showing \<Rightarrow> showing" where
  "write_piece p s = (if sh_cut s then s else show_chars p s)"

text \<open>\<open>String::truncate\<close> to a number of bytes that ends between characters.\<close>

fun text_truncate :: "nat \<Rightarrow> utext \<Rightarrow> utext" where
  "text_truncate n [] = []"
| "text_truncate n (c # cs) = (if utf8_len c \<le> n then c # text_truncate (n - utf8_len c) cs else [])"

definition trim_end :: "utext \<Rightarrow> utext" where
  "trim_end t = rev (dropWhile (\<lambda>c. c = 32) (rev t))"

text \<open>A text is displayed in pieces, one after another.\<close>

definition shown :: "utext list \<Rightarrow> nat \<Rightarrow> utext" where
  "shown pieces bytes =
     (let s = fold write_piece pieces
                \<lparr>sh_text = [], sh_bytes = bytes, sh_fits_mark = 0, sh_spaced = False, sh_cut = False\<rparr>
      in if sh_cut s then trim_end (text_truncate (sh_fits_mark s) (sh_text s)) @ CUT else sh_text s)"

subsection \<open>What is shown\<close>

text \<open>A text that needs no showing: no character in it deceives and no two spaces are adjacent.\<close>

fun single_spaced :: "utext \<Rightarrow> bool" where
  "single_spaced (a # b # t) \<longleftrightarrow> \<not> (a = 32 \<and> b = 32) \<and> single_spaced (b # t)"
| "single_spaced _ \<longleftrightarrow> True"

definition plain_text :: "utext \<Rightarrow> bool" where
  "plain_text t \<longleftrightarrow> (\<forall>c\<in>set t. \<not> deceives c) \<and> single_spaced t"

definition ends_spaced :: "utext \<Rightarrow> bool" where
  "ends_spaced t \<longleftrightarrow> t \<noteq> [] \<and> last t = 32"

lemma text_len_simps [simp]:
  "text_len [] = 0" "text_len (c # t) = utf8_len c + text_len t" "text_len (t @ u) = text_len t + text_len u"
  by (simp_all add: text_len_def)

lemma single_spaced_append:
  "single_spaced (t @ u) \<longleftrightarrow> single_spaced t \<and> single_spaced u \<and> \<not> (ends_spaced t \<and> u \<noteq> [] \<and> hd u = 32)"
proof (induction t)
  case (Cons a t)
  show ?case
  proof (cases t)
    case Nil
    then show ?thesis by (cases u) (auto simp: ends_spaced_def)
  next
    case (Cons b t')
    with Cons.IH show ?thesis by (simp add: ends_spaced_def)
  qed
qed (simp add: ends_spaced_def)

lemma plain_text_append:
  "plain_text (t @ u) \<longleftrightarrow> plain_text t \<and> plain_text u \<and> \<not> (ends_spaced t \<and> u \<noteq> [] \<and> hd u = 32)"
  by (auto simp: plain_text_def single_spaced_append)

lemma no_spaces_single: "\<forall>c\<in>set t. c \<noteq> 32 \<Longrightarrow> single_spaced t"
  by (induction t rule: single_spaced.induct) auto

lemma printable_plain: "0x20 \<le> c \<Longrightarrow> c \<le> 0x7e \<Longrightarrow> \<not> deceives c"
  by (simp add: deceives_def is_control_def blank_def format_char_def ignorable_def unmeaning_def)

lemma deceiver_unprintable: "deceives c \<Longrightarrow> \<not> (0x20 \<le> c \<and> c \<le> 0x7e)"
  using printable_plain by blast

lemma hex_digits_printable: "c \<in> set (hex_digits n) \<Longrightarrow> 0x20 < c \<and> c \<le> 0x7e"
proof (induction n rule: hex_digits.induct)
  case (1 n)
  show ?case
  proof (cases "n < 16")
    case True
    then show ?thesis using "1.prems" by (simp add: hex_digits.simps [of n] hex_digit_def split: if_splits)
  next
    case False
    moreover have "n mod 16 < 16" by simp
    ultimately show ?thesis
      using "1.prems" "1.IH" by (auto simp: hex_digits.simps [of n] hex_digit_def split: if_splits)
  qed
qed

text \<open>What a character is shown as: printable, and with no space but the space itself.\<close>

lemma shown_char_plain:
  assumes "c \<noteq> 32"
  shows "plain_text (shown_char c)" and "32 \<notin> set (shown_char c)" and "shown_char c \<noteq> []"
proof -
  have safe: "\<forall>x\<in>set (shown_char c). \<not> deceives x \<and> x \<noteq> 32"
  proof (cases "deceives c")
    case True
    with deceiver_unprintable have "\<not> (0x20 \<le> c \<and> c \<le> 0x7e)" by blast
    then have "\<forall>x\<in>set (escape_default c). 0x20 < x \<and> x \<le> 0x7e"
      using hex_digits_printable [of _ c] by (auto simp: escape_default_def)
    with True printable_plain show ?thesis by (auto simp: shown_char_def)
  next
    case False
    with assms show ?thesis by (simp add: shown_char_def)
  qed
  then show "plain_text (shown_char c)" and "32 \<notin> set (shown_char c)"
    by (auto simp: plain_text_def no_spaces_single)
  show "shown_char c \<noteq> []"
    by (simp add: shown_char_def escape_default_def)
qed

text \<open>What holds of a text being shown: it is plain and fits, and so much of it as fits before the
  mark of a cut is whole characters.\<close>

definition showing_inv :: "nat \<Rightarrow> showing \<Rightarrow> bool" where
  "showing_inv bytes s \<longleftrightarrow> sh_bytes s = bytes \<and> plain_text (sh_text s) \<and> text_len (sh_text s) \<le> bytes
     \<and> (\<not> sh_cut s \<longrightarrow> sh_spaced s = ends_spaced (sh_text s))
     \<and> (\<exists>u v. sh_text s = u @ v \<and> text_len u = sh_fits_mark s \<and> (u = [] \<or> text_len u + text_len CUT \<le> bytes))"

lemma keep_piece_inv:
  assumes "showing_inv bytes s" and "plain_text p" and "\<not> (ends_spaced (sh_text s) \<and> hd p = 32)"
    and "p \<noteq> []" and "b = ends_spaced p"
  shows "showing_inv bytes (keep_piece p (s\<lparr>sh_spaced := b\<rparr>))"
proof (cases "text_len (sh_text s) + text_len p > sh_bytes s")
  case True
  then show ?thesis using assms(1) by (auto simp: showing_inv_def keep_piece_def)
next
  case False
  have "ends_spaced (sh_text s @ p) = ends_spaced p" using assms(4) by (simp add: ends_spaced_def)
  moreover have "sh_bytes s = bytes" using assms(1) by (simp add: showing_inv_def)
  moreover have "\<exists>x y. sh_text s @ p = x @ y
      \<and> text_len x = (if text_len (sh_text s @ p) + text_len CUT \<le> bytes then text_len (sh_text s @ p) else sh_fits_mark s)
      \<and> (x = [] \<or> text_len x + text_len CUT \<le> bytes)"
  proof (cases "text_len (sh_text s @ p) + text_len CUT \<le> bytes")
    case True
    then show ?thesis by (intro exI [of _ "sh_text s @ p"] exI [of _ "[]"]) simp
  next
    case False
    obtain u v where "sh_text s = u @ v" "text_len u = sh_fits_mark s"
      "u = [] \<or> text_len u + text_len CUT \<le> bytes"
      using assms(1) unfolding showing_inv_def by blast
    with False show ?thesis by (intro exI [of _ u] exI [of _ "v @ p"]) auto
  qed
  ultimately show ?thesis
    using assms False
    by (cases "text_len (sh_text s @ p) + text_len CUT \<le> bytes")
      (simp_all add: showing_inv_def keep_piece_def Let_def plain_text_append)
qed

lemma keep_piece_spaced: "keep_piece p (s\<lparr>sh_spaced := b\<rparr>) = (keep_piece p s)\<lparr>sh_spaced := b\<rparr>"
  by (simp add: keep_piece_def Let_def)

lemma show_chars_inv: "showing_inv bytes s \<Longrightarrow> \<not> sh_cut s \<Longrightarrow> showing_inv bytes (show_chars cs s)"
proof (induction cs arbitrary: s)
  case (Cons c cs)
  have spaced: "sh_spaced s = ends_spaced (sh_text s)"
    using Cons.prems by (simp add: showing_inv_def)
  show ?case
  proof (cases "c = 32")
    case True
    have "showing_inv bytes (keep_piece [32] (s\<lparr>sh_spaced := True\<rparr>))" if "\<not> sh_spaced s"
      using that spaced Cons.prems printable_plain [of 32]
      by (intro keep_piece_inv) (auto simp: plain_text_def ends_spaced_def)
    moreover from this have "showing_inv bytes (keep_piece [32] s)" if "\<not> sh_spaced s" "sh_cut (keep_piece [32] s)"
      using that by (auto simp: keep_piece_spaced showing_inv_def)
    ultimately show ?thesis
      using True Cons.prems Cons.IH by (simp add: Let_def keep_piece_spaced)
  next
    case False
    note p = shown_char_plain [OF False]
    have "hd (shown_char c) \<noteq> 32" and last: "\<not> ends_spaced (shown_char c)"
      using p(2,3) hd_in_set last_in_set by (fastforce simp: ends_spaced_def)+
    then have "showing_inv bytes (keep_piece (shown_char c) (s\<lparr>sh_spaced := False\<rparr>))"
      using Cons.prems(1) p by (intro keep_piece_inv) auto
    then show ?thesis using False Cons.IH by (simp add: Let_def)
  qed
qed simp

lemma write_pieces_inv: "showing_inv bytes s \<Longrightarrow> showing_inv bytes (fold write_piece ps s)"
  by (induction ps arbitrary: s) (simp_all add: write_piece_def show_chars_inv)

lemma text_truncate_prefix: "text_truncate (text_len u) (u @ v) = u @ text_truncate 0 v"
  by (induction u) auto

lemma text_truncate_0: "text_truncate 0 v = []"
  by (cases v) (auto simp: utf8_len_def)

lemma trim_end_split: "\<exists>n. t = trim_end t @ replicate n 32"
proof -
  have "takeWhile (\<lambda>c. c = 32) (rev t) = replicate (length (takeWhile (\<lambda>c. c = 32) (rev t))) 32"
    by (rule replicate_eqI [symmetric, THEN sym]) (auto dest: set_takeWhileD)
  then have "t = trim_end t @ replicate (length (takeWhile (\<lambda>c. c = 32) (rev t))) 32"
    unfolding trim_end_def
    by (metis rev_append rev_replicate rev_rev_ident takeWhile_dropWhile_id)
  then show ?thesis by blast
qed

lemma trim_end_unspaced: "\<not> ends_spaced (trim_end t)"
  using hd_dropWhile [of "\<lambda>c. c = 32" "rev t"] by (auto simp: ends_spaced_def trim_end_def last_rev)

lemma CUT_plain: "plain_text CUT" "text_len CUT = 6"
  by (auto simp: plain_text_def CUT_def printable_plain utf8_len_def)

text \<open>A text that needs no showing and fits is shown as it is.\<close>

lemma show_chars_plain:
  "plain_text (sh_text s @ cs) \<Longrightarrow> text_len (sh_text s @ cs) \<le> sh_bytes s \<Longrightarrow> \<not> sh_cut s \<Longrightarrow>
   sh_spaced s = ends_spaced (sh_text s) \<Longrightarrow>
   sh_text (show_chars cs s) = sh_text s @ cs \<and> \<not> sh_cut (show_chars cs s)"
proof (induction cs arbitrary: s)
  case (Cons c cs)
  define b where "b = (c = 32)"
  define s' where "s' = (keep_piece [c] s)\<lparr>sh_spaced := b\<rparr>"
  have c: "\<not> deceives c" "\<not> (b \<and> sh_spaced s)"
    using Cons.prems by (auto simp: plain_text_def single_spaced_append b_def)
  have kept: "sh_text s' = sh_text s @ [c]" "\<not> sh_cut s'" "sh_bytes s' = sh_bytes s" "sh_spaced s' = b"
    using Cons.prems by (simp_all add: s'_def keep_piece_def Let_def)
  have "show_chars (c # cs) s = show_chars cs s'"
    using c kept(2) by (auto simp: Let_def shown_char_def s'_def b_def keep_piece_spaced)
  moreover have "sh_text (show_chars cs s') = sh_text s' @ cs \<and> \<not> sh_cut (show_chars cs s')"
    using Cons.prems by (intro Cons.IH) (simp_all add: kept ends_spaced_def b_def)
  ultimately show ?case by (simp add: kept)
qed simp

lemma shown_plain: "plain_text t \<Longrightarrow> text_len t \<le> bytes \<Longrightarrow> shown [t] bytes = t"
  using show_chars_plain [of "\<lparr>sh_text = [], sh_bytes = bytes, sh_fits_mark = 0, sh_spaced = False, sh_cut = False\<rparr>" t]
  by (simp add: shown_def write_piece_def ends_spaced_def Let_def)

lemma shown_fits:
  assumes "text_len CUT \<le> bytes"
  shows "plain_text (shown ps bytes)" and "text_len (shown ps bytes) \<le> bytes"
proof -
  define s where "s = fold write_piece ps \<lparr>sh_text = [], sh_bytes = bytes, sh_fits_mark = 0, sh_spaced = False, sh_cut = False\<rparr>"
  have inv: "showing_inv bytes s"
    unfolding s_def by (rule write_pieces_inv) (simp add: showing_inv_def plain_text_def ends_spaced_def)
  then obtain u v where uv: "sh_text s = u @ v" "text_len u = sh_fits_mark s" "u = [] \<or> text_len u + text_len CUT \<le> bytes"
    unfolding showing_inv_def by blast
  obtain n where n: "u = trim_end u @ replicate n 32" using trim_end_split by blast
  have cut: "text_truncate (sh_fits_mark s) (sh_text s) = u"
    by (simp only: uv(1) uv(2) [symmetric] text_truncate_prefix text_truncate_0 append_Nil2)
  have whole: "plain_text (sh_text s)" "text_len (sh_text s) \<le> bytes" using inv by (simp_all add: showing_inv_def)
  then have "plain_text u" unfolding uv(1) by (simp add: plain_text_append)
  then have "plain_text (trim_end u)" by (subst (asm) n) (simp add: plain_text_append)
  moreover have "text_len (trim_end u) \<le> text_len u" by (subst (2) n) simp
  moreover have "trim_end [] = []" by (simp add: trim_end_def)
  ultimately have "plain_text (trim_end u @ CUT)" "text_len (trim_end u @ CUT) \<le> bytes"
    using CUT_plain(1) trim_end_unspaced [of u] uv(3) assms by (auto simp: plain_text_append)
  then show "plain_text (shown ps bytes)" and "text_len (shown ps bytes) \<le> bytes"
    using whole cut by (simp_all add: shown_def Let_def flip: s_def)
qed

text \<open>C32: Text a connector sent is shown within its bytes, where they hold at least the mark of a
  cut: no character of what is shown deceives a reader, no two spaces are adjacent, and showing it
  again changes nothing, whatever pieces the text was displayed in.\<close>

theorem shown_fixpoint:
  assumes "text_len CUT \<le> bytes"
  shows "(\<forall>c\<in>set (shown ps bytes). \<not> deceives c) \<and> single_spaced (shown ps bytes)
    \<and> text_len (shown ps bytes) \<le> bytes \<and> shown [shown ps bytes] bytes = shown ps bytes"
  using shown_fits [OF assms] shown_plain by (auto simp: plain_text_def)

theorem shown_fixpoint_witness:
  "text_len CUT \<le> 12 \<and> shown [[97, 0x202e], [98, 32, 32, 99, 100]] 12 = [97] @ CUT
   \<and> shown [[97] @ CUT] 12 = [97] @ CUT"
proof -
  have "text_len CUT \<le> 12" and "shown [[97, 0x202e], [98, 32, 32, 99, 100]] 12 = [97] @ CUT"
    by code_simp+
  then show ?thesis using shown_fixpoint [of 12 "[[97, 0x202e], [98, 32, 32, 99, 100]]"] by simp
qed

text \<open>Bytes too few for the mark of a cut are passed by it: the text is then the mark alone.\<close>

lemma shown_passes_few_bytes: "shown [[97, 97, 97, 97]] 3 = CUT \<and> text_len CUT = 6"
  by code_simp

end
