(* ===== verification/Reports.thy ===== *)
theory Reports
  imports Commits
begin

text \<open>
  What a run reports (\<open>crates/rdlt-engine/src/report.rs\<close>, \<open>report/discards.rs\<close>, \<open>report/ledger.rs\<close>,
  \<open>report/counters.rs\<close>): the counts of a stream, what an attempt committed, folded as each commit
  lands, the run's report, and the ledger that credits a failed attempt's commit whose answer was
  lost once a later attempt's open finds it landed. Times and durations are numbers; an error's
  report is a parameter of the type. The counters of time spent, which no decision reads, are left
  out. Every row and byte a run's commits landed is shown to be counted once.
\<close>

subsection \<open>Counts\<close>

record shred_counts =
  sc_parsed :: nat
  sc_tripped :: nat
  sc_observed :: nat
  sc_rebuilt :: nat
  sc_exact :: nat

definition shred_default :: shred_counts where
  "shred_default = \<lparr>sc_parsed = 0, sc_tripped = 0, sc_observed = 0, sc_rebuilt = 0, sc_exact = 0\<rparr>"

definition shred_add :: "shred_counts \<Rightarrow> shred_counts \<Rightarrow> shred_counts" where
  "shred_add s other =
     \<lparr>sc_parsed = sadd (sc_parsed s) (sc_parsed other),
      sc_tripped = sadd (sc_tripped s) (sc_tripped other),
      sc_observed = sadd (sc_observed s) (sc_observed other),
      sc_rebuilt = sadd (sc_rebuilt s) (sc_rebuilt other),
      sc_exact = sadd (sc_exact s) (sc_exact other)\<rparr>"

definition shred_parse :: "bool \<Rightarrow> shred_counts \<Rightarrow> shred_counts" where
  "shred_parse exact s = s\<lparr>sc_parsed := sadd (sc_parsed s) 1, sc_exact := sadd (sc_exact s) (of_bool exact)\<rparr>"

definition shred_observe :: "bool \<Rightarrow> shred_counts \<Rightarrow> shred_counts" where
  "shred_observe exact s = s\<lparr>sc_observed := sadd (sc_observed s) 1, sc_exact := sadd (sc_exact s) (of_bool exact)\<rparr>"

definition shred_rebuild :: "bool \<Rightarrow> shred_counts \<Rightarrow> shred_counts" where
  "shred_rebuild exact s = s\<lparr>sc_rebuilt := sadd (sc_rebuilt s) 1, sc_exact := sadd (sc_exact s) (of_bool exact)\<rparr>"

record filtered_rows =
  fr_dropped :: nat
  fr_deleted :: nat

definition filtered_default :: filtered_rows where
  "filtered_default = \<lparr>fr_dropped = 0, fr_deleted = 0\<rparr>"

definition filtered_add :: "filtered_rows \<Rightarrow> filtered_rows \<Rightarrow> filtered_rows" where
  "filtered_add s other =
     \<lparr>fr_dropped = wadd (fr_dropped s) (fr_dropped other), fr_deleted = wadd (fr_deleted s) (fr_deleted other)\<rparr>"

text \<open>The headroom a source's retention leaves: bytes and time, each where the source says.\<close>

record headroom =
  hr_bytes :: "nat option"
  hr_time :: "nat option"

definition headroom_default :: headroom where
  "headroom_default = \<lparr>hr_bytes = None, hr_time = None\<rparr>"

fun least_of :: "nat option \<Rightarrow> nat option \<Rightarrow> nat option" where
  "least_of (Some a) (Some b) = Some (min a b)"
| "least_of (Some a) None = Some a"
| "least_of None b = b"

definition headroom_least :: "headroom \<Rightarrow> headroom \<Rightarrow> headroom" where
  "headroom_least a b =
     \<lparr>hr_bytes = least_of (hr_bytes a) (hr_bytes b), hr_time = least_of (hr_time a) (hr_time b)\<rparr>"

subsection \<open>Discards\<close>

datatype discard_reason = SchemaChange | OutOfRange

text \<open>The derived order of the reasons.\<close>

instantiation discard_reason :: linorder
begin

definition less_eq_discard_reason :: "discard_reason \<Rightarrow> discard_reason \<Rightarrow> bool" where
  "less_eq_discard_reason a b \<longleftrightarrow> a = SchemaChange \<or> b = OutOfRange"

definition less_discard_reason :: "discard_reason \<Rightarrow> discard_reason \<Rightarrow> bool" where
  "less_discard_reason a b \<longleftrightarrow> a = SchemaChange \<and> b = OutOfRange"

instance
proof
  fix x y z :: discard_reason
  show "x < y \<longleftrightarrow> x \<le> y \<and> \<not> y \<le> x"
    by (cases x; cases y) (simp_all add: less_eq_discard_reason_def less_discard_reason_def)
  show "x \<le> x" by (cases x) (simp_all add: less_eq_discard_reason_def)
  show "x \<le> y \<Longrightarrow> y \<le> z \<Longrightarrow> x \<le> z" by (auto simp: less_eq_discard_reason_def)
  show "x \<le> y \<Longrightarrow> y \<le> x \<Longrightarrow> x = y" by (auto simp: less_eq_discard_reason_def)
  show "x \<le> y \<or> y \<le> x" by (cases x; cases y) (simp_all add: less_eq_discard_reason_def)
qed

end

record discard =
  di_table :: string
  di_column :: string
  di_reason :: discard_reason
  di_rows :: nat
  di_values :: nat

record discards =
  ds_listed :: "discard list"
  ds_unlisted_rows :: nat
  ds_unlisted_values :: nat

definition REPORTED_LISTED :: nat where
  "REPORTED_LISTED = 128"

definition discards_default :: discards where
  "discards_default = \<lparr>ds_listed = [], ds_unlisted_rows = 0, ds_unlisted_values = 0\<rparr>"

definition unlist :: "nat \<Rightarrow> nat \<Rightarrow> discards \<Rightarrow> discards" where
  "unlist rows vals d =
     d\<lparr>ds_unlisted_rows := sadd (ds_unlisted_rows d) rows, ds_unlisted_values := sadd (ds_unlisted_values d) vals\<rparr>"

definition same_discard :: "discard \<Rightarrow> discard \<Rightarrow> bool" where
  "same_discard d listed \<longleftrightarrow>
     (di_table listed, di_column listed, di_reason listed) = (di_table d, di_column d, di_reason d)"

fun list_discard :: "discard \<Rightarrow> discard list \<Rightarrow> discard list option" where
  "list_discard d [] = None"
| "list_discard d (l # ls) =
     (if same_discard d l
      then Some (l\<lparr>di_rows := sadd (di_rows l) (di_rows d), di_values := sadd (di_values l) (di_values d)\<rparr> # ls)
      else map_option ((#) l) (list_discard d ls))"

definition absorb_discard :: "discard \<Rightarrow> discards \<Rightarrow> discards" where
  "absorb_discard d ds =
     (case list_discard d (ds_listed ds) of
        Some listed \<Rightarrow> ds\<lparr>ds_listed := listed\<rparr>
      | None \<Rightarrow>
          if length (ds_listed ds) < REPORTED_LISTED then ds\<lparr>ds_listed := ds_listed ds @ [d]\<rparr>
          else unlist (di_rows d) (di_values d) ds)"

definition discards_absorb :: "discards \<Rightarrow> discards \<Rightarrow> discards" where
  "discards_absorb ds other =
     unlist (ds_unlisted_rows other) (ds_unlisted_values other) (fold absorb_discard (ds_listed other) ds)"

record column_discards =
  cd_kept :: "(string \<times> string \<times> discard_reason, nat \<times> nat) btree"
  cd_unlisted :: "nat \<times> nat"

definition column_discards_default :: column_discards where
  "column_discards_default = \<lparr>cd_kept = [], cd_unlisted = (0, 0)\<rparr>"

definition counts_add :: "nat \<times> nat \<Rightarrow> nat \<times> nat \<Rightarrow> nat \<times> nat" where
  "counts_add = (\<lambda>(rows, vals) (r, v). (sadd r rows, sadd v vals))"

definition column_discards_add :: "string \<times> string \<times> discard_reason \<Rightarrow> nat \<times> nat \<Rightarrow> column_discards
    \<Rightarrow> column_discards" where
  "column_discards_add key counts cd =
     (if length (cd_kept cd) < REPORTED_LISTED \<or> bt_get (cd_kept cd) key \<noteq> None
      then cd\<lparr>cd_kept := bt_entry key (0, 0) (counts_add counts) (cd_kept cd)\<rparr>
      else cd\<lparr>cd_unlisted := counts_add counts (cd_unlisted cd)\<rparr>)"

definition column_discards_absorb :: "column_discards \<Rightarrow> column_discards \<Rightarrow> column_discards" where
  "column_discards_absorb cd other =
     (let cd' = fold (\<lambda>(key, counts). column_discards_add key counts) (cd_kept other) cd
      in cd'\<lparr>cd_unlisted := counts_add (cd_unlisted other) (cd_unlisted cd')\<rparr>)"

definition column_discards_is_empty :: "column_discards \<Rightarrow> bool" where
  "column_discards_is_empty cd \<longleftrightarrow> cd_kept cd = []"

text \<open>What a report names, each name as \<open>show\<close> shows it to a reader.\<close>

definition column_discards_reported :: "(string \<Rightarrow> string) \<Rightarrow> column_discards \<Rightarrow> discards" where
  "column_discards_reported show cd =
     \<lparr>ds_listed = map (\<lambda>((table, column, reason), rows, vals).
        \<lparr>di_table = show table, di_column = show column, di_reason = reason, di_rows = rows, di_values = vals\<rparr>)
        (cd_kept cd),
      ds_unlisted_rows = fst (cd_unlisted cd), ds_unlisted_values = snd (cd_unlisted cd)\<rparr>"

subsection \<open>Streams and commits\<close>

definition REPORTED_FORGOTTEN :: nat where
  "REPORTED_FORGOTTEN = 128"

definition REPORTED_ATTEMPTS :: nat where
  "REPORTED_ATTEMPTS = 128"

record forgotten =
  fg_partitions :: "partition_id list"
  fg_unlisted :: nat

definition forgotten_default :: forgotten where
  "forgotten_default = \<lparr>fg_partitions = [], fg_unlisted = 0\<rparr>"

definition forgotten_note :: "partition_id list \<Rightarrow> forgotten \<Rightarrow> forgotten" where
  "forgotten_note partitions f =
     (let all = fg_partitions f @ partitions;
          over = length all - REPORTED_FORGOTTEN
      in \<lparr>fg_partitions = drop over all, fg_unlisted = sadd (fg_unlisted f) over\<rparr>)"

definition forgotten_absorb :: "forgotten \<Rightarrow> forgotten \<Rightarrow> forgotten" where
  "forgotten_absorb later f =
     forgotten_note (fg_partitions later) (f\<lparr>fg_unlisted := sadd (fg_unlisted f) (fg_unlisted later)\<rparr>)"

record stream_report =
  sr_rows :: nat
  sr_bytes :: nat
  sr_commits :: nat
  sr_generations_swapped :: nat
  sr_discarded_rows :: nat
  sr_discarded_values :: nat
  sr_discards :: discards
  sr_deletes_ignored :: nat
  sr_truncates_ignored :: nat
  sr_behind :: "nat option"
  sr_headroom :: headroom
  sr_retention_resets :: nat
  sr_forgotten :: forgotten
  sr_shred :: shred_counts
  sr_filtered :: filtered_rows

definition stream_report_default :: stream_report where
  "stream_report_default =
     \<lparr>sr_rows = 0, sr_bytes = 0, sr_commits = 0, sr_generations_swapped = 0, sr_discarded_rows = 0,
      sr_discarded_values = 0, sr_discards = discards_default, sr_deletes_ignored = 0,
      sr_truncates_ignored = 0, sr_behind = None, sr_headroom = headroom_default,
      sr_retention_resets = 0, sr_forgotten = forgotten_default, sr_shred = shred_default,
      sr_filtered = filtered_default\<rparr>"

definition stream_report_absorb :: "stream_report \<Rightarrow> stream_report \<Rightarrow> stream_report" where
  "stream_report_absorb other s =
     s\<lparr>sr_rows := wadd (sr_rows s) (sr_rows other),
       sr_bytes := wadd (sr_bytes s) (sr_bytes other),
       sr_commits := wadd (sr_commits s) (sr_commits other),
       sr_generations_swapped := wadd (sr_generations_swapped s) (sr_generations_swapped other),
       sr_discarded_rows := wadd (sr_discarded_rows s) (sr_discarded_rows other),
       sr_discarded_values := wadd (sr_discarded_values s) (sr_discarded_values other),
       sr_discards := discards_absorb (sr_discards s) (sr_discards other),
       sr_deletes_ignored := wadd (sr_deletes_ignored s) (sr_deletes_ignored other),
       sr_truncates_ignored := wadd (sr_truncates_ignored s) (sr_truncates_ignored other),
       sr_shred := shred_add (sr_shred s) (sr_shred other),
       sr_filtered := filtered_add (sr_filtered s) (sr_filtered other)\<rparr>"

type_synonym stream_reports = "(stream_name, stream_report) btree"

record commit_record =
  cr_receipt :: receipt
  cr_streams :: stream_reports

record pending =
  pd_key :: commit_key
  pd_streams :: stream_reports

definition pending_landed :: "pending \<Rightarrow> receipt \<Rightarrow> commit_record option" where
  "pending_landed p landed =
     (if rc_key landed = pd_key p then Some \<lparr>cr_receipt = landed, cr_streams = pd_streams p\<rparr> else None)"

record committed =
  co_commits :: nat
  co_rows :: nat
  co_bytes :: nat
  co_streams :: stream_reports

definition committed_default :: committed where
  "committed_default = \<lparr>co_commits = 0, co_rows = 0, co_bytes = 0, co_streams = []\<rparr>"

datatype report_error = ReceiptOverflow

definition total :: "nat \<Rightarrow> nat \<Rightarrow> report_error + nat" where
  "total held extra = (case checked_add held extra of Some t \<Rightarrow> Inr t | None \<Rightarrow> Inl ReceiptOverflow)"

definition committed_add :: "commit_record \<Rightarrow> committed \<Rightarrow> report_error + committed" where
  "committed_add c s =
     rbind (total (co_rows s) (rc_rows (cr_receipt c))) (\<lambda>rows.
     rbind (total (co_bytes s) (rc_bytes (cr_receipt c))) (\<lambda>bytes.
       Inr \<lparr>co_commits = wadd (co_commits s) 1, co_rows = rows, co_bytes = bytes,
            co_streams = fold (\<lambda>(stream, counts).
              bt_entry stream stream_report_default (stream_report_absorb counts)) (cr_streams c) (co_streams s)\<rparr>))"

subsection \<open>Attempts and the report\<close>

datatype attempt_end = Exhausted | Stopped

record attempt_log =
  al_committed :: committed
  al_progressed :: bool
  al_end :: "attempt_end option"
  al_pending :: "pending option"
  al_opened :: "(epoch \<times> receipt option) option"
  al_behind :: "(stream_name, nat \<times> headroom) btree"
  al_retention_resets :: "(stream_name, nat) btree"
  al_forgotten :: "(stream_name, forgotten) btree"

definition attempt_log_default :: attempt_log where
  "attempt_log_default =
     \<lparr>al_committed = committed_default, al_progressed = False, al_end = None, al_pending = None,
      al_opened = None, al_behind = [], al_retention_resets = [], al_forgotten = []\<rparr>"

record 'e attempt_record =
  ar_started_at :: nat
  ar_ended_at :: nat
  ar_log :: attempt_log
  ar_error :: "'e option"

record 'e attempt_report =
  at_epoch :: "epoch option"
  at_started_at :: nat
  at_ended_at :: nat
  at_commits :: nat
  at_rows :: nat
  at_bytes :: nat
  at_error :: "'e option"

datatype run_status = Running | Succeeded | RunStopped | Failed | Cancelled

record 'e report =
  rp_pipeline :: pipeline_id
  rp_status :: run_status
  rp_attempts :: "'e attempt_report list"
  rp_attempted :: nat
  rp_elapsed :: nat
  rp_rows :: nat
  rp_bytes :: nat
  rp_commits :: nat
  rp_peak_memory :: nat
  rp_streams :: "(string, stream_report) btree"

definition report_new :: "pipeline_id \<Rightarrow> 'e report" where
  "report_new p =
     \<lparr>rp_pipeline = p, rp_status = Succeeded, rp_attempts = [], rp_attempted = 0, rp_elapsed = 0,
      rp_rows = 0, rp_bytes = 0, rp_commits = 0, rp_peak_memory = 0, rp_streams = []\<rparr>"

text \<open>A stream's name as it is displayed, its namespace first where it has one.\<close>

fun stream_display :: "stream_name \<Rightarrow> string" where
  "stream_display (Some namespace, name) = namespace @ ''.'' @ name"
| "stream_display (None, name) = name"

text \<open>Changes the report of a stream, which is new where it has none.\<close>

definition in_stream :: "(stream_report \<Rightarrow> stream_report) \<Rightarrow> stream_name \<Rightarrow> (string, stream_report) btree
    \<Rightarrow> (string, stream_report) btree" where
  "in_stream f stream = bt_entry (stream_display stream) stream_report_default f"

definition report_streams :: "attempt_log \<Rightarrow> (string, stream_report) btree \<Rightarrow> (string, stream_report) btree" where
  "report_streams log streams =
     fold (\<lambda>(stream, counts). in_stream (stream_report_absorb counts) stream) (co_streams (al_committed log))
     (fold (\<lambda>(stream, resets).
        in_stream (\<lambda>s. s\<lparr>sr_retention_resets := wadd (sr_retention_resets s) resets\<rparr>) stream) (al_retention_resets log)
     (fold (\<lambda>(stream, f).
        in_stream (\<lambda>s. s\<lparr>sr_forgotten := forgotten_absorb f (sr_forgotten s)\<rparr>) stream) (al_forgotten log)
     (fold (\<lambda>(stream, behind, room).
        in_stream (\<lambda>s. s\<lparr>sr_behind := Some behind, sr_headroom := room\<rparr>) stream) (al_behind log) streams)))"

text \<open>An attempt folded in; the earliest listed goes once more than the kept are listed.\<close>

definition report_absorb :: "'e attempt_record \<Rightarrow> 'e report \<Rightarrow> report_error + 'e report" where
  "report_absorb a r =
     (let c = al_committed (ar_log a)
      in rbind (total (rp_rows r) (co_rows c)) (\<lambda>rows.
         rbind (total (rp_bytes r) (co_bytes c)) (\<lambda>bytes.
           let listed = rp_attempts r @
                 [\<lparr>at_epoch = map_option fst (al_opened (ar_log a)), at_started_at = ar_started_at a,
                   at_ended_at = ar_ended_at a, at_commits = co_commits c, at_rows = co_rows c,
                   at_bytes = co_bytes c, at_error = ar_error a\<rparr>]
           in Inr (r\<lparr>rp_streams := report_streams (ar_log a) (rp_streams r), rp_rows := rows, rp_bytes := bytes,
                    rp_commits := wadd (rp_commits r) (co_commits c), rp_attempted := wadd (rp_attempted r) 1,
                    rp_attempts := (if length listed > REPORTED_ATTEMPTS then tl listed else listed)\<rparr>))))"

text \<open>Changes the first element a predicate holds of.\<close>

fun change_first :: "('a \<Rightarrow> bool) \<Rightarrow> ('a \<Rightarrow> 'a) \<Rightarrow> 'a list \<Rightarrow> 'a list" where
  "change_first p f [] = []"
| "change_first p f (x # xs) = (if p x then f x # xs else x # change_first p f xs)"

definition report_credit :: "commit_record \<Rightarrow> 'e report \<Rightarrow> report_error + 'e report" where
  "report_credit commit r =
     (let epoch = ck_epoch (rc_key (cr_receipt commit))
      in rbind (committed_add commit committed_default) (\<lambda>c.
         rbind (total (rp_rows r) (co_rows c)) (\<lambda>rows.
         rbind (total (rp_bytes r) (co_bytes c)) (\<lambda>bytes.
           Inr (r\<lparr>rp_streams := fold (\<lambda>(stream, counts). in_stream (stream_report_absorb counts) stream)
                    (co_streams c) (rp_streams r),
                  rp_rows := rows, rp_bytes := bytes, rp_commits := wadd (rp_commits r) (co_commits c),
                  rp_attempts := change_first (\<lambda>a. at_epoch a = Some epoch)
                    (\<lambda>a. a\<lparr>at_commits := wadd (at_commits a) (co_commits c),
                           at_rows := sadd (at_rows a) (co_rows c),
                           at_bytes := sadd (at_bytes a) (co_bytes c)\<rparr>) (rp_attempts r)\<rparr>)))))"

subsection \<open>The ledger\<close>

record 'e run_ledger =
  le_report :: "'e report"
  le_unresolved :: "pending option"

record credit =
  cd_rows :: nat
  cd_bytes :: nat

definition run_ledger_new :: "pipeline_id \<Rightarrow> 'e run_ledger" where
  "run_ledger_new p = \<lparr>le_report = report_new p, le_unresolved = None\<rparr>"

text \<open>What an attempt that opened a session found of the commit left in flight: the commit, where its
  key is the last that landed. One that opened none found nothing, and leaves it in flight.\<close>

definition found_landed :: "attempt_log \<Rightarrow> pending option \<Rightarrow> commit_record option" where
  "found_landed log unresolved =
     (case (al_opened log, unresolved) of
        (Some (_, Some landed), Some p) \<Rightarrow> pending_landed p landed
      | _ \<Rightarrow> None)"

definition ledger_record :: "'e attempt_record \<Rightarrow> bool \<Rightarrow> 'e run_ledger
    \<Rightarrow> report_error + 'e run_ledger \<times> bool \<times> credit option" where
  "ledger_record a failed l =
     (let log = ar_log a;
          commit = found_landed log (le_unresolved l);
          unresolved = (if al_opened log \<noteq> None then None else le_unresolved l)
      in rbind (case commit of None \<Rightarrow> Inr (le_report l) | Some c \<Rightarrow> report_credit c (le_report l)) (\<lambda>report.
           let credited = map_option (\<lambda>c. \<lparr>cd_rows = rc_rows (cr_receipt c), cd_bytes = rc_bytes (cr_receipt c)\<rparr>) commit;
               unresolved' = (if failed \<and> al_pending log \<noteq> None then al_pending log else unresolved);
               log' = (if failed then log\<lparr>al_pending := None\<rparr> else log)
           in rbind (report_absorb (a\<lparr>ar_log := log'\<rparr>) report) (\<lambda>report'.
                Inr (\<lparr>le_report = report', le_unresolved = unresolved'\<rparr>, al_progressed log, credited))))"

text \<open>What the coordinator keeps in the log of a commit (\<open>coordinator/commit.rs\<close>): it is in flight
  before it is sent, and counted once its receipt is answered.\<close>

definition log_pending :: "commit_key \<Rightarrow> stream_reports \<Rightarrow> attempt_log \<Rightarrow> attempt_log" where
  "log_pending key streams log = log\<lparr>al_pending := Some \<lparr>pd_key = key, pd_streams = streams\<rparr>\<rparr>"

definition log_record :: "receipt \<Rightarrow> stream_reports \<Rightarrow> attempt_log \<Rightarrow> report_error + attempt_log" where
  "log_record r streams log =
     rbind (committed_add \<lparr>cr_receipt = r, cr_streams = streams\<rparr> (al_committed log)) (\<lambda>c.
       Inr (log\<lparr>al_pending := None, al_committed := c\<rparr>))"

subsection \<open>A run and what its destination landed\<close>

text \<open>
  A run makes attempts one after another. An attempt opens a session under a newer epoch and is told
  the receipt of the last commit that landed; it sends one commit at a time, under its next key; the
  destination lands it; its answer is counted, or is lost and the attempt fails. A commit whose
  attempt failed may still land until a newer session opens, which fences it. The receipts that
  landed, in order, are a history the program does not keep.
\<close>

record 'e run_state =
  rn_before :: "receipt option"
  rn_landed :: "receipt list"
  rn_key :: commit_key
  rn_log :: "attempt_log option"
  rn_ledger :: "'e run_ledger"

definition run_start :: "pipeline_id \<Rightarrow> receipt option \<Rightarrow> epoch \<Rightarrow> 'e run_state" where
  "run_start p before epoch =
     \<lparr>rn_before = before, rn_landed = [], rn_key = CommitKey epoch 0, rn_log = None, rn_ledger = run_ledger_new p\<rparr>"

definition last_landed :: "'e run_state \<Rightarrow> receipt option" where
  "last_landed s = (if rn_landed s = [] then rn_before s else Some (last (rn_landed s)))"

definition opened :: "'e run_state \<Rightarrow> bool" where
  "opened s \<longleftrightarrow> (\<exists>log. rn_log s = Some log \<and> al_opened log \<noteq> None)"

definition key_landed :: "commit_key \<Rightarrow> receipt list \<Rightarrow> bool" where
  "key_landed k rs \<longleftrightarrow> k \<in> rc_key ` set rs"

inductive run_step :: "'e run_state \<Rightarrow> 'e run_state \<Rightarrow> bool" where
  attempt: "rn_log s = None \<Longrightarrow> run_step s (s\<lparr>rn_log := Some attempt_log_default\<rparr>)"
| open_session: "rn_log s = Some log \<Longrightarrow> al_opened log = None \<Longrightarrow> ck_epoch (rn_key s) < epoch \<Longrightarrow>
    run_step s (s\<lparr>rn_log := Some (log\<lparr>al_opened := Some (epoch, last_landed s)\<rparr>), rn_key := CommitKey epoch 1\<rparr>)"
| send: "rn_log s = Some log \<Longrightarrow> al_opened log \<noteq> None \<Longrightarrow> al_pending log = None \<Longrightarrow>
    run_step s (s\<lparr>rn_log := Some (log_pending (rn_key s) streams log)\<rparr>)"
| land: "rn_log s = Some log \<Longrightarrow> al_pending log = Some p \<Longrightarrow> \<not> key_landed (pd_key p) (rn_landed s) \<Longrightarrow>
    rc_key r = pd_key p \<Longrightarrow> run_step s (s\<lparr>rn_landed := rn_landed s @ [r]\<rparr>)"
| land_late: "\<not> opened s \<Longrightarrow> le_unresolved (rn_ledger s) = Some p \<Longrightarrow> \<not> key_landed (pd_key p) (rn_landed s) \<Longrightarrow>
    rc_key r = pd_key p \<Longrightarrow> run_step s (s\<lparr>rn_landed := rn_landed s @ [r]\<rparr>)"
| answered: "rn_log s = Some log \<Longrightarrow> al_pending log = Some p \<Longrightarrow> r \<in> set (rn_landed s) \<Longrightarrow> rc_key r = pd_key p \<Longrightarrow>
    log_record r (pd_streams p) log = Inr log' \<Longrightarrow>
    run_step s (s\<lparr>rn_log := Some log', rn_key := CommitKey (ck_epoch (rn_key s)) (ck_seq (rn_key s) + 1)\<rparr>)"
| ended: "rn_log s = Some (ar_log a) \<Longrightarrow> failed \<or> al_pending (ar_log a) = None \<Longrightarrow>
    ledger_record a failed (rn_ledger s) = Inr (ledger, progressed, credited) \<Longrightarrow>
    run_step s (s\<lparr>rn_log := None, rn_ledger := ledger\<rparr>)"

inductive run_reachable :: "'e run_state \<Rightarrow> bool" where
  start: "\<forall>r. before = Some r \<longrightarrow> ck_epoch (rc_key r) \<le> epoch \<Longrightarrow> run_reachable (run_start p before epoch)"
| step: "run_reachable s \<Longrightarrow> run_step s s' \<Longrightarrow> run_reachable s'"

text \<open>What a commit left in flight landed, by a count of its receipt.\<close>

definition in_flight :: "(receipt \<Rightarrow> nat) \<Rightarrow> pending option \<Rightarrow> receipt list \<Rightarrow> nat" where
  "in_flight amount pend landed =
     (case pend of
        None \<Rightarrow> 0
      | Some p \<Rightarrow> sum_list (map amount (filter (\<lambda>r. rc_key r = pd_key p) landed)))"

subsection \<open>Keys and sessions of a run\<close>

definition keys_ordered :: "'e run_state \<Rightarrow> bool" where
  "keys_ordered s \<longleftrightarrow> distinct (map rc_key (rn_landed s)) \<and> (\<forall>r\<in>set (rn_landed s). rc_key r \<le> rn_key s)
     \<and> (\<forall>r. rn_before s = Some r \<longrightarrow> ck_epoch (rc_key r) \<le> ck_epoch (rn_key s))
     \<and> (\<forall>p. le_unresolved (rn_ledger s) = Some p \<longrightarrow> pd_key p \<le> rn_key s
          \<and> (opened s \<longrightarrow> ck_epoch (pd_key p) < ck_epoch (rn_key s))
          \<and> (\<forall>r. rn_before s = Some r \<longrightarrow> rc_key r \<noteq> pd_key p))"

definition log_kept :: "'e run_state \<Rightarrow> bool" where
  "log_kept s \<longleftrightarrow> (\<forall>log. rn_log s = Some log \<longrightarrow>
     (al_opened log = None \<longrightarrow> al_pending log = None \<and> al_committed log = committed_default)
     \<and> (\<forall>p. al_pending log = Some p \<longrightarrow> pd_key p = rn_key s
          \<and> (key_landed (pd_key p) (rn_landed s) \<longrightarrow> rc_key (last (rn_landed s)) = pd_key p))
     \<and> (al_opened log \<noteq> None \<and> al_pending log = None \<longrightarrow> \<not> key_landed (rn_key s) (rn_landed s))
     \<and> (al_opened log \<noteq> None \<longrightarrow> (\<forall>r. rn_before s = Some r \<longrightarrow> ck_epoch (rc_key r) < ck_epoch (rn_key s))))"

text \<open>A commit left in flight that landed is the last that landed until the next session opens, and
  then what that session was told.\<close>

definition last_is :: "pending \<Rightarrow> receipt list \<Rightarrow> bool" where
  "last_is p landed \<longleftrightarrow> (key_landed (pd_key p) landed \<longrightarrow> rc_key (last landed) = pd_key p)"

definition sees :: "pending \<Rightarrow> receipt list \<Rightarrow> receipt option \<Rightarrow> bool" where
  "sees p landed seen \<longleftrightarrow> (\<forall>r. rc_key r = pd_key p \<longrightarrow> (r \<in> set landed \<longleftrightarrow> seen = Some r))"

definition unresolved_seen :: "'e run_state \<Rightarrow> bool" where
  "unresolved_seen s \<longleftrightarrow> (\<forall>p. le_unresolved (rn_ledger s) = Some p \<longrightarrow>
     (\<not> opened s \<longrightarrow> last_is p (rn_landed s))
     \<and> (\<forall>log e seen. rn_log s = Some log \<longrightarrow> al_opened log = Some (e, seen) \<longrightarrow> sees p (rn_landed s) seen))"

definition run_inv :: "'e run_state \<Rightarrow> bool" where
  "run_inv s \<longleftrightarrow> keys_ordered s \<and> log_kept s \<and> unresolved_seen s"

lemmas run_inv_defs = run_inv_def keys_ordered_def log_kept_def unresolved_seen_def opened_def key_landed_def last_is_def

lemma key_epoch_le: "k \<le> k' \<Longrightarrow> ck_epoch k \<le> ck_epoch k'"
  by (auto simp: less_eq_commit_key_def)

lemma key_epoch_less: "ck_epoch k < ck_epoch k' \<Longrightarrow> k < k'"
  by (auto simp: less_commit_key_def)

lemma key_next: "k \<le> k' \<Longrightarrow> k < CommitKey (ck_epoch k') (Suc (ck_seq k'))"
  by (cases k; cases k') (auto simp: less_eq_commit_key_def less_commit_key_def)

lemma key_opens: "k \<le> k' \<Longrightarrow> ck_epoch k' < e \<Longrightarrow> k < CommitKey e n"
  using key_epoch_le key_epoch_less by fastforce

lemma run_inv_start: "\<forall>r. before = Some r \<longrightarrow> ck_epoch (rc_key r) \<le> epoch \<Longrightarrow> run_inv (run_start p before epoch)"
  by (simp add: run_inv_defs run_start_def run_ledger_new_def)

lemma run_inv_attempt: "run_inv s \<Longrightarrow> rn_log s = None \<Longrightarrow> run_inv (s\<lparr>rn_log := Some attempt_log_default\<rparr>)"
  by (auto simp: run_inv_defs attempt_log_default_def)

lemma last_landed_key:
  assumes "keys_ordered s" and "rn_landed s \<noteq> []" and "r \<in> set (rn_landed s)" and "rc_key (last (rn_landed s)) = rc_key r"
  shows "last (rn_landed s) = r"
  using assms by (auto simp: keys_ordered_def distinct_map inj_on_def)

lemma run_inv_open:
  assumes inv: "run_inv s" and log: "rn_log s = Some log" "al_opened log = None" and e: "ck_epoch (rn_key s) < epoch"
  shows "run_inv (s\<lparr>rn_log := Some (log\<lparr>al_opened := Some (epoch, last_landed s)\<rparr>), rn_key := CommitKey epoch 1\<rparr>)"
    (is "run_inv ?t")
proof -
  have k: "keys_ordered s" "log_kept s" "unresolved_seen s" using inv by (simp_all add: run_inv_def)
  have new: "rc_key r < CommitKey epoch 1" if "r \<in> set (rn_landed s)" for r
    using that k(1) e key_opens by (auto simp: keys_ordered_def)
  have left: "pd_key p < CommitKey epoch 1 \<and> ck_epoch (pd_key p) < epoch" if "le_unresolved (rn_ledger s) = Some p" for p
  proof -
    have "pd_key p \<le> rn_key s" using that k(1) by (simp add: keys_ordered_def)
    then show ?thesis using e key_opens [of "pd_key p" "rn_key s" epoch 1] key_epoch_le by fastforce
  qed
  have "keys_ordered ?t"
    using k(1) new left e by (fastforce simp: keys_ordered_def)
  moreover have "log_kept ?t"
    using k(1,2) log new e by (fastforce simp: log_kept_def key_landed_def keys_ordered_def)
  moreover have "unresolved_seen ?t"
  proof -
    have "sees p (rn_landed s) (last_landed s)" if p: "le_unresolved (rn_ledger s) = Some p" for p
      unfolding sees_def
    proof (intro allI impI iffI)
      fix r assume r: "rc_key r = pd_key p" "r \<in> set (rn_landed s)"
      have "last_is p (rn_landed s)" using k(3) log p by (simp add: unresolved_seen_def opened_def)
      moreover have "key_landed (pd_key p) (rn_landed s)" using r by (metis key_landed_def imageI)
      ultimately have "rn_landed s \<noteq> []" "rc_key (last (rn_landed s)) = rc_key r"
        using r by (auto simp: last_is_def)
      with last_landed_key [OF k(1) _ r(2)] show "last_landed s = Some r" by (simp add: last_landed_def)
    next
      fix r assume "rc_key r = pd_key p" "last_landed s = Some r"
      with p k(1) show "r \<in> set (rn_landed s)" by (auto simp: last_landed_def keys_ordered_def split: if_splits)
    qed
    then show ?thesis by (auto simp: unresolved_seen_def opened_def)
  qed
  ultimately show ?thesis by (simp add: run_inv_def)
qed

lemma run_inv_send:
  "run_inv s \<Longrightarrow> rn_log s = Some log \<Longrightarrow> al_opened log \<noteq> None \<Longrightarrow> al_pending log = None \<Longrightarrow>
   run_inv (s\<lparr>rn_log := Some (log_pending (rn_key s) streams log)\<rparr>)"
  by (auto simp: run_inv_defs log_pending_def)

lemma run_inv_land:
  assumes inv: "run_inv s" and log: "rn_log s = Some log" "al_pending log = Some p"
    and r: "\<not> key_landed (pd_key p) (rn_landed s)" "rc_key r = pd_key p"
  shows "run_inv (s\<lparr>rn_landed := rn_landed s @ [r]\<rparr>)" (is "run_inv ?t")
proof -
  have k: "keys_ordered s" "log_kept s" "unresolved_seen s" using inv by (simp_all add: run_inv_def)
  have key: "pd_key p = rn_key s" and opn: "al_opened log \<noteq> None"
    using k(2) log unfolding log_kept_def by auto
  have left: "pd_key q \<noteq> rn_key s" if "le_unresolved (rn_ledger s) = Some q" for q
    using that k(1) log opn by (auto simp: keys_ordered_def opened_def)
  have "keys_ordered ?t"
    using k(1) r key by (auto simp: keys_ordered_def opened_def key_landed_def image_def)
  moreover have "log_kept ?t"
    using k(2) log r by (auto simp: log_kept_def key_landed_def)
  moreover have "unresolved_seen ?t"
    unfolding unresolved_seen_def
  proof (intro allI impI conjI)
    fix q assume q: "le_unresolved (rn_ledger ?t) = Some q"
    { assume "\<not> opened ?t"
      with log opn show "last_is q (rn_landed ?t)" by (simp add: opened_def) }
    fix log' e seen assume "rn_log ?t = Some log'" "al_opened log' = Some (e, seen)"
    with k(3) q have "sees q (rn_landed s) seen" by (simp add: unresolved_seen_def)
    moreover have "rc_key r \<noteq> pd_key q" using left q r key by simp
    ultimately show "sees q (rn_landed ?t) seen" by (auto simp: sees_def)
  qed
  ultimately show ?thesis by (simp add: run_inv_def)
qed

lemma run_inv_land_late:
  assumes inv: "run_inv s" and unopened: "\<not> opened s" and p: "le_unresolved (rn_ledger s) = Some p"
    and r: "\<not> key_landed (pd_key p) (rn_landed s)" "rc_key r = pd_key p"
  shows "run_inv (s\<lparr>rn_landed := rn_landed s @ [r]\<rparr>)" (is "run_inv ?t")
proof -
  have k: "keys_ordered s" "log_kept s" "unresolved_seen s" using inv by (simp_all add: run_inv_def)
  have "keys_ordered ?t"
    using k(1) unopened p r by (auto simp: keys_ordered_def opened_def key_landed_def)
  moreover have "log_kept ?t"
    unfolding log_kept_def
  proof (intro allI impI)
    fix log assume log: "rn_log ?t = Some log"
    then have none: "al_opened log = None" using unopened by (cases "al_opened log") (auto simp: opened_def)
    with k(2) log have "al_pending log = None \<and> al_committed log = committed_default" by (simp add: log_kept_def)
    with none show "(al_opened log = None \<longrightarrow> al_pending log = None \<and> al_committed log = committed_default)
       \<and> (\<forall>p. al_pending log = Some p \<longrightarrow> pd_key p = rn_key ?t
            \<and> (key_landed (pd_key p) (rn_landed ?t) \<longrightarrow> rc_key (last (rn_landed ?t)) = pd_key p))
       \<and> (al_opened log \<noteq> None \<and> al_pending log = None \<longrightarrow> \<not> key_landed (rn_key ?t) (rn_landed ?t))
       \<and> (al_opened log \<noteq> None \<longrightarrow> (\<forall>r. rn_before ?t = Some r \<longrightarrow> ck_epoch (rc_key r) < ck_epoch (rn_key ?t)))"
      by simp
  qed
  moreover have "last_is p (rn_landed s @ [r])" using r(2) by (simp add: last_is_def)
  then have "unresolved_seen ?t"
    using k(3) unopened p by (simp add: unresolved_seen_def opened_def)
  ultimately show ?thesis by (simp add: run_inv_def)
qed

lemma log_record_fields:
  "log_record r streams log = Inr log' \<Longrightarrow>
   al_pending log' = None \<and> al_opened log' = al_opened log
   \<and> committed_add \<lparr>cr_receipt = r, cr_streams = streams\<rparr> (al_committed log) = Inr (al_committed log')"
  by (auto simp: log_record_def)

lemma run_inv_answered:
  assumes inv: "run_inv s" and log: "rn_log s = Some log" "al_pending log = Some p"
    and r: "r \<in> set (rn_landed s)" "rc_key r = pd_key p" and log': "log_record r (pd_streams p) log = Inr log'"
  shows "run_inv (s\<lparr>rn_log := Some log', rn_key := CommitKey (ck_epoch (rn_key s)) (ck_seq (rn_key s) + 1)\<rparr>)"
    (is "run_inv ?t")
proof -
  have k: "keys_ordered s" "log_kept s" "unresolved_seen s" using inv by (simp_all add: run_inv_def)
  have opn: "al_opened log \<noteq> None" using k(2) log unfolding log_kept_def by auto
  note l = log_record_fields [OF log']
  have "keys_ordered ?t"
    using k(1) log opn key_next by (auto simp: keys_ordered_def opened_def less_imp_le)
  moreover have "rc_key q < rn_key ?t" if "q \<in> set (rn_landed s)" for q
    using that k(1) key_next by (auto simp: keys_ordered_def)
  then have "log_kept ?t"
    using k(2) log opn l by (fastforce simp: log_kept_def key_landed_def)
  moreover have "unresolved_seen ?t"
    using k(3) log l opn by (auto simp: unresolved_seen_def opened_def)
  ultimately show ?thesis by (simp add: run_inv_def)
qed


text \<open>What the ledger records of an attempt.\<close>

lemma ledger_record_Inr:
  assumes "ledger_record a failed l = Inr (l', progressed, credited)"
  obtains report where
    "(case found_landed (ar_log a) (le_unresolved l) of None \<Rightarrow> Inr (le_report l) | Some c \<Rightarrow> report_credit c (le_report l))
       = Inr report"
    "report_absorb (a\<lparr>ar_log := (if failed then (ar_log a)\<lparr>al_pending := None\<rparr> else ar_log a)\<rparr>) report = Inr (le_report l')"
    "le_unresolved l' = (if failed \<and> al_pending (ar_log a) \<noteq> None then al_pending (ar_log a)
       else if al_opened (ar_log a) \<noteq> None then None else le_unresolved l)"
  using assms unfolding ledger_record_def Let_def by auto

lemma run_inv_ended:
  assumes inv: "run_inv s" and log: "rn_log s = Some (ar_log a)" "failed \<or> al_pending (ar_log a) = None"
    and rec: "ledger_record a failed (rn_ledger s) = Inr (l', progressed, credited)"
  shows "run_inv (s\<lparr>rn_log := None, rn_ledger := l'\<rparr>)" (is "run_inv ?t")
proof -
  have k: "keys_ordered s" "log_kept s" "unresolved_seen s" using inv by (simp_all add: run_inv_def)
  have left: "le_unresolved l' = (if failed \<and> al_pending (ar_log a) \<noteq> None then al_pending (ar_log a)
       else if al_opened (ar_log a) \<noteq> None then None else le_unresolved (rn_ledger s))"
    using rec by (rule ledger_record_Inr)
  have fresh: "pd_key p = rn_key s \<and> last_is p (rn_landed s) \<and> (\<forall>r. rn_before s = Some r \<longrightarrow> rc_key r \<noteq> pd_key p)"
    if p: "al_pending (ar_log a) = Some p" for p
  proof -
    have "al_opened (ar_log a) \<noteq> None" using k(2) log(1) p unfolding log_kept_def by force
    then show ?thesis using k(2) log(1) p unfolding log_kept_def last_is_def by force
  qed
  have kept: "last_is p (rn_landed s)" if "al_opened (ar_log a) = None" "le_unresolved (rn_ledger s) = Some p" for p
    using k(3) that log(1) by (simp add: unresolved_seen_def opened_def)
  have cases: "al_pending (ar_log a) = Some p \<or> (al_opened (ar_log a) = None \<and> le_unresolved (rn_ledger s) = Some p)"
    if "le_unresolved l' = Some p" for p
    using that left by (auto split: if_splits)
  have "keys_ordered ?t"
    using k(1) fresh cases by (fastforce simp: keys_ordered_def opened_def)
  moreover have "unresolved_seen ?t"
    using fresh kept cases by (fastforce simp: unresolved_seen_def)
  moreover have "log_kept ?t" by (simp add: log_kept_def)
  ultimately show ?thesis by (simp add: run_inv_def)
qed

lemma run_reachable_inv: "run_reachable s \<Longrightarrow> run_inv s"
proof (induction rule: run_reachable.induct)
  case (start before epoch p)
  then show ?case by (rule run_inv_start)
next
  case (step s s')
  from step(2) step(3) show ?case
    by cases (simp_all add: run_inv_attempt run_inv_open [simplified] run_inv_send run_inv_land run_inv_land_late
        run_inv_answered [simplified] run_inv_ended)
qed


subsection \<open>Every commit is counted once\<close>

text \<open>The contract of a total kept through a run: what a commit adds to an attempt's, what an attempt
  and a credited commit add to the report's.\<close>

locale tally =
  fixes amount :: "receipt \<Rightarrow> nat"
    and of_committed :: "committed \<Rightarrow> nat"
    and of_report :: "'e report \<Rightarrow> nat"
  assumes of_default: "of_committed committed_default = 0"
    and of_new: "of_report (report_new p) = 0"
    and of_add: "committed_add c s = Inr s' \<Longrightarrow> of_committed s' = of_committed s + amount (cr_receipt c)"
    and of_absorb: "report_absorb a r = Inr r' \<Longrightarrow> of_report r' = of_report r + of_committed (al_committed (ar_log a))"
    and of_credit: "report_credit c r = Inr r' \<Longrightarrow> of_report r' = of_report r + amount (cr_receipt c)"
begin

definition logged :: "attempt_log option \<Rightarrow> nat" where
  "logged log = (case log of None \<Rightarrow> 0 | Some l \<Rightarrow> of_committed (al_committed l))"

definition pending_in :: "attempt_log option \<Rightarrow> pending option" where
  "pending_in log = (case log of None \<Rightarrow> None | Some l \<Rightarrow> al_pending l)"

definition counted :: "'e run_state \<Rightarrow> bool" where
  "counted s \<longleftrightarrow> sum_list (map amount (rn_landed s)) =
     of_report (le_report (rn_ledger s)) + logged (rn_log s)
     + in_flight amount (pending_in (rn_log s)) (rn_landed s)
     + in_flight amount (le_unresolved (rn_ledger s)) (rn_landed s)"

lemma in_flight_none: "\<not> key_landed (pd_key p) landed \<Longrightarrow> in_flight amount (Some p) landed = 0"
  by (auto simp: in_flight_def key_landed_def image_iff filter_empty_conv)

lemma in_flight_one:
  assumes "distinct (map rc_key landed)" and "r \<in> set landed" and "rc_key r = pd_key p"
  shows "in_flight amount (Some p) landed = amount r"
proof -
  have "filter (\<lambda>x. rc_key x = pd_key p) landed = [r]"
    using assms
  proof (induction landed)
    case (Cons x xs)
    then show ?case
    proof (cases "x = r")
      case True
      with Cons.prems have "\<forall>y\<in>set xs. rc_key y \<noteq> pd_key p" by (metis distinct.simps(2) image_eqI list.set_map list.simps(9))
      with True Cons.prems show ?thesis by (simp add: filter_empty_conv)
    next
      case False
      with Cons.prems have "rc_key x \<noteq> pd_key p" by (metis distinct.simps(2) image_eqI list.set_map list.simps(9) set_ConsD)
      with False Cons show ?thesis by simp
    qed
  qed simp
  then show ?thesis by (simp add: in_flight_def)
qed

lemma in_flight_append:
  "in_flight amount q (landed @ [r]) =
     in_flight amount q landed + (case q of Some p \<Rightarrow> if rc_key r = pd_key p then amount r else 0 | None \<Rightarrow> 0)"
  by (simp add: in_flight_def split: option.splits)

lemma counted_land:
  assumes "counted s" and "pending_in (rn_log s) = Some p" and "rc_key r = pd_key p"
    and "\<forall>q. le_unresolved (rn_ledger s) = Some q \<longrightarrow> pd_key q \<noteq> pd_key p"
  shows "counted (s\<lparr>rn_landed := rn_landed s @ [r]\<rparr>)"
  using assms by (auto simp: counted_def in_flight_append split: option.splits)

lemma counted_land_late:
  assumes "counted s" and "pending_in (rn_log s) = None" and "le_unresolved (rn_ledger s) = Some p" and "rc_key r = pd_key p"
  shows "counted (s\<lparr>rn_landed := rn_landed s @ [r]\<rparr>)"
  using assms by (auto simp: counted_def in_flight_append split: option.splits)

lemma counted_answered:
  assumes "counted s" and "distinct (map rc_key (rn_landed s))" and "rn_log s = Some log" and "al_pending log = Some p"
    and "r \<in> set (rn_landed s)" and "rc_key r = pd_key p" and "log_record r (pd_streams p) log = Inr log'"
  shows "counted (s\<lparr>rn_log := Some log', rn_key := k\<rparr>)"
proof -
  note l = log_record_fields [OF assms(7)]
  have "of_committed (al_committed log') = of_committed (al_committed log) + amount r"
    using of_add l by fastforce
  moreover have "in_flight amount (Some p) (rn_landed s) = amount r"
    using assms(2,5,6) by (rule in_flight_one)
  ultimately show ?thesis
    using assms(1,3,4) l by (simp add: counted_def logged_def pending_in_def in_flight_def [of _ None])
qed

text \<open>An attempt that opened credits what the commit left in flight landed; one that opened none
  counted nothing and leaves it.\<close>

lemma counted_found:
  assumes "run_inv s" and "rn_log s = Some log" and "al_opened log \<noteq> None"
    and "(case found_landed log (le_unresolved (rn_ledger s)) of
       None \<Rightarrow> Inr (le_report (rn_ledger s)) | Some c \<Rightarrow> report_credit c (le_report (rn_ledger s))) = Inr report"
  shows "of_report report = of_report (le_report (rn_ledger s))
     + in_flight amount (le_unresolved (rn_ledger s)) (rn_landed s)"
proof (cases "le_unresolved (rn_ledger s)")
  case None
  then have "found_landed log (le_unresolved (rn_ledger s)) = None" by (simp add: found_landed_def split: option.splits prod.splits)
  with None show ?thesis using assms(4) by (simp add: in_flight_def)
next
  case (Some p)
  obtain e seen where seen: "al_opened log = Some (e, seen)" using assms(3) by auto
  have sees: "sees p (rn_landed s) seen" and d: "distinct (map rc_key (rn_landed s))"
    using assms(1,2) Some seen by (auto simp: run_inv_def unresolved_seen_def keys_ordered_def)
  show ?thesis
  proof (cases "found_landed log (Some p)")
    case None
    have "\<not> key_landed (pd_key p) (rn_landed s)"
    proof
      assume "key_landed (pd_key p) (rn_landed s)"
      then obtain r where "r \<in> set (rn_landed s)" "rc_key r = pd_key p" by (auto simp: key_landed_def)
      with sees have "seen = Some r" by (simp add: sees_def)
      with None seen \<open>rc_key r = pd_key p\<close> show False by (simp add: found_landed_def pending_landed_def)
    qed
    then show ?thesis using None Some assms(4) in_flight_none by simp
  next
    case (Some c)
    then have c: "seen = Some (cr_receipt c)" "rc_key (cr_receipt c) = pd_key p"
      using seen by (auto simp: found_landed_def pending_landed_def split: option.splits if_splits)
    with sees have "cr_receipt c \<in> set (rn_landed s)" by (simp add: sees_def)
    then have "in_flight amount (Some p) (rn_landed s) = amount (cr_receipt c)"
      using d c(2) by (intro in_flight_one)
    then show ?thesis using Some assms(4) of_credit \<open>le_unresolved (rn_ledger s) = Some p\<close> by simp
  qed
qed

lemma counted_ended:
  assumes "counted s" and "run_inv s" and "rn_log s = Some (ar_log a)" and "failed \<or> al_pending (ar_log a) = None"
    and "ledger_record a failed (rn_ledger s) = Inr (l', progressed, credited)"
  shows "counted (s\<lparr>rn_log := None, rn_ledger := l'\<rparr>)"
  using assms(5)
proof (rule ledger_record_Inr)
  fix report
  let ?u = "le_unresolved (rn_ledger s)" and ?log = "ar_log a"
  assume found: "(case found_landed ?log ?u of None \<Rightarrow> Inr (le_report (rn_ledger s))
      | Some c \<Rightarrow> report_credit c (le_report (rn_ledger s))) = Inr report"
    and rep: "report_absorb (a\<lparr>ar_log := (if failed then ?log\<lparr>al_pending := None\<rparr> else ?log)\<rparr>) report = Inr (le_report l')"
    and u': "le_unresolved l' = (if failed \<and> al_pending ?log \<noteq> None then al_pending ?log
       else if al_opened ?log \<noteq> None then None else ?u)"
  have absorbed: "of_report (le_report l') = of_report report + of_committed (al_committed ?log)"
    using of_absorb [OF rep] by (simp split: if_splits)
  have sum: "sum_list (map amount (rn_landed s)) = of_report (le_report (rn_ledger s)) + of_committed (al_committed ?log)
      + in_flight amount (al_pending ?log) (rn_landed s) + in_flight amount ?u (rn_landed s)"
    using assms(1,3) by (simp add: counted_def logged_def pending_in_def)
  have none [simp]: "in_flight amount None (rn_landed s) = 0" by (simp add: in_flight_def)
  show ?thesis
  proof (cases "al_opened ?log = None")
    case True
    then have "al_pending ?log = None" "report = le_report (rn_ledger s)"
      using assms(2,3) found by (auto simp: run_inv_def log_kept_def found_landed_def split: option.splits)
    with True sum absorbed u' show ?thesis by (simp add: counted_def logged_def pending_in_def)
  next
    case False
    then have "of_report report = of_report (le_report (rn_ledger s)) + in_flight amount ?u (rn_landed s)"
      using counted_found [OF assms(2,3) _ found] by simp
    with False sum absorbed u' assms(4) show ?thesis
      by (cases "al_pending ?log") (simp_all add: counted_def logged_def pending_in_def)
  qed
qed

lemma counted_reachable: "run_reachable s \<Longrightarrow> counted s"
proof (induction rule: run_reachable.induct)
  case (start before epoch p)
  then show ?case
    by (simp add: counted_def run_start_def run_ledger_new_def of_new logged_def pending_in_def in_flight_def)
next
  case (step s s')
  have inv: "run_inv s" using step(1) by (rule run_reachable_inv)
  from step(2) show ?case
  proof cases
    case attempt
    then show ?thesis using step.IH
      by (simp add: counted_def logged_def pending_in_def attempt_log_default_def of_default)
  next
    case (open_session log epoch)
    then show ?thesis using step.IH by (simp add: counted_def logged_def pending_in_def)
  next
    case (send log streams)
    have "\<not> key_landed (rn_key s) (rn_landed s)"
      using inv send by (auto simp: run_inv_def log_kept_def)
    then have "in_flight amount (Some \<lparr>pd_key = rn_key s, pd_streams = streams\<rparr>) (rn_landed s) = 0"
      by (intro in_flight_none) simp
    with send step.IH show ?thesis
      by (simp add: counted_def logged_def pending_in_def log_pending_def in_flight_def [of _ None])
  next
    case (land log p r)
    have kept: "log_kept s" using inv by (simp add: run_inv_def)
    have "pd_key p = rn_key s" using kept land(2,3) by (simp add: log_kept_def)
    moreover have "al_opened log \<noteq> None" using kept land(2,3) by (auto simp: log_kept_def)
    then have "opened s" using land(2) by (auto simp: opened_def)
    ultimately have "\<forall>q. le_unresolved (rn_ledger s) = Some q \<longrightarrow> pd_key q \<noteq> pd_key p"
      using inv by (auto simp: run_inv_def keys_ordered_def)
    with land step.IH show ?thesis by (simp add: counted_land pending_in_def)
  next
    case (land_late p r)
    have "pending_in (rn_log s) = None"
    proof (cases "rn_log s")
      case (Some log)
      then have "al_opened log = None" using land_late(2) by (cases "al_opened log") (auto simp: opened_def)
      with Some inv show ?thesis by (simp add: run_inv_def log_kept_def pending_in_def)
    qed (simp add: pending_in_def)
    with land_late step.IH show ?thesis by (simp add: counted_land_late)
  next
    case (answered log p r log')
    then show ?thesis using step.IH inv by (simp add: counted_answered run_inv_def keys_ordered_def)
  next
    case (ended a failed ledger progressed credited)
    then show ?thesis using step.IH inv by (simp add: counted_ended)
  qed
qed

end

lemma total_Inr [simp]: "total a b = Inr t \<longleftrightarrow> t = a + b \<and> a + b \<le> U64_MAX"
  by (auto simp: total_def checked_add_def)

lemma committed_add_totals:
  "committed_add c s = Inr s' \<Longrightarrow>
   co_rows s' = co_rows s + rc_rows (cr_receipt c) \<and> co_bytes s' = co_bytes s + rc_bytes (cr_receipt c)"
  by (auto simp: committed_add_def)

lemma report_absorb_totals:
  "report_absorb a r = Inr r' \<Longrightarrow>
   rp_rows r' = rp_rows r + co_rows (al_committed (ar_log a)) \<and> rp_bytes r' = rp_bytes r + co_bytes (al_committed (ar_log a))"
  by (auto simp: report_absorb_def Let_def)

lemma report_credit_totals:
  assumes "report_credit c r = Inr r'"
  shows "rp_rows r' = rp_rows r + rc_rows (cr_receipt c) \<and> rp_bytes r' = rp_bytes r + rc_bytes (cr_receipt c)"
proof -
  obtain d where d: "committed_add c committed_default = Inr d"
    and r': "rp_rows r' = rp_rows r + co_rows d" "rp_bytes r' = rp_bytes r + co_bytes d"
    using assms unfolding report_credit_def Let_def rbind_Inr total_Inr by auto
  show ?thesis using committed_add_totals [OF d] r' by (simp add: committed_default_def)
qed

interpretation rows: tally rc_rows co_rows rp_rows
  by unfold_locales
    (simp_all add: committed_default_def report_new_def committed_add_totals report_absorb_totals report_credit_totals)

interpretation bytes: tally rc_bytes co_bytes rp_bytes
  by unfold_locales
    (simp_all add: committed_default_def report_new_def committed_add_totals report_absorb_totals report_credit_totals)

text \<open>C33: Between the attempts of a run, the rows and the bytes of its report are those of the receipts
  of the commits it landed, each counted once, but for a commit the last failed attempt left in flight
  that landed: it is counted once a later attempt's open finds it.\<close>

theorem landed_counted_once:
  assumes "run_reachable s" and "rn_log s = None"
  shows "sum_list (map rc_rows (rn_landed s)) = rp_rows (le_report (rn_ledger s))
       + in_flight rc_rows (le_unresolved (rn_ledger s)) (rn_landed s)
    \<and> sum_list (map rc_bytes (rn_landed s)) = rp_bytes (le_report (rn_ledger s))
       + in_flight rc_bytes (le_unresolved (rn_ledger s)) (rn_landed s)"
  using rows.counted_reachable [OF assms(1)] bytes.counted_reachable [OF assms(1)] assms(2)
  by (simp add: rows.counted_def bytes.counted_def rows.logged_def bytes.logged_def rows.pending_in_def
      bytes.pending_in_def in_flight_def [of _ None])

theorem landed_counted_once_witness:
  "\<exists>s :: unit run_state. run_reachable s \<and> rn_log s = None \<and> rn_landed s = [\<lparr>rc_key = CommitKey 1 1, rc_committed_at = 7, rc_rows = 5, rc_bytes = 40\<rparr>]
     \<and> le_unresolved (rn_ledger s) = None \<and> rp_rows (le_report (rn_ledger s)) = 5 \<and> rp_bytes (le_report (rn_ledger s)) = 40"
proof -
  define r where "r = \<lparr>rc_key = CommitKey 1 1, rc_committed_at = 7, rc_rows = 5, rc_bytes = 40\<rparr>"
  define l1 where "l1 = attempt_log_default\<lparr>al_opened := Some (1, None), al_pending := Some \<lparr>pd_key = CommitKey 1 1, pd_streams = []\<rparr>\<rparr>"
  define l2 where "l2 = attempt_log_default\<lparr>al_opened := Some (2, Some r)\<rparr>"
  define a1 :: "unit attempt_record" where "a1 = \<lparr>ar_started_at = 0, ar_ended_at = 1, ar_log = l1, ar_error = Some ()\<rparr>"
  define a2 :: "unit attempt_record" where "a2 = \<lparr>ar_started_at = 2, ar_ended_at = 3, ar_log = l2, ar_error = None\<rparr>"
  note logs = l1_def l2_def attempt_log_default_def
  have start: "run_reachable (run_start ''p'' None 0 :: unit run_state)" by (rule run_reachable.start) simp
  define s0 :: "unit run_state" where "s0 = \<lparr>rn_before = None, rn_landed = [r], rn_key = CommitKey 1 1, rn_log = Some l1, rn_ledger = run_ledger_new ''p''\<rparr>"
  note steps = run_reachable.step [OF _ run_step.attempt] run_reachable.step [OF _ run_step.open_session]
    run_reachable.step [OF _ run_step.send [where streams = "[]"]] run_reachable.step [OF _ run_step.land]
  have s1: "run_reachable (run_start ''p'' None 0 \<lparr>rn_log := Some attempt_log_default\<rparr> :: unit run_state)"
    by (rule steps(1) [OF start]) (simp add: run_start_def)
  have s2: "run_reachable (\<lparr>rn_before = None, rn_landed = [], rn_key = CommitKey 1 1,
      rn_log = Some (attempt_log_default\<lparr>al_opened := Some (1, None)\<rparr>), rn_ledger = run_ledger_new ''p''\<rparr> :: unit run_state)"
    using steps(2) [OF s1, of attempt_log_default 1] by (simp add: run_start_def last_landed_def logs)
  have "run_reachable (\<lparr>rn_before = None, rn_landed = [], rn_key = CommitKey 1 1, rn_log = Some l1, rn_ledger = run_ledger_new ''p''\<rparr> :: unit run_state)"
    using steps(3) [OF s2] by (simp add: log_pending_def logs)
  from steps(4) [OF this, of l1 "\<lparr>pd_key = CommitKey 1 1, pd_streams = []\<rparr>" r] have s3: "run_reachable s0"
    by (simp add: logs key_landed_def r_def s0_def)
  obtain led1 c1 where led1: "ledger_record a1 True (run_ledger_new ''p'') = Inr (led1, False, c1)"
    and u1: "le_unresolved led1 = al_pending l1"
    by (auto simp: ledger_record_def run_ledger_new_def a1_def logs found_landed_def report_absorb_def report_new_def
        committed_default_def Let_def)
  have s4: "run_reachable (s0\<lparr>rn_log := None, rn_ledger := led1\<rparr>)"
    using run_reachable.step [OF s3 run_step.ended [where a = a1 and failed = True and progressed = False and credited = c1]] led1 by (simp add: s0_def a1_def)
  have s5: "run_reachable (s0\<lparr>rn_log := Some attempt_log_default, rn_ledger := led1\<rparr>)"
    using steps(1) [OF s4] by (simp add: s0_def)
  have s6: "run_reachable (s0\<lparr>rn_log := Some l2, rn_ledger := led1, rn_key := CommitKey 2 1\<rparr>)"
    using steps(2) [OF s5, of attempt_log_default 2] by (simp add: s0_def last_landed_def logs)
  have rep1: "rp_rows (le_report led1) = 0" "rp_bytes (le_report led1) = 0"
    using led1 by (auto simp: ledger_record_def run_ledger_new_def a1_def logs found_landed_def report_absorb_def report_new_def
        committed_default_def Let_def)
  obtain led2 p2 c2 where led2: "ledger_record a2 False led1 = Inr (led2, p2, c2)" and u2: "le_unresolved led2 = None"
    using u1 rep1
    by (auto simp: ledger_record_def a2_def logs found_landed_def pending_landed_def r_def report_absorb_def report_credit_def
        committed_add_def total_def checked_add_def committed_default_def Let_def U64_MAX_def)
  define s7 where "s7 = s0\<lparr>rn_log := None, rn_ledger := led2, rn_key := CommitKey 2 1\<rparr>"
  have "run_reachable s7"
    using run_reachable.step [OF s6 run_step.ended [where a = a2 and failed = False and progressed = p2 and credited = c2]] led2
    by (simp add: s7_def s0_def a2_def logs)
  moreover have "rn_log s7 = None" "rn_landed s7 = [r]" "le_unresolved (rn_ledger s7) = None"
    by (simp_all add: s7_def s0_def u2)
  moreover from landed_counted_once [OF calculation(1,2)] calculation(3,4)
  have "rp_rows (le_report (rn_ledger s7)) = 5" "rp_bytes (le_report (rn_ledger s7)) = 40"
    by (simp_all add: in_flight_def r_def)
  ultimately show ?thesis unfolding r_def by blast
qed

end
