(* ===== verification/Seals.thy ===== *)
theory Seals
  imports Reports
begin

text \<open>
  What a partition tells the commit coordinator (\<open>crates/rdlt-engine/src/partition/progress.rs\<close>,
  \<open>partition/latest.rs\<close>, \<open>seal_segment\<close> and \<open>read\<close> of \<open>partition.rs\<close>) and the seals that wait for the
  next commit (\<open>coordinator/waiting.rs\<close>). A seal of no rows waits as its partition's newest, told of
  by one message a partition and epoch; a seal with rows goes into the queue. Whatever the order in
  which partitions seal and the coordinator listens, what it has heard of a partition is shown to be
  a prefix of what the partition sealed, with the seals of no rows before another seal left out.
\<close>

subsection \<open>Seals and progress\<close>

text \<open>A hold is no part of what a seal says: it is the bytes its permit holds.\<close>

record seal =
  sl_partition :: nat
  sl_segment :: nat
  sl_rows :: nat
  sl_bytes :: nat
  sl_state :: partition_state
  sl_answers :: "nat option"
  sl_discarded_rows :: nat
  sl_discarded_values :: nat
  sl_discards :: column_discards
  sl_deletes_ignored :: nat
  sl_truncates_ignored :: nat
  sl_shred :: shred_counts
  sl_filtered :: filtered_rows
  sl_held :: nat

definition moves_only :: "seal \<Rightarrow> bool" where
  "moves_only s \<longleftrightarrow>
     [sl_rows s, sl_bytes s, sl_discarded_rows s, sl_discarded_values s, sl_deletes_ignored s,
      sl_truncates_ignored s, fr_dropped (sl_filtered s), fr_deleted (sl_filtered s)] = replicate 8 0"

datatype progress =
    Started nat
  | Written nat nat nat
  | Sealed seal
  | Moved nat nat
  | Signalled nat
  | RetentionReset nat
  | Abandoned nat nat
  | Ended nat bool

fun progress_partition :: "progress \<Rightarrow> nat" where
  "progress_partition (Started p) = p"
| "progress_partition (Written p _ _) = p"
| "progress_partition (Sealed s) = sl_partition s"
| "progress_partition (Moved p _) = p"
| "progress_partition (Signalled p) = p"
| "progress_partition (RetentionReset p) = p"
| "progress_partition (Abandoned p _) = p"
| "progress_partition (Ended p _) = p"

subsection \<open>The newest of each partition\<close>

record waiting =
  wt_seal :: "seal option"
  wt_epoch :: nat
  wt_seal_told :: "nat option"
  wt_behind :: "(nat \<times> headroom) option"
  wt_replan :: bool
  wt_signal_told :: bool

definition waiting_default :: waiting where
  "waiting_default =
     \<lparr>wt_seal = None, wt_epoch = 0, wt_seal_told = None, wt_behind = None, wt_replan = False, wt_signal_told = False\<rparr>"

type_synonym latest = "(nat, waiting) btree"

text \<open>\<open>Latest::with\<close>: a change of what a partition has waiting, which is new where it has none.\<close>

definition latest_with :: "nat \<Rightarrow> (waiting \<Rightarrow> waiting \<times> 'a) \<Rightarrow> latest \<Rightarrow> latest \<times> 'a" where
  "latest_with p change l =
     (let (w, x) = change (bt_default waiting_default l p) in (bt_insert p w l, x))"

text \<open>The order of options: none first.\<close>

fun opt_max :: "nat option \<Rightarrow> nat option \<Rightarrow> nat option" where
  "opt_max None b = b"
| "opt_max a None = a"
| "opt_max (Some a) (Some b) = Some (max a b)"

definition seal_answers :: "seal option \<Rightarrow> nat option" where
  "seal_answers s = (case s of None \<Rightarrow> None | Some x \<Rightarrow> sl_answers x)"

definition waiting_moved :: "seal \<Rightarrow> waiting \<Rightarrow> waiting \<times> nat option" where
  "waiting_moved s w =
     (let w' = w\<lparr>wt_seal := Some (s\<lparr>sl_answers := opt_max (sl_answers s) (seal_answers (wt_seal w))\<rparr>)\<rparr>
      in if wt_seal_told w \<noteq> Some (wt_epoch w) then (w'\<lparr>wt_seal_told := Some (wt_epoch w)\<rparr>, Some (wt_epoch w))
         else (w', None))"

definition latest_moved :: "seal \<Rightarrow> latest \<Rightarrow> latest \<times> nat option" where
  "latest_moved s = latest_with (sl_partition s) (waiting_moved s)"

definition waiting_superseded :: "waiting \<Rightarrow> waiting \<times> nat option" where
  "waiting_superseded w =
     (w\<lparr>wt_epoch := wadd (wt_epoch w) 1, wt_seal := None\<rparr>, seal_answers (wt_seal w))"

definition latest_superseded :: "nat \<Rightarrow> latest \<Rightarrow> latest \<times> nat option" where
  "latest_superseded p = latest_with p waiting_superseded"

definition waiting_take :: "nat \<Rightarrow> waiting \<Rightarrow> waiting \<times> seal option" where
  "waiting_take epoch w =
     (if wt_epoch w \<noteq> epoch then (w, None) else (w\<lparr>wt_seal_told := None, wt_seal := None\<rparr>, wt_seal w))"

definition latest_seal :: "nat \<Rightarrow> nat \<Rightarrow> latest \<Rightarrow> latest \<times> seal option" where
  "latest_seal p epoch = latest_with p (waiting_take epoch)"

definition latest_behind :: "nat \<Rightarrow> nat \<Rightarrow> headroom \<Rightarrow> latest \<Rightarrow> latest \<times> bool" where
  "latest_behind p records room =
     latest_with p (\<lambda>w. (w\<lparr>wt_behind := Some (records, room), wt_signal_told := True\<rparr>, \<not> wt_signal_told w))"

definition latest_replan :: "nat \<Rightarrow> latest \<Rightarrow> latest \<times> bool" where
  "latest_replan p = latest_with p (\<lambda>w. (w\<lparr>wt_replan := True, wt_signal_told := True\<rparr>, \<not> wt_signal_told w))"

definition latest_signals :: "nat \<Rightarrow> latest \<Rightarrow> latest \<times> (nat \<times> headroom) option \<times> bool" where
  "latest_signals p =
     latest_with p (\<lambda>w. (w\<lparr>wt_signal_told := False, wt_behind := None, wt_replan := False\<rparr>, wt_behind w, wt_replan w))"

text \<open>\<open>seal_segment\<close>: reports a checkpoint's seal, with the messages it adds to the coordinator's queue.\<close>

definition seal_segment :: "seal \<Rightarrow> latest \<Rightarrow> latest \<times> progress list" where
  "seal_segment s l =
     (if moves_only s
      then (case latest_moved s l of
              (l', Some epoch) \<Rightarrow> (l', [Moved (sl_partition s) epoch])
            | (l', None) \<Rightarrow> (l', []))
      else (case latest_superseded (sl_partition s) l of
              (l', answered) \<Rightarrow> (l', [Sealed (s\<lparr>sl_answers := opt_max (sl_answers s) answered\<rparr>)])))"

text \<open>What the coordinator takes from what waits as it observes a message, and the seal it hears of.\<close>

definition heard :: "progress \<Rightarrow> latest \<Rightarrow> latest \<times> seal option" where
  "heard m l =
     (case m of
        Sealed s \<Rightarrow> (l, Some s)
      | Moved p epoch \<Rightarrow> latest_seal p epoch l
      | Signalled p \<Rightarrow> (fst (latest_signals p l), None)
      | _ \<Rightarrow> (l, None))"

subsection \<open>Partitions and the coordinator\<close>

text \<open>
  Partitions seal and signal, the coordinator takes one message at a time from its queue. A partition
  seals at its checkpoints and, when its read ends, once more, straight into the queue; then it seals
  nothing. What each partition sealed and what was heard of it are histories.
\<close>

record sealing =
  sy_latest :: latest
  sy_queue :: "progress list"
  sy_sealed :: "nat \<Rightarrow> seal list"
  sy_heard :: "nat \<Rightarrow> seal list"
  sy_ended :: "nat \<Rightarrow> bool"

definition sealing_start :: sealing where
  "sealing_start = \<lparr>sy_latest = [], sy_queue = [], sy_sealed = (\<lambda>_. []), sy_heard = (\<lambda>_. []), sy_ended = (\<lambda>_. False)\<rparr>"

definition appended :: "nat \<Rightarrow> 'a list \<Rightarrow> (nat \<Rightarrow> 'a list) \<Rightarrow> nat \<Rightarrow> 'a list" where
  "appended p xs f = f(p := f p @ xs)"

inductive sealing_step :: "sealing \<Rightarrow> sealing \<Rightarrow> bool" where
  checkpoint: "\<not> sy_ended y (sl_partition s) \<Longrightarrow> seal_segment s (sy_latest y) = (l, ms) \<Longrightarrow>
    sealing_step y (y\<lparr>sy_latest := l, sy_queue := sy_queue y @ ms, sy_sealed := appended (sl_partition s) [s] (sy_sealed y)\<rparr>)"
| read_end: "\<not> sy_ended y (sl_partition s) \<Longrightarrow>
    sealing_step y (y\<lparr>sy_queue := sy_queue y @ [Sealed s], sy_sealed := appended (sl_partition s) [s] (sy_sealed y),
      sy_ended := (sy_ended y)(sl_partition s := True)\<rparr>)"
| behind: "latest_behind p records room (sy_latest y) = (l, told) \<Longrightarrow>
    sealing_step y (y\<lparr>sy_latest := l, sy_queue := sy_queue y @ (if told then [Signalled p] else [])\<rparr>)"
| replan: "latest_replan p (sy_latest y) = (l, told) \<Longrightarrow>
    sealing_step y (y\<lparr>sy_latest := l, sy_queue := sy_queue y @ (if told then [Signalled p] else [])\<rparr>)"
| other: "(\<forall>s. m \<noteq> Sealed s) \<Longrightarrow> (\<forall>p e. m \<noteq> Moved p e) \<Longrightarrow> sealing_step y (y\<lparr>sy_queue := sy_queue y @ [m]\<rparr>)"
| listen: "sy_queue y = m # ms \<Longrightarrow> heard m (sy_latest y) = (l, h) \<Longrightarrow>
    sealing_step y (y\<lparr>sy_latest := l, sy_queue := ms,
      sy_heard := appended (progress_partition m) (case h of Some s \<Rightarrow> [s] | None \<Rightarrow> []) (sy_heard y)\<rparr>)"

inductive sealing_reachable :: "sealing \<Rightarrow> bool" where
  start: "sealing_reachable sealing_start"
| step: "sealing_reachable y \<Longrightarrow> sealing_step y y' \<Longrightarrow> sealing_reachable y'"

subsection \<open>Seals left out\<close>

text \<open>A seal of no rows may be left out where another follows it, which then answers its barrier.\<close>

definition absorbs :: "seal \<Rightarrow> seal \<Rightarrow> seal" where
  "absorbs w s = s\<lparr>sl_answers := opt_max (sl_answers s) (sl_answers w)\<rparr>"

inductive merges :: "seal list \<Rightarrow> seal list \<Rightarrow> bool" where
  none: "merges [] []"
| kept: "merges xs ys \<Longrightarrow> merges (xs @ [s]) (ys @ [s])"
| left_out: "merges xs (ys @ [w]) \<Longrightarrow> moves_only w \<Longrightarrow> merges (xs @ [s]) (ys @ [absorbs w s])"

lemma opt_max_None [simp]: "opt_max a None = a"
  by (cases a) simp_all

lemma moves_only_answers [simp]: "moves_only (s\<lparr>sl_answers := a\<rparr>) = moves_only s"
  by (simp add: moves_only_def)

lemma absorbs_simps [simp]:
  "sl_state (absorbs w s) = sl_state s" "moves_only (absorbs w s) = moves_only s"
  "sl_partition (absorbs w s) = sl_partition s" "(absorbs w s)\<lparr>sl_answers := None\<rparr> = s\<lparr>sl_answers := None\<rparr>"
  by (simp_all add: absorbs_def)

lemma merges_prefix:
  "merges xs (ys @ zs) \<Longrightarrow> \<exists>n \<le> length xs. merges (take n xs) ys \<and> (zs = [] \<longrightarrow> n = length xs)"
proof (induction xs "ys @ zs" arbitrary: zs rule: merges.induct)
  case none
  then show ?case using merges.none by auto
next
  case (kept xs ys' s)
  show ?case
  proof (cases zs rule: rev_cases)
    case Nil
    then show ?thesis using merges.kept [OF kept(1), of s] kept(3) by (intro exI [of _ "Suc (length xs)"]) auto
  next
    case (snoc zs' z)
    then obtain n where "n \<le> length xs" "merges (take n xs) ys" using kept by auto
    then show ?thesis using snoc by (intro exI [of _ n]) simp
  qed
next
  case (left_out xs ys' w s)
  show ?case
  proof (cases zs rule: rev_cases)
    case Nil
    then show ?thesis using merges.left_out [OF left_out(1,3), of s] left_out(4)
      by (intro exI [of _ "Suc (length xs)"]) auto
  next
    case (snoc zs' z)
    then have "ys' @ [w] = ys @ (zs' @ [w])" using left_out(4) by simp
    then obtain n where "n \<le> length xs" "merges (take n xs) ys" using left_out(2) by blast
    then show ?thesis using snoc by (intro exI [of _ n]) simp
  qed
qed

text \<open>What leaving out keeps: every seal that counts, in order, where the partition stands, and the
  newest barrier answered.\<close>

definition counting :: "seal list \<Rightarrow> seal list" where
  "counting ss = map (\<lambda>s. s\<lparr>sl_answers := None\<rparr>) (filter (\<lambda>s. \<not> moves_only s) ss)"

definition answered :: "seal list \<Rightarrow> nat option" where
  "answered ss = foldr (\<lambda>s. opt_max (sl_answers s)) ss None"

definition stands_at :: "seal list \<Rightarrow> partition_state option" where
  "stands_at ss = (if ss = [] then None else Some (sl_state (last ss)))"

lemma opt_max_assoc: "opt_max (opt_max a b) c = opt_max a (opt_max b c)"
  by (cases a; cases b; cases c) simp_all

lemma opt_max_commute: "opt_max a b = opt_max b a"
  by (cases a; cases b) simp_all

lemma opt_max_left_commute: "opt_max a (opt_max b c) = opt_max b (opt_max a c)"
  by (cases a; cases b; cases c) simp_all

lemma answered_snoc: "answered (ss @ [s]) = opt_max (answered ss) (sl_answers s)"
  unfolding answered_def by (induction ss) (simp_all add: opt_max_assoc)

lemma merges_keeps: "merges xs ys \<Longrightarrow> counting ys = counting xs \<and> stands_at ys = stands_at xs \<and> answered ys = answered xs"
proof (induction rule: merges.induct)
  case none
  then show ?case by simp
next
  case (kept xs ys s)
  then show ?case by (simp add: counting_def stands_at_def answered_snoc)
next
  case (left_out xs ys w s)
  then have "counting ys = counting xs" "answered xs = opt_max (answered ys) (sl_answers w)"
    by (simp_all add: counting_def answered_snoc)
  then show ?case
    by (simp add: counting_def stands_at_def answered_snoc absorbs_def opt_max_assoc opt_max_commute opt_max_left_commute)
qed

subsection \<open>What waits and what is queued, of one partition\<close>

fun sealed_in :: "progress list \<Rightarrow> seal list" where
  "sealed_in [] = []"
| "sealed_in (Sealed s # ms) = s # sealed_in ms"
| "sealed_in (_ # ms) = sealed_in ms"

definition moved_in :: "nat \<Rightarrow> progress list \<Rightarrow> bool" where
  "moved_in e q \<longleftrightarrow> (\<exists>p. Moved p e \<in> set q)"

text \<open>A waiting seal has one message of its epoch in the queue, after which its partition queued no
  seal, unless its read ended; without one no message of the epoch is queued.\<close>

definition waits :: "waiting \<Rightarrow> progress list \<Rightarrow> seal list \<Rightarrow> seal list \<Rightarrow> bool \<Rightarrow> bool" where
  "waits w q sent got over \<longleftrightarrow>
     (case wt_seal w of
        None \<Rightarrow> wt_seal_told w \<noteq> Some (wt_epoch w) \<and> \<not> moved_in (wt_epoch w) q \<and> merges sent (got @ sealed_in q)
      | Some s \<Rightarrow> moves_only s \<and> wt_seal_told w = Some (wt_epoch w) \<and>
          (\<exists>q1 p q2. q = q1 @ Moved p (wt_epoch w) # q2 \<and> \<not> moved_in (wt_epoch w) q1 \<and> \<not> moved_in (wt_epoch w) q2
             \<and> merges sent (got @ sealed_in q1 @ s # sealed_in q2) \<and> (\<not> over \<longrightarrow> sealed_in q2 = [])))"

definition part_inv :: "waiting \<Rightarrow> progress list \<Rightarrow> seal list \<Rightarrow> seal list \<Rightarrow> bool \<Rightarrow> bool" where
  "part_inv w q sent got over \<longleftrightarrow> waits w q sent got over \<and> wt_epoch w \<le> length sent
     \<and> (\<forall>e. moved_in e q \<longrightarrow> e \<le> wt_epoch w) \<and> (\<forall>e. wt_seal_told w = Some e \<longrightarrow> e \<le> wt_epoch w)"

lemma sealed_in_append [simp]: "sealed_in (q @ r) = sealed_in q @ sealed_in r"
  by (induction q rule: sealed_in.induct) simp_all

lemma moved_in_simps [simp]:
  "\<not> moved_in e []" "moved_in e (q @ r) \<longleftrightarrow> moved_in e q \<or> moved_in e r"
  "moved_in e (m # q) \<longleftrightarrow> (\<exists>p. m = Moved p e) \<or> moved_in e q"
  by (auto simp: moved_in_def)

text \<open>A message that says nothing of seals, queued or taken, changes nothing.\<close>

definition silent :: "progress \<Rightarrow> bool" where
  "silent m \<longleftrightarrow> (\<forall>s. m \<noteq> Sealed s) \<and> (\<forall>p e. m \<noteq> Moved p e)"

lemma not_silent [simp]: "\<not> silent (Sealed s)" "\<not> silent (Moved p e)"
  by (simp_all add: silent_def)

lemma silent_sealed_in [simp]: "silent m \<Longrightarrow> sealed_in (m # q) = sealed_in q"
  by (cases m) (simp_all add: silent_def)

lemma silent_moved_in [simp]: "silent m \<Longrightarrow> moved_in e (m # q) = moved_in e q"
  by (cases m) (auto simp: silent_def)

lemma part_inv_silent:
  assumes "part_inv w q sent got over" and "\<forall>m\<in>set ms. silent m"
  shows "part_inv w (q @ ms) sent got over"
proof -
  have ms: "sealed_in ms = []" "\<not> moved_in e ms" for e
    using assms(2) by (induction ms) auto
  then show ?thesis
    using assms(1) by (fastforce simp: part_inv_def waits_def split: option.splits)
qed

lemma part_inv_moved:
  assumes inv: "part_inv w q sent got False" and s: "moves_only s" and w: "waiting_moved s w = (w', told)"
  shows "part_inv w' (q @ (case told of Some e \<Rightarrow> [Moved p e] | None \<Rightarrow> [])) (sent @ [s]) got False"
proof (cases "wt_seal w")
  case None
  then have t: "wt_seal_told w \<noteq> Some (wt_epoch w)" "\<not> moved_in (wt_epoch w) q" "merges sent (got @ sealed_in q)"
    using inv by (simp_all add: part_inv_def waits_def)
  have "merges (sent @ [s]) (got @ sealed_in q @ [s])" using merges.kept [OF t(3), of s] by simp
  moreover have "told = Some (wt_epoch w)" "w' = w\<lparr>wt_seal := Some s, wt_seal_told := Some (wt_epoch w)\<rparr>"
    using w None t(1) by (auto simp: waiting_moved_def Let_def seal_answers_def)
  ultimately show ?thesis
    using inv s t(2) by (fastforce simp: part_inv_def waits_def)
next
  case (Some x)
  then obtain q1 p' q2 where q: "q = q1 @ Moved p' (wt_epoch w) # q2" "\<not> moved_in (wt_epoch w) q1" "\<not> moved_in (wt_epoch w) q2"
    and m: "merges sent ((got @ sealed_in q1) @ [x])" "sealed_in q2 = []" and x: "moves_only x" "wt_seal_told w = Some (wt_epoch w)"
    using inv by (auto simp: part_inv_def waits_def)
  have "told = None" "w' = w\<lparr>wt_seal := Some (absorbs x s)\<rparr>"
    using w Some x(2) by (auto simp: waiting_moved_def Let_def seal_answers_def absorbs_def)
  then show ?thesis
    using inv s q x(2) m(2) merges.left_out [OF m(1) x(1), of s] by (fastforce simp: part_inv_def waits_def)
qed

lemma part_inv_superseded:
  assumes inv: "part_inv w q sent got False" and len: "length sent < U64_MAX"
    and w: "waiting_superseded w = (w', was)"
  shows "part_inv w' (q @ [Sealed (s\<lparr>sl_answers := opt_max (sl_answers s) was\<rparr>)]) (sent @ [s]) got False"
proof -
  have e: "wadd (wt_epoch w) 1 = Suc (wt_epoch w)" using inv len by (simp add: part_inv_def wadd_exact)
  have w': "w' = w\<lparr>wt_epoch := Suc (wt_epoch w), wt_seal := None\<rparr>" "was = seal_answers (wt_seal w)"
    using w unfolding waiting_superseded_def e by auto
  have old: "\<not> moved_in (Suc (wt_epoch w)) q" "wt_seal_told w \<noteq> Some (Suc (wt_epoch w))"
    using inv unfolding part_inv_def by fastforce+
  have "merges (sent @ [s]) (got @ sealed_in q @ [s\<lparr>sl_answers := opt_max (sl_answers s) was\<rparr>])"
  proof (cases "wt_seal w")
    case None
    then have "merges sent (got @ sealed_in q)" using inv by (simp add: part_inv_def waits_def)
    then show ?thesis using merges.kept [of sent "got @ sealed_in q" s] None w'(2) by (simp add: seal_answers_def)
  next
    case (Some x)
    then obtain q1 p' q2 where "q = q1 @ Moved p' (wt_epoch w) # q2" "sealed_in q2 = []" "moves_only x"
      "merges sent ((got @ sealed_in q1) @ [x])"
      using inv by (auto simp: part_inv_def waits_def)
    then show ?thesis
      using merges.left_out [of sent "got @ sealed_in q1" x s] Some w'(2) by (simp add: seal_answers_def absorbs_def)
  qed
  then show ?thesis
    using inv old w'(1) by (auto simp: part_inv_def waits_def intro: le_SucI)
qed

lemma part_inv_end:
  assumes inv: "part_inv w q sent got False"
  shows "part_inv w (q @ [Sealed s]) (sent @ [s]) got True"
proof (cases "wt_seal w")
  case None
  then show ?thesis using inv merges.kept [of sent "got @ sealed_in q" s] by (auto simp: part_inv_def waits_def)
next
  case (Some x)
  then obtain q1 p' q2 where q: "q = q1 @ Moved p' (wt_epoch w) # q2" "\<not> moved_in (wt_epoch w) q1" "\<not> moved_in (wt_epoch w) q2"
    and m: "merges sent (got @ sealed_in q1 @ x # sealed_in q2)" and x: "moves_only x" "wt_seal_told w = Some (wt_epoch w)"
    using inv by (auto simp: part_inv_def waits_def)
  have "merges (sent @ [s]) (got @ sealed_in q1 @ x # sealed_in (q2 @ [Sealed s]))"
    using merges.kept [OF m, of s] by simp
  moreover have "q @ [Sealed s] = q1 @ Moved p' (wt_epoch w) # q2 @ [Sealed s]" using q(1) by simp
  moreover have "\<not> moved_in (wt_epoch w) (q2 @ [Sealed s])" using q(3) by simp
  ultimately have "waits w (q @ [Sealed s]) (sent @ [s]) got True"
    using Some x q(2) unfolding waits_def by (simp only: option.case) blast
  then show ?thesis using inv by (auto simp: part_inv_def)
qed

lemma part_inv_take_sealed:
  assumes inv: "part_inv w (Sealed s # q) sent got over"
  shows "part_inv w q sent (got @ [s]) over"
proof (cases "wt_seal w")
  case None
  then show ?thesis using inv by (auto simp: part_inv_def waits_def)
next
  case (Some x)
  then obtain q1 p' q2 where q: "Sealed s # q = q1 @ Moved p' (wt_epoch w) # q2" "\<not> moved_in (wt_epoch w) q1"
    and r: "\<not> moved_in (wt_epoch w) q2" "merges sent (got @ sealed_in q1 @ x # sealed_in q2)" "\<not> over \<longrightarrow> sealed_in q2 = []"
      "moves_only x" "wt_seal_told w = Some (wt_epoch w)"
    using inv by (auto simp: part_inv_def waits_def)
  then obtain q1' where q1: "q1 = Sealed s # q1'" "q = q1' @ Moved p' (wt_epoch w) # q2" by (cases q1) auto
  then have "merges sent ((got @ [s]) @ sealed_in q1' @ x # sealed_in q2)" using r(2) by simp
  then have "waits w q sent (got @ [s]) over"
    using Some r q(2) q1 unfolding waits_def by (simp only: option.case) auto
  then show ?thesis using inv by (simp add: part_inv_def)
qed

lemma part_inv_skip:
  assumes inv: "part_inv w (m # q) sent got over" and m: "\<forall>s. m \<noteq> Sealed s" "\<forall>p. m \<noteq> Moved p (wt_epoch w)"
  shows "part_inv w q sent got over"
proof (cases "wt_seal w")
  case None
  moreover have "sealed_in (m # q) = sealed_in q" using m(1) by (cases m) simp_all
  ultimately show ?thesis using inv by (auto simp: part_inv_def waits_def)
next
  case (Some x)
  then obtain q1 p' q2 where q: "m # q = q1 @ Moved p' (wt_epoch w) # q2" "\<not> moved_in (wt_epoch w) q1"
    and r: "\<not> moved_in (wt_epoch w) q2" "merges sent (got @ sealed_in q1 @ x # sealed_in q2)" "\<not> over \<longrightarrow> sealed_in q2 = []"
      "moves_only x" "wt_seal_told w = Some (wt_epoch w)"
    using inv by (auto simp: part_inv_def waits_def)
  then obtain q1' where q1: "q1 = m # q1'" "q = q1' @ Moved p' (wt_epoch w) # q2" using m(2) by (cases q1) auto
  moreover have "sealed_in q1 = sealed_in q1'" unfolding q1(1) using m(1) by (cases m) simp_all
  ultimately have "waits w q sent got over"
    using Some r q(2) unfolding waits_def by (simp only: option.case) auto
  then show ?thesis using inv by (simp add: part_inv_def)
qed

lemma part_inv_take_moved:
  assumes inv: "part_inv w (Moved p (wt_epoch w) # q) sent got over" and t: "waiting_take (wt_epoch w) w = (w', h)"
  shows "part_inv w' q sent (got @ (case h of Some s \<Rightarrow> [s] | None \<Rightarrow> [])) over"
proof -
  have w': "w' = w\<lparr>wt_seal_told := None, wt_seal := None\<rparr>" "h = wt_seal w" using t by (auto simp: waiting_take_def)
  obtain x where x: "wt_seal w = Some x" using inv by (cases "wt_seal w") (auto simp: part_inv_def waits_def)
  then obtain q1 p' q2 where q: "Moved p (wt_epoch w) # q = q1 @ Moved p' (wt_epoch w) # q2" "\<not> moved_in (wt_epoch w) q1"
    and r: "\<not> moved_in (wt_epoch w) q2" "merges sent (got @ sealed_in q1 @ x # sealed_in q2)"
    using inv by (auto simp: part_inv_def waits_def)
  then have "q1 = []" "q = q2" by (cases q1; auto)+
  then show ?thesis using inv w' x r by (auto simp: part_inv_def waits_def)
qed

lemma part_inv_signals:
  "part_inv (w\<lparr>wt_signal_told := a\<rparr>) q sent got over = part_inv w q sent got over"
  "part_inv (w\<lparr>wt_behind := b\<rparr>) q sent got over = part_inv w q sent got over"
  "part_inv (w\<lparr>wt_replan := c\<rparr>) q sent got over = part_inv w q sent got over"
  by (simp_all add: part_inv_def waits_def cong: option.case_cong)

subsection \<open>All partitions\<close>

definition sealing_inv :: "sealing \<Rightarrow> nat \<Rightarrow> bool" where
  "sealing_inv y p \<longleftrightarrow> (length (sy_sealed y p) \<le> U64_MAX \<longrightarrow>
     part_inv (bt_default waiting_default (sy_latest y) p) (filter (\<lambda>m. progress_partition m = p) (sy_queue y))
       (sy_sealed y p) (sy_heard y p) (sy_ended y p))"

lemma latest_with_simps:
  "latest_with p f l = (l', x) \<Longrightarrow>
   (\<forall>p'. bt_default waiting_default l' p' = (if p' = p then fst (f (bt_default waiting_default l p)) else bt_default waiting_default l p'))
   \<and> x = snd (f (bt_default waiting_default l p))"
  by (auto simp: latest_with_def btree_simps split: prod.splits)

lemma appended_simps [simp]: "appended p xs f p' = (if p' = p then f p @ xs else f p')"
  by (simp add: appended_def)

lemma sealing_inv_checkpoint:
  assumes inv: "sealing_inv y p" and open': "\<not> sy_ended y (sl_partition s)"
    and seg: "seal_segment s (sy_latest y) = (l, ms)"
  shows "sealing_inv (y\<lparr>sy_latest := l, sy_queue := sy_queue y @ ms, sy_sealed := appended (sl_partition s) [s] (sy_sealed y)\<rparr>) p"
proof (cases "p = sl_partition s")
  case False
  have "bt_default waiting_default l p = bt_default waiting_default (sy_latest y) p"
    "filter (\<lambda>m. progress_partition m = p) ms = []"
    using seg False
    by (auto simp: seal_segment_def latest_moved_def latest_superseded_def dest: latest_with_simps split: if_splits prod.splits option.splits)
  then show ?thesis using inv False by (simp add: sealing_inv_def)
next
  case True
  let ?w = "bt_default waiting_default (sy_latest y) p" and ?w' = "bt_default waiting_default l p"
  have mine: "filter (\<lambda>m. progress_partition m = p) ms = ms"
    using seg True by (auto simp: seal_segment_def split: if_splits prod.splits option.splits)
  show ?thesis
  proof (cases "moves_only s")
    case moves: True
    then obtain told where l: "latest_moved s (sy_latest y) = (l, told)"
      and ms: "ms = (case told of Some e \<Rightarrow> [Moved p e] | None \<Rightarrow> [])"
      using seg True by (auto simp: seal_segment_def split: prod.splits option.splits)
    have "waiting_moved s ?w = (?w', told)"
      using latest_with_simps [OF l [unfolded latest_moved_def]] True by (simp add: prod_eq_iff)
    then show ?thesis
      using part_inv_moved [of ?w _ _ _ s ?w' told p] inv moves open' ms mine True by (simp add: sealing_inv_def)
  next
    case rows: False
    then obtain was where l: "latest_superseded p (sy_latest y) = (l, was)"
      and ms: "ms = [Sealed (s\<lparr>sl_answers := opt_max (sl_answers s) was\<rparr>)]"
      using seg True by (auto simp: seal_segment_def split: prod.splits)
    have "waiting_superseded ?w = (?w', was)"
      using latest_with_simps [OF l [unfolded latest_superseded_def]] by (simp add: prod_eq_iff)
    then show ?thesis
      using part_inv_superseded [of ?w _ "sy_sealed y p" _ ?w' was s] inv open' ms mine True
      by (simp add: sealing_inv_def)
  qed
qed

lemma sealing_inv_read_end:
  "sealing_inv y p \<Longrightarrow> \<not> sy_ended y (sl_partition s) \<Longrightarrow>
   sealing_inv (y\<lparr>sy_queue := sy_queue y @ [Sealed s], sy_sealed := appended (sl_partition s) [s] (sy_sealed y),
     sy_ended := (sy_ended y)(sl_partition s := True)\<rparr>) p"
  using part_inv_end by (auto simp: sealing_inv_def)

lemma sealing_inv_other:
  "sealing_inv y p \<Longrightarrow> \<forall>m\<in>set ms. silent m \<Longrightarrow> sealing_inv (y\<lparr>sy_queue := sy_queue y @ ms\<rparr>) p"
  using part_inv_silent by (simp add: sealing_inv_def)

lemma sealing_inv_signalled:
  assumes "sealing_inv y p" and "\<And>q sent got over. part_inv (bt_default waiting_default l p) q sent got over
      = part_inv (bt_default waiting_default (sy_latest y) p) q sent got over"
  shows "sealing_inv (y\<lparr>sy_latest := l\<rparr>) p"
  using assms by (simp add: sealing_inv_def)

lemma latest_signal_part_inv:
  "latest_behind p' records room l = (l', told) \<Longrightarrow>
     part_inv (bt_default waiting_default l' p) q sent got over = part_inv (bt_default waiting_default l p) q sent got over"
  "latest_replan p' l = (l', told) \<Longrightarrow>
     part_inv (bt_default waiting_default l' p) q sent got over = part_inv (bt_default waiting_default l p) q sent got over"
  "part_inv (bt_default waiting_default (fst (latest_signals p' l)) p) q sent got over
     = part_inv (bt_default waiting_default l p) q sent got over"
  by (cases "p = p'"; auto simp: latest_behind_def latest_replan_def latest_signals_def latest_with_def btree_simps
      part_inv_signals)+

lemma sealing_inv_listen:
  assumes inv: "sealing_inv y p" and q: "sy_queue y = m # ms" and h: "heard m (sy_latest y) = (l, h)"
  shows "sealing_inv (y\<lparr>sy_latest := l, sy_queue := ms,
      sy_heard := appended (progress_partition m) (case h of Some s \<Rightarrow> [s] | None \<Rightarrow> []) (sy_heard y)\<rparr>) p"
proof (cases "length (sy_sealed y p) \<le> U64_MAX")
  case False
  then show ?thesis by (simp add: sealing_inv_def)
next
  case True
  let ?w = "bt_default waiting_default (sy_latest y) p" and ?w' = "bt_default waiting_default l p"
  let ?q = "filter (\<lambda>m. progress_partition m = p) ms"
  let ?new = "if progress_partition m = p then (case h of Some s \<Rightarrow> [s] | None \<Rightarrow> []) else []"
  have inv': "part_inv ?w (if progress_partition m = p then m # ?q else ?q) (sy_sealed y p) (sy_heard y p) (sy_ended y p)"
    using inv True q by (simp add: sealing_inv_def split: if_splits)
  have "part_inv ?w' ?q (sy_sealed y p) (sy_heard y p @ ?new) (sy_ended y p)"
  proof (cases "progress_partition m = p")
    case other: False
    have "part_inv ?w' ?q (sy_sealed y p) (sy_heard y p) (sy_ended y p) = part_inv ?w ?q (sy_sealed y p) (sy_heard y p) (sy_ended y p)"
      using h other latest_signal_part_inv(3)
      by (cases m) (auto simp: heard_def latest_seal_def dest!: latest_with_simps)
    with inv' other show ?thesis by simp
  next
    case mine: True
    then have inv'': "part_inv ?w (m # ?q) (sy_sealed y p) (sy_heard y p) (sy_ended y p)" using inv' by simp
    show ?thesis
    proof (cases m)
      case (Sealed s)
      then show ?thesis using inv'' h mine part_inv_take_sealed by (auto simp: heard_def)
    next
      case (Moved p' e)
      then have l: "latest_seal p e (sy_latest y) = (l, h)" using h mine by (simp add: heard_def)
      have take: "waiting_take e ?w = (?w', h)"
        using latest_with_simps [OF l [unfolded latest_seal_def]] by (simp add: prod_eq_iff)
      show ?thesis
      proof (cases "e = wt_epoch ?w")
        case True
        then show ?thesis using part_inv_take_moved [of ?w p'] inv'' take Moved mine by simp
      next
        case False
        then have "?w' = ?w" "h = None" using take by (simp_all add: waiting_take_def split: if_splits)
        then show ?thesis using part_inv_skip [OF inv''] Moved False by simp
      qed
    next
      case (Signalled p')
      then show ?thesis
        using part_inv_skip [OF inv''] h mine latest_signal_part_inv(3) by (auto simp: heard_def)
    qed (use part_inv_skip [OF inv''] h mine in \<open>auto simp: heard_def\<close>)
  qed
  then show ?thesis by (cases "progress_partition m = p") (simp_all add: sealing_inv_def)
qed

lemma sealing_reachable_inv: "sealing_reachable y \<Longrightarrow> sealing_inv y p"
proof (induction rule: sealing_reachable.induct)
  case start
  then show ?case
    by (simp add: sealing_inv_def sealing_start_def part_inv_def waits_def waiting_default_def bt_default_def merges.none)
next
  case (step y y')
  from step(2) show ?case
  proof cases
    case (checkpoint s l ms)
    then show ?thesis using sealing_inv_checkpoint step.IH by blast
  next
    case (read_end s)
    then show ?thesis using sealing_inv_read_end step.IH by blast
  next
    case (behind p' records room l told)
    then show ?thesis
      using sealing_inv_other [OF sealing_inv_signalled [OF step.IH latest_signal_part_inv(1) [OF behind(2)]],
          of "if told then [Signalled p'] else []"] by (simp add: silent_def)
  next
    case (replan p' l told)
    then show ?thesis
      using sealing_inv_other [OF sealing_inv_signalled [OF step.IH latest_signal_part_inv(2) [OF replan(2)]],
          of "if told then [Signalled p'] else []"] by (simp add: silent_def)
  next
    case (other m)
    then show ?thesis using sealing_inv_other [OF step.IH, of "[m]"] by (simp add: silent_def)
  next
    case (listen m ms l h)
    then show ?thesis using sealing_inv_listen step.IH by blast
  qed
qed

lemma part_inv_drained: "part_inv w [] sent got over \<Longrightarrow> merges sent got"
  by (auto simp: part_inv_def waits_def split: option.splits)

lemma part_inv_prefix: "part_inv w q sent got over \<Longrightarrow> \<exists>n \<le> length sent. merges (take n sent) got"
  using merges_prefix [of sent got] by (fastforce simp: part_inv_def waits_def split: option.splits)

text \<open>C34: Whatever the order in which partitions seal, signal and end and the coordinator listens,
  what it has heard of a partition is some first of the seals the partition made: each of those that
  counts anything, in order, a position that is where the last of them stands, and the newest barrier
  they answered. So no position is heard of before the rows behind it. Once the queue is empty the
  coordinator has heard them all.\<close>

theorem seals_heard_in_order:
  assumes "sealing_reachable y" and "length (sy_sealed y p) \<le> U64_MAX"
  shows "\<exists>n \<le> length (sy_sealed y p). (sy_queue y = [] \<longrightarrow> n = length (sy_sealed y p))
     \<and> counting (sy_heard y p) = counting (take n (sy_sealed y p))
     \<and> stands_at (sy_heard y p) = stands_at (take n (sy_sealed y p))
     \<and> answered (sy_heard y p) = answered (take n (sy_sealed y p))"
proof -
  have inv: "part_inv (bt_default waiting_default (sy_latest y) p) (filter (\<lambda>m. progress_partition m = p) (sy_queue y))
       (sy_sealed y p) (sy_heard y p) (sy_ended y p)"
    using sealing_reachable_inv [OF assms(1), of p] assms(2) by (simp add: sealing_inv_def)
  obtain n where n: "n \<le> length (sy_sealed y p)" "merges (take n (sy_sealed y p)) (sy_heard y p)"
    "sy_queue y = [] \<longrightarrow> n = length (sy_sealed y p)"
    using part_inv_prefix [OF inv] part_inv_drained inv by (cases "sy_queue y = []") fastforce+
  then show ?thesis using merges_keeps by blast
qed

text \<open>A partition that checkpoints at a cursor with no rows, then with rows, then with none: the
  coordinator hears of the first message late.\<close>

definition demo_seal :: "nat \<Rightarrow> nat \<Rightarrow> string \<Rightarrow> nat option \<Rightarrow> seal" where
  "demo_seal segment rows at answers =
     \<lparr>sl_partition = 0, sl_segment = segment, sl_rows = rows, sl_bytes = rows, sl_state = AtCursor \<lparr>cur_version = 1, cur_bytes = at\<rparr>,
      sl_answers = answers, sl_discarded_rows = 0, sl_discarded_values = 0, sl_discards = column_discards_default,
      sl_deletes_ignored = 0, sl_truncates_ignored = 0, sl_shred = shred_default, sl_filtered = filtered_default, sl_held = 0\<rparr>"

lemma sealing_checkpoint:
  "sealing_reachable y \<Longrightarrow> \<not> sy_ended y (sl_partition s) \<Longrightarrow>
   sealing_reachable (y\<lparr>sy_latest := fst (seal_segment s (sy_latest y)), sy_queue := sy_queue y @ snd (seal_segment s (sy_latest y)),
     sy_sealed := appended (sl_partition s) [s] (sy_sealed y)\<rparr>)"
  by (rule sealing_reachable.step [OF _ sealing_step.checkpoint]) auto

lemma sealing_listen:
  "sealing_reachable y \<Longrightarrow> sy_queue y = m # ms \<Longrightarrow>
   sealing_reachable (y\<lparr>sy_latest := fst (heard m (sy_latest y)), sy_queue := ms,
     sy_heard := appended (progress_partition m) (case snd (heard m (sy_latest y)) of Some s \<Rightarrow> [s] | None \<Rightarrow> []) (sy_heard y)\<rparr>)"
  by (rule sealing_reachable.step [OF _ sealing_step.listen]) auto

theorem seals_heard_in_order_witness:
  "\<exists>y. sealing_reachable y \<and> length (sy_sealed y 0) \<le> U64_MAX
     \<and> sy_sealed y 0 = [demo_seal 7 0 ''a'' (Some 4), demo_seal 8 5 ''b'' None, demo_seal 9 0 ''c'' None]
     \<and> sy_heard y 0 = [(demo_seal 8 5 ''b'' (Some 4))]
     \<and> (\<exists>n \<le> 3. counting (sy_heard y 0) = counting (take n (sy_sealed y 0)) \<and> stands_at (sy_heard y 0) = stands_at (take n (sy_sealed y 0)))"
proof -
  let ?a = "demo_seal 7 0 ''a'' (Some 4)" and ?b = "demo_seal 8 5 ''b'' None" and ?c = "demo_seal 9 0 ''c'' None"
  let ?b' = "demo_seal 8 5 ''b'' (Some 4)"
  have m: "moves_only ?a" "\<not> moves_only ?b" "moves_only ?c" "sl_partition ?a = 0" "sl_partition ?b = 0" "sl_partition ?c = 0"
    by (simp_all add: demo_seal_def moves_only_def filtered_default_def numeral_eq_Suc)
  note sim = m sealing_start_def seal_segment_def latest_moved_def latest_superseded_def latest_with_def waiting_moved_def
    waiting_superseded_def seal_answers_def waiting_default_def bt_default_def Let_def
  have b': "?b\<lparr>sl_answers := Some 4\<rparr> = ?b'" "sl_answers ?a = Some 4" "?a\<lparr>sl_answers := Some 4\<rparr> = ?a" "sl_answers ?b = None" by (simp_all add: demo_seal_def)
  define y1 where "y1 = sealing_start\<lparr>sy_latest := fst (seal_segment ?a []), sy_queue := [Moved 0 0], sy_sealed := appended 0 [?a] (\<lambda>_. [])\<rparr>"
  have y1: "sealing_reachable y1"
    using sealing_checkpoint [OF sealing_reachable.start, of ?a] by (simp add: y1_def sim)
  have l1: "sy_latest y1 = [(0, waiting_default\<lparr>wt_seal := Some ?a, wt_seal_told := Some 0\<rparr>)]"
    by (simp add: y1_def sim b')
  define y2 where "y2 = y1\<lparr>sy_latest := [(0, waiting_default\<lparr>wt_epoch := Suc 0, wt_seal_told := Some 0\<rparr>)], sy_queue := [Moved 0 0, Sealed ?b'],
      sy_sealed := appended 0 [?b] (sy_sealed y1)\<rparr>"
  have y2: "sealing_reachable y2"
    using sealing_checkpoint [OF y1, of ?b] unfolding y2_def l1
    by (simp add: sim b' wadd_exact U64_MAX_def) (simp add: y1_def sim)
  define y3 where "y3 = y2\<lparr>sy_latest := fst (seal_segment ?c (sy_latest y2)), sy_queue := [Moved 0 0, Sealed ?b', Moved 0 (Suc 0)],
      sy_sealed := appended 0 [?c] (sy_sealed y2)\<rparr>"
  have y3: "sealing_reachable y3"
    using sealing_checkpoint [OF y2, of ?c] by (simp add: y3_def y2_def y1_def sim)
  define y4 where "y4 = y3\<lparr>sy_latest := fst (heard (Moved 0 0) (sy_latest y3)), sy_queue := [Sealed ?b', Moved 0 (Suc 0)]\<rparr>"
  have "snd (heard (Moved 0 0) (sy_latest y3)) = None"
    by (simp add: y3_def y2_def sim heard_def latest_seal_def waiting_take_def)
  then have y4: "sealing_reachable y4"
    using sealing_listen [OF y3, of "Moved 0 0"] by (simp add: y4_def y3_def appended_def)
  define y where "y = y4\<lparr>sy_queue := [Moved 0 (Suc 0)], sy_heard := appended 0 [?b'] (sy_heard y4)\<rparr>"
  have "sealing_reachable y"
    using sealing_listen [OF y4, of "Sealed ?b'"] by (simp add: y_def y4_def heard_def demo_seal_def)
  moreover have "sy_sealed y 0 = [?a, ?b, ?c]" "sy_heard y 0 = [?b']"
    by (simp_all add: y_def y4_def y3_def y2_def y1_def sealing_start_def)
  moreover from this have "length (sy_sealed y 0) \<le> U64_MAX" by (simp add: U64_MAX_def)
  moreover have "\<exists>n \<le> 3. counting (sy_heard y 0) = counting (take n (sy_sealed y 0)) \<and> stands_at (sy_heard y 0) = stands_at (take n (sy_sealed y 0))"
    using seals_heard_in_order [OF calculation(1,4)] calculation(2) by (auto simp: numeral_eq_Suc)
  ultimately show ?thesis by blast
qed

end
