(* ===== verification/Waiting.thy ===== *)
theory Waiting
  imports Seals
begin

text \<open>
  What waits for the next commit and what makes it due: the seals and the cursors they hold
  (\<open>crates/rdlt-engine/src/coordinator/waiting.rs\<close>), the rows and bytes a commit could take
  (\<open>coordinator/due.rs\<close>) and the policy's thresholds (\<open>config/commit.rs\<close>).
\<close>

subsection \<open>The seals waiting\<close>

record counted_seal =
  cn_partition :: nat
  cn_segment :: nat
  cn_rows :: nat
  cn_bytes :: nat
  cn_discarded_rows :: nat
  cn_discarded_values :: nat
  cn_discards :: column_discards
  cn_deletes_ignored :: nat
  cn_truncates_ignored :: nat
  cn_shred :: shred_counts
  cn_filtered :: filtered_rows

record standing =
  sd_position :: partition_state
  sd_before :: "cursor option"
  sd_held :: "nat list"

record waiting_seals =
  ws_counted :: "counted_seal list"
  ws_standing :: "(nat, standing) btree"
  ws_cursor_bytes :: nat

definition waiting_seals_default :: waiting_seals where
  "waiting_seals_default = \<lparr>ws_counted = [], ws_standing = [], ws_cursor_bytes = 0\<rparr>"

definition standing_told :: "standing \<Rightarrow> cursor option" where
  "standing_told s = (case sd_position s of AtCursor c \<Rightarrow> Some c | Done \<Rightarrow> sd_before s)"

definition bytes_of :: "cursor \<Rightarrow> nat" where
  "bytes_of c = min U64_MAX (length (cur_bytes c))"

definition seal_counts :: "seal \<Rightarrow> bool" where
  "seal_counts s \<longleftrightarrow> \<not> moves_only s \<or> sl_shred s \<noteq> shred_default"

definition seal_counted :: "seal \<Rightarrow> counted_seal" where
  "seal_counted s =
     \<lparr>cn_partition = sl_partition s, cn_segment = sl_segment s, cn_rows = sl_rows s, cn_bytes = sl_bytes s,
      cn_discarded_rows = sl_discarded_rows s, cn_discarded_values = sl_discarded_values s,
      cn_discards = sl_discards s, cn_deletes_ignored = sl_deletes_ignored s,
      cn_truncates_ignored = sl_truncates_ignored s, cn_shred = sl_shred s, cn_filtered = sl_filtered s\<rparr>"

text \<open>Where a partition stands after a seal: a seal that ends it done keeps the cursor before it.\<close>

definition stand :: "seal \<Rightarrow> standing option \<Rightarrow> standing" where
  "stand s earlier =
     (case (sl_state s, earlier) of
        (Done, Some e) \<Rightarrow>
          \<lparr>sd_position = Done,
           sd_before = (case sd_position e of AtCursor c \<Rightarrow> Some c | Done \<Rightarrow> sd_before e),
           sd_held = sd_held e @ [sl_held s]\<rparr>
      | (position, _) \<Rightarrow> \<lparr>sd_position = position, sd_before = None, sd_held = [sl_held s]\<rparr>)"

definition told_bytes :: "standing option \<Rightarrow> nat" where
  "told_bytes s = (case s of None \<Rightarrow> 0 | Some st \<Rightarrow> (case standing_told st of None \<Rightarrow> 0 | Some c \<Rightarrow> bytes_of c))"

definition push_seal :: "seal \<Rightarrow> waiting_seals \<Rightarrow> waiting_seals" where
  "push_seal s w =
     (let earlier = bt_get (ws_standing w) (sl_partition s);
          now = stand s earlier
      in \<lparr>ws_counted = ws_counted w @ (if seal_counts s then [seal_counted s] else []),
          ws_standing = bt_insert (sl_partition s) now (bt_remove (sl_partition s) (ws_standing w)),
          ws_cursor_bytes = sadd (ws_cursor_bytes w - told_bytes earlier) (told_bytes (Some now))\<rparr>)"

definition take_seals :: "waiting_seals \<Rightarrow> waiting_seals \<times> counted_seal list \<times> (nat, standing) btree" where
  "take_seals w = (waiting_seals_default, ws_counted w, ws_standing w)"

text \<open>The last cursor of a partition's seals, and the holds since it.\<close>

definition last_cursor :: "seal list \<Rightarrow> cursor option" where
  "last_cursor ss = fold (\<lambda>s c. case sl_state s of AtCursor x \<Rightarrow> Some x | Done \<Rightarrow> c) ss None"

definition holds :: "seal list \<Rightarrow> nat list" where
  "holds ss = fold (\<lambda>s hs. case sl_state s of AtCursor _ \<Rightarrow> [sl_held s] | Done \<Rightarrow> hs @ [sl_held s]) ss []"

definition stood :: "seal list \<Rightarrow> standing option" where
  "stood ss =
     (if ss = [] then None
      else Some \<lparr>sd_position = sl_state (last ss),
                 sd_before = (if sl_state (last ss) = Done then last_cursor ss else None),
                 sd_held = holds ss\<rparr>)"

definition seals_of :: "nat \<Rightarrow> seal list \<Rightarrow> seal list" where
  "seals_of p ss = filter (\<lambda>s. sl_partition s = p) ss"

definition cursor_len :: "seal \<Rightarrow> nat" where
  "cursor_len s = (case sl_state s of AtCursor c \<Rightarrow> length (cur_bytes c) | Done \<Rightarrow> 0)"

lemma stood_told: "stood ss = Some st \<Longrightarrow> standing_told st = last_cursor ss"
  by (cases ss rule: rev_cases)
    (auto simp: stood_def standing_told_def last_cursor_def split: partition_state.splits)

lemma stand_stood: "stand s (stood ss) = the (stood (ss @ [s]))"
proof (cases "ss = []")
  case True
  then show ?thesis by (auto simp: stand_def stood_def holds_def last_cursor_def split: partition_state.splits)
next
  case False
  then obtain st where st: "stood ss = Some st" "sd_held st = holds ss" by (simp add: stood_def)
  have "standing_told st = last_cursor ss" using st(1) by (rule stood_told)
  then show ?thesis
    using st by (auto simp: stand_def stood_def holds_def last_cursor_def standing_told_def split: partition_state.splits)
qed

lemma last_cursor_len: "last_cursor ss = Some c \<Longrightarrow> length (cur_bytes c) \<le> sum_list (map cursor_len ss)"
proof (induction ss rule: rev_induct)
  case (snoc s ss)
  then show ?case by (cases "sl_state s") (auto simp: last_cursor_def cursor_len_def)
qed (simp add: last_cursor_def)

definition told_sum :: "(nat, standing) btree \<Rightarrow> nat" where
  "told_sum m = bt_sum (\<lambda>st. told_bytes (Some st)) m"

lemma told_sum_push:
  "bt_wf m \<Longrightarrow> told_sum (bt_insert p st (bt_remove p m)) + told_bytes (bt_get m p) = told_sum m + told_bytes (Some st)"
  using bt_sum_insert [of "bt_remove p m" "\<lambda>st. told_bytes (Some st)" p st]
    bt_sum_remove [of m "\<lambda>st. told_bytes (Some st)" p]
  by (auto simp: told_sum_def btree_simps told_bytes_def [of None] split: option.splits)

text \<open>C35: However many seals arrive, what each counts waits in order; each partition stands where its
  last seal does, with the cursor before it where it ended done, which its source is still told; what
  holds its cursors is held since its last cursor; and the bytes kept are those of one cursor a
  partition, the one its source will be told.\<close>

theorem waiting_seals_stand:
  assumes "sum_list (map cursor_len ss) \<le> U64_MAX"
  shows "ws_counted (fold push_seal ss waiting_seals_default) = map seal_counted (filter seal_counts ss)
     \<and> (\<forall>p. bt_get (ws_standing (fold push_seal ss waiting_seals_default)) p = stood (seals_of p ss))
     \<and> ws_cursor_bytes (fold push_seal ss waiting_seals_default)
        = told_sum (ws_standing (fold push_seal ss waiting_seals_default))"
proof -
  have "bt_wf (ws_standing (fold push_seal ss waiting_seals_default))
     \<and> told_sum (ws_standing (fold push_seal ss waiting_seals_default)) \<le> sum_list (map cursor_len ss)
     \<and> ?thesis"
    using assms
  proof (induction ss rule: rev_induct)
    case Nil
    then show ?case by (simp add: waiting_seals_default_def stood_def seals_of_def told_sum_def)
  next
    case (snoc s ss)
    let ?w = "fold push_seal ss waiting_seals_default" and ?p = "sl_partition s"
    let ?e = "bt_get (ws_standing ?w) ?p"
    have IH: "bt_wf (ws_standing ?w)" "told_sum (ws_standing ?w) \<le> sum_list (map cursor_len ss)"
      "ws_counted ?w = map seal_counted (filter seal_counts ss)"
      "\<forall>p. bt_get (ws_standing ?w) p = stood (seals_of p ss)"
      "ws_cursor_bytes ?w = told_sum (ws_standing ?w)"
      using snoc by simp_all
    let ?now = "stand s ?e"
    have now: "Some ?now = stood (seals_of ?p (ss @ [s]))"
      using IH(4) stand_stood [of s "seals_of ?p ss"] by (simp add: seals_of_def) (simp add: stood_def)
    have sum: "told_sum (bt_insert ?p ?now (bt_remove ?p (ws_standing ?w))) + told_bytes ?e
        = told_sum (ws_standing ?w) + told_bytes (Some ?now)"
      by (rule told_sum_push [OF IH(1)])
    have "told_bytes (Some ?now) \<le> told_bytes ?e + cursor_len s"
    proof -
      have "standing_told ?now = (case sl_state s of AtCursor c \<Rightarrow> Some c | Done \<Rightarrow> (case ?e of None \<Rightarrow> None | Some e \<Rightarrow> standing_told e))"
        by (auto simp: stand_def standing_told_def split: partition_state.splits option.splits)
      then show ?thesis
        by (auto simp: told_bytes_def cursor_len_def bytes_of_def split: partition_state.splits option.splits)
    qed
    moreover have "told_bytes ?e \<le> told_sum (ws_standing ?w)"
      using bt_sum_get_le [of "ws_standing ?w" ?p _ "\<lambda>st. told_bytes (Some st)"]
      by (cases ?e) (auto simp: told_bytes_def [of None] told_sum_def)
    ultimately have fits: "(told_sum (ws_standing ?w) - told_bytes ?e) + told_bytes (Some ?now) \<le> sum_list (map cursor_len (ss @ [s]))"
      and exact: "(told_sum (ws_standing ?w) - told_bytes ?e) + told_bytes (Some ?now)
        = told_sum (bt_insert ?p ?now (bt_remove ?p (ws_standing ?w)))"
      using IH(2) sum by simp_all
    let ?S = "bt_insert ?p ?now (bt_remove ?p (ws_standing ?w))"
    have bytes: "sadd (ws_cursor_bytes ?w - told_bytes ?e) (told_bytes (Some ?now)) = told_sum ?S"
      using fits exact snoc.prems IH(5) by (simp add: sadd_exact)
    have get: "bt_get ?S p = stood (seals_of p (ss @ [s]))" for p
      using IH(4) now by (simp add: btree_simps) (simp add: seals_of_def)
    have w': "fold push_seal (ss @ [s]) waiting_seals_default =
        \<lparr>ws_counted = ws_counted ?w @ (if seal_counts s then [seal_counted s] else []), ws_standing = ?S, ws_cursor_bytes = told_sum ?S\<rparr>"
      by (simp add: push_seal_def Let_def bytes)
    have "bt_wf ?S" "told_sum ?S \<le> sum_list (map cursor_len (ss @ [s]))" using IH(1) fits exact by simp_all
    then show ?case
      unfolding w' waiting_seals.simps using get IH(3) by simp
  qed
  then show ?thesis by simp
qed

theorem waiting_seals_stand_witness:
  "(let ss = [demo_seal 7 0 ''ab'' None, demo_seal 8 5 ''abc'' None, (demo_seal 9 0 '''' None)\<lparr>sl_state := Done\<rparr>];
        w = fold push_seal ss waiting_seals_default
    in sum_list (map cursor_len ss) \<le> U64_MAX \<and> map cn_rows (ws_counted w) = [5]
       \<and> map_option standing_told (bt_get (ws_standing w) 0) = Some (Some \<lparr>cur_version = 1, cur_bytes = ''abc''\<rparr>)
       \<and> ws_cursor_bytes w = told_sum (ws_standing w))"
proof -
  let ?ss = "[demo_seal 7 0 ''ab'' None, demo_seal 8 5 ''abc'' None, (demo_seal 9 0 '''' None)\<lparr>sl_state := Done\<rparr>]"
  have len: "sum_list (map cursor_len ?ss) \<le> U64_MAX" by code_simp
  moreover have "map cn_rows (map seal_counted (filter seal_counts ?ss)) = [5]"
    "map_option standing_told (stood (seals_of 0 ?ss)) = Some (Some \<lparr>cur_version = 1, cur_bytes = ''abc''\<rparr>)"
    by code_simp+
  ultimately show ?thesis unfolding Let_def using waiting_seals_stand [OF len] by metis
qed

subsection \<open>What makes a commit due\<close>

record counts =
  cs_rows :: nat
  cs_bytes :: nat

definition no_counts :: counts where
  "no_counts = \<lparr>cs_rows = 0, cs_bytes = 0\<rparr>"

definition counts_plus :: "nat \<Rightarrow> nat \<Rightarrow> counts \<Rightarrow> counts" where
  "counts_plus rows bytes c = \<lparr>cs_rows = sadd (cs_rows c) rows, cs_bytes = sadd (cs_bytes c) bytes\<rparr>"

text \<open>Takes up to so many rows and bytes: what is left, and what was taken.\<close>

definition counts_take :: "nat \<Rightarrow> nat \<Rightarrow> counts \<Rightarrow> counts \<times> counts" where
  "counts_take rows bytes c =
     (let taken = \<lparr>cs_rows = min rows (cs_rows c), cs_bytes = min bytes (cs_bytes c)\<rparr>
      in (\<lparr>cs_rows = cs_rows c - cs_rows taken, cs_bytes = cs_bytes c - cs_bytes taken\<rparr>, taken))"

record due =
  du_sealed :: counts
  du_unsealed :: "(nat, counts) btree"
  du_fresh :: counts

definition due_default :: due where
  "due_default = \<lparr>du_sealed = no_counts, du_unsealed = [], du_fresh = no_counts\<rparr>"

definition due_written :: "nat \<Rightarrow> nat \<Rightarrow> nat \<Rightarrow> due \<Rightarrow> due" where
  "due_written p rows bytes d =
     d\<lparr>du_unsealed := bt_entry p no_counts (counts_plus rows bytes) (du_unsealed d),
       du_fresh := counts_plus rows bytes (du_fresh d)\<rparr>"

definition due_sealed :: "nat \<Rightarrow> nat \<Rightarrow> nat \<Rightarrow> due \<Rightarrow> due" where
  "due_sealed p rows bytes d =
     (let d' = (case bt_get (du_unsealed d) p of
                  None \<Rightarrow> d
                | Some written \<Rightarrow>
                    let (left, taken) = counts_take rows bytes written;
                        fresh = fst (counts_take (cs_rows taken) (cs_bytes taken) (du_fresh d))
                    in d\<lparr>du_fresh := fresh,
                         du_unsealed := (if left = no_counts then bt_remove p (du_unsealed d)
                                         else bt_insert p left (du_unsealed d))\<rparr>)
      in d'\<lparr>du_sealed := counts_plus rows bytes (du_sealed d')\<rparr>)"

definition due_abandoned :: "nat \<Rightarrow> due \<Rightarrow> due" where
  "due_abandoned p d =
     (case bt_get (du_unsealed d) p of
        None \<Rightarrow> d
      | Some written \<Rightarrow>
          d\<lparr>du_unsealed := bt_remove p (du_unsealed d),
            du_fresh := fst (counts_take (cs_rows written) (cs_bytes written) (du_fresh d))\<rparr>)"

definition due_unanswered :: "nat \<Rightarrow> due \<Rightarrow> due" where
  "due_unanswered p d = due_abandoned p d"

definition due_committing :: "due \<Rightarrow> due" where
  "due_committing d = d\<lparr>du_sealed := no_counts\<rparr>"

definition due_rows :: "due \<Rightarrow> nat" where
  "due_rows d = sadd (cs_rows (du_sealed d)) (cs_rows (du_fresh d))"

definition due_bytes :: "due \<Rightarrow> nat" where
  "due_bytes d = sadd (cs_bytes (du_sealed d)) (cs_bytes (du_fresh d))"

text \<open>What happens to the rows and bytes: a partition writes, seals, abandons or does not answer, and
  a commit takes every seal.\<close>

datatype due_event = DueWritten nat nat nat | DueSealed nat nat nat | DueAbandoned nat | DueUnanswered nat | DueCommitting

fun due_after :: "due_event \<Rightarrow> due \<Rightarrow> due" where
  "due_after (DueWritten p rows bytes) d = due_written p rows bytes d"
| "due_after (DueSealed p rows bytes) d = due_sealed p rows bytes d"
| "due_after (DueAbandoned p) d = due_abandoned p d"
| "due_after (DueUnanswered p) d = due_unanswered p d"
| "due_after DueCommitting d = due_committing d"

text \<open>The same of one amount and one partition, in plain numbers: what it wrote and did not seal,
  abandon or leave unanswered; and what is sealed since the last commit.\<close>

fun unsealed_after :: "(nat \<Rightarrow> nat \<Rightarrow> nat) \<Rightarrow> nat \<Rightarrow> due_event \<Rightarrow> nat \<Rightarrow> nat" where
  "unsealed_after amount p (DueWritten p' rows bytes) n = (if p' = p then n + amount rows bytes else n)"
| "unsealed_after amount p (DueSealed p' rows bytes) n = (if p' = p then n - amount rows bytes else n)"
| "unsealed_after amount p (DueAbandoned p') n = (if p' = p then 0 else n)"
| "unsealed_after amount p (DueUnanswered p') n = (if p' = p then 0 else n)"
| "unsealed_after amount p DueCommitting n = n"

fun sealed_after :: "(nat \<Rightarrow> nat \<Rightarrow> nat) \<Rightarrow> due_event \<Rightarrow> nat \<Rightarrow> nat" where
  "sealed_after amount (DueSealed _ rows bytes) n = n + amount rows bytes"
| "sealed_after amount DueCommitting n = 0"
| "sealed_after amount _ n = n"

definition unsealed :: "(nat \<Rightarrow> nat \<Rightarrow> nat) \<Rightarrow> due_event list \<Rightarrow> nat \<Rightarrow> nat" where
  "unsealed amount es p = fold (unsealed_after amount p) es 0"

definition sealed :: "(nat \<Rightarrow> nat \<Rightarrow> nat) \<Rightarrow> due_event list \<Rightarrow> nat" where
  "sealed amount es = fold (sealed_after amount) es 0"

fun event_partition :: "due_event \<Rightarrow> nat set" where
  "event_partition (DueWritten p _ _) = {p}"
| "event_partition _ = {}"

fun event_amount :: "(nat \<Rightarrow> nat \<Rightarrow> nat) \<Rightarrow> due_event \<Rightarrow> nat" where
  "event_amount amount (DueWritten _ rows bytes) = amount rows bytes"
| "event_amount amount (DueSealed _ rows bytes) = amount rows bytes"
| "event_amount amount _ = 0"

definition written_by :: "due_event list \<Rightarrow> nat set" where
  "written_by es = (\<Union>e\<in>set es. event_partition e)"

lemma bt_sum_keys:
  assumes "bt_wf m" and "finite S" and "fst ` set m \<subseteq> S"
  shows "bt_sum f m = (\<Sum>k\<in>S. case bt_get m k of Some v \<Rightarrow> f v | None \<Rightarrow> 0)"
  using assms
proof (induction m arbitrary: S)
  case (Cons x m)
  obtain k v where x: "x = (k, v)" by (cases x)
  have wf: "bt_wf m" and none: "bt_get m k = None" using Cons.prems(1) x bt_wf_get_Cons [of k v m] by (simp_all add: bt_wf_Cons)
  have S: "k \<in> S" "finite (S - {k})" using Cons.prems x by auto
  have "fst ` set m \<subseteq> S - {k}" using Cons.prems x none by (auto simp: map_of_eq_None_iff)
  then have "bt_sum f m = (\<Sum>k\<in>S - {k}. case bt_get m k of Some v \<Rightarrow> f v | None \<Rightarrow> 0)"
    using Cons.IH [OF wf S(2)] by simp
  also have "\<dots> = (\<Sum>k\<in>S - {k}. case bt_get (x # m) k of Some v \<Rightarrow> f v | None \<Rightarrow> 0)"
    using x by (intro sum.cong) auto
  finally show ?case
    using x sum.remove [OF Cons.prems(2) S(1), of "\<lambda>k. case bt_get (x # m) k of Some v \<Rightarrow> f v | None \<Rightarrow> 0"] by simp
qed simp

lemma written_by_simps [simp]: "written_by [] = {}" "written_by (es @ [e]) = event_partition e \<union> written_by es"
  by (auto simp: written_by_def)

text \<open>The contract of an amount of what is counted: rows, or bytes.\<close>

locale due_amount =
  fixes amount :: "nat \<Rightarrow> nat \<Rightarrow> nat"
    and sel :: "counts \<Rightarrow> nat"
  assumes sel_none: "sel no_counts = 0"
    and sel_plus: "sel (counts_plus rows bytes c) = sadd (sel c) (amount rows bytes)"
    and sel_left: "sel (fst (counts_take rows bytes c)) = sel c - amount rows bytes"
    and sel_taken: "sel (snd (counts_take rows bytes c)) = min (amount rows bytes) (sel c)"
    and amount_sel: "amount (cs_rows c) (cs_bytes c) = sel c"
begin

definition tracks :: "due_event list \<Rightarrow> due \<Rightarrow> bool" where
  "tracks es d \<longleftrightarrow> bt_wf (du_unsealed d) \<and> fst ` set (du_unsealed d) \<subseteq> written_by es
     \<and> (\<forall>p. sel (bt_default no_counts (du_unsealed d) p) = unsealed amount es p)
     \<and> sel (du_fresh d) = bt_sum sel (du_unsealed d) \<and> sel (du_sealed d) = sealed amount es
     \<and> bt_sum sel (du_unsealed d) + sel (du_sealed d) \<le> sum_list (map (event_amount amount) es)"

lemma sel_default: "(case bt_get m p of Some old \<Rightarrow> sel old | None \<Rightarrow> 0) = sel (bt_default no_counts m p)"
  by (simp add: bt_default_def sel_none split: option.splits)

lemma keys_subset:
  "fst ` set (bt_insert k v m) = insert k (fst ` set m)" "fst ` set (bt_remove k m) \<subseteq> fst ` set m"
  using set_bt_insert [of k v m] by (auto simp: bt_remove_def)

lemma tracks_written:
  assumes t: "tracks es d" and fits: "sum_list (map (event_amount amount) (es @ [DueWritten p rows bytes])) \<le> U64_MAX"
  shows "tracks (es @ [DueWritten p rows bytes]) (due_written p rows bytes d)"
proof -
  let ?m = "du_unsealed d" and ?a = "amount rows bytes"
  have le: "sel (bt_default no_counts ?m p) \<le> bt_sum sel ?m"
    using bt_sum_get_le [of ?m p _ sel] by (auto simp: bt_default_def sel_none split: option.splits)
  have exact: "sel (counts_plus rows bytes (bt_default no_counts ?m p)) = sel (bt_default no_counts ?m p) + ?a"
    "sel (counts_plus rows bytes (du_fresh d)) = sel (du_fresh d) + ?a"
    using t fits le by (simp_all add: tracks_def sel_plus sadd_exact)
  have "bt_sum sel (bt_entry p no_counts (counts_plus rows bytes) ?m) = bt_sum sel ?m + ?a"
    using bt_sum_insert [of ?m sel p "counts_plus rows bytes (bt_default no_counts ?m p)"] t exact(1)
    by (simp add: bt_entry_def bt_default_def [symmetric] tracks_def sel_default)
  moreover have "fst ` set (bt_entry p no_counts (counts_plus rows bytes) ?m) = insert p (fst ` set ?m)"
    by (simp add: bt_entry_def keys_subset)
  ultimately show ?thesis
    using t exact fits
    by (auto simp: tracks_def due_written_def btree_simps unsealed_def sealed_def)
qed

lemma tracks_gone:
  assumes t: "tracks es d" and e: "event_amount amount e = 0" "event_partition e = {}"
      "\<And>n. sealed_after amount e n = n" "\<And>p' n. unsealed_after amount p' e n = (if p' = p then 0 else n)"
  shows "tracks (es @ [e]) (due_abandoned p d)"
proof (cases "bt_get (du_unsealed d) p")
  case None
  then have "unsealed amount es p = 0" using t sel_none by (auto simp: tracks_def bt_default_def dest: spec [of _ p])
  with None show ?thesis
    using t e by (auto simp: tracks_def due_abandoned_def unsealed_def sealed_def)
next
  case (Some c)
  then have "bt_sum sel (bt_remove p (du_unsealed d)) + sel c = bt_sum sel (du_unsealed d)"
    using bt_sum_remove [of "du_unsealed d" sel p] t by (simp add: tracks_def)
  with Some show ?thesis
    using t e subset_trans [OF keys_subset(2) [of p "du_unsealed d"], of "written_by es"]
    by (auto simp: tracks_def due_abandoned_def unsealed_def sealed_def btree_simps sel_none sel_left amount_sel)
qed

lemma tracks_sealed:
  assumes t: "tracks es d" and fits: "sum_list (map (event_amount amount) (es @ [DueSealed p rows bytes])) \<le> U64_MAX"
  shows "tracks (es @ [DueSealed p rows bytes]) (due_sealed p rows bytes d)"
proof -
  let ?m = "du_unsealed d" and ?a = "amount rows bytes"
  have s: "sel (counts_plus rows bytes (du_sealed d)) = sel (du_sealed d) + ?a"
    using t fits by (simp add: tracks_def sel_plus sadd_exact)
  show ?thesis
  proof (cases "bt_get ?m p")
    case None
    then have "unsealed amount es p = 0" using t sel_none by (auto simp: tracks_def bt_default_def dest: spec [of _ p])
    with None show ?thesis
      using t s by (auto simp: tracks_def due_sealed_def unsealed_def sealed_def)
  next
    case (Some c)
    let ?left = "fst (counts_take rows bytes c)"
    define m' where "m' = (if ?left = no_counts then bt_remove p ?m else bt_insert p ?left ?m)"
    have c: "sel c = unsealed amount es p" using t Some by (auto simp: tracks_def bt_default_def dest: spec [of _ p])
    have wf: "bt_wf ?m" "p \<in> written_by es"
      using t map_of_SomeD [OF Some] by (auto simp: tracks_def)
    have m': "bt_wf m'" "fst ` set m' \<subseteq> insert p (fst ` set ?m)"
        "sel (bt_default no_counts m' q) = (if q = p then sel c - ?a else sel (bt_default no_counts ?m q))"
        "bt_sum sel m' + sel c = bt_sum sel ?m + (sel c - ?a)" for q
      using wf(1) keys_subset(1) [of p ?left ?m] keys_subset(2) [of p ?m] Some sel_left [of rows bytes c]
        bt_sum_remove [OF wf(1), of sel p] bt_sum_insert [OF wf(1), of sel p ?left]
      by (auto simp: m'_def btree_simps sel_none)
    have sel_c: "sel c \<le> bt_sum sel ?m" using bt_sum_get_le [OF Some] .
    have d': "due_sealed p rows bytes d = d\<lparr>du_fresh := fst (counts_take (cs_rows (snd (counts_take rows bytes c)))
        (cs_bytes (snd (counts_take rows bytes c))) (du_fresh d)), du_unsealed := m', du_sealed := counts_plus rows bytes (du_sealed d)\<rparr>"
      using Some by (simp add: due_sealed_def m'_def Let_def split: prod.splits)
    have "sel (du_fresh (due_sealed p rows bytes d)) = bt_sum sel m'"
      using t sel_c m'(4) by (simp add: d' sel_left amount_sel sel_taken tracks_def)
    moreover have "bt_sum sel m' \<le> bt_sum sel ?m" using m'(4) by simp
    ultimately show ?thesis
      using t s m'(1,2,3) c wf(2)
      by (auto simp: tracks_def d' unsealed_def sealed_def)
  qed
qed

lemma tracks_committing: "tracks es d \<Longrightarrow> tracks (es @ [DueCommitting]) (due_committing d)"
  by (auto simp: tracks_def due_committing_def unsealed_def sealed_def sel_none)

lemma tracked:
  "sum_list (map (event_amount amount) es) \<le> U64_MAX \<Longrightarrow> tracks es (fold due_after es due_default)"
proof (induction es rule: rev_induct)
  case Nil
  then show ?case by (simp add: tracks_def due_default_def sel_none unsealed_def sealed_def bt_default_def)
next
  case (snoc e es)
  then have t: "tracks es (fold due_after es due_default)" by simp
  show ?case
    using snoc.prems t tracks_gone [OF t, of e]
    by (cases e) (auto intro: tracks_written tracks_sealed tracks_committing simp: due_unanswered_def)
qed

lemma due_is:
  assumes "sum_list (map (event_amount amount) es) \<le> U64_MAX"
  shows "sadd (sel (du_sealed (fold due_after es due_default))) (sel (du_fresh (fold due_after es due_default)))
    = sealed amount es + (\<Sum>p\<in>written_by es. unsealed amount es p)"
proof -
  let ?d = "fold due_after es due_default"
  have t: "tracks es ?d" using assms by (rule tracked)
  have "finite (event_partition e)" for e by (cases e) simp_all
  then have "finite (written_by es)" by (induction es rule: rev_induct) simp_all
  then have "bt_sum sel (du_unsealed ?d) = (\<Sum>p\<in>written_by es. unsealed amount es p)"
    using bt_sum_keys [of "du_unsealed ?d" "written_by es" sel] t by (simp add: tracks_def sel_default)
  then show ?thesis using t assms by (simp add: tracks_def sadd_exact)
qed

end

interpretation due_rows: due_amount "\<lambda>rows bytes. rows" cs_rows
  by unfold_locales (simp_all add: no_counts_def counts_plus_def counts_take_def Let_def)

interpretation due_bytes: due_amount "\<lambda>rows bytes. bytes" cs_bytes
  by unfold_locales (simp_all add: no_counts_def counts_plus_def counts_take_def Let_def)

text \<open>C36: The rows a commit could take are those sealed since the last commit and, of each partition,
  those it wrote and has since neither sealed, abandoned nor left unanswered at a barrier; and so for
  bytes: kept as running totals, they are what counting every event over again gives, so long as the
  amounts fit the width.\<close>

theorem due_counts_refine:
  assumes "sum_list (map (event_amount (\<lambda>rows bytes. rows)) es) \<le> U64_MAX"
    and "sum_list (map (event_amount (\<lambda>rows bytes. bytes)) es) \<le> U64_MAX"
  shows "due_rows (fold due_after es due_default)
      = sealed (\<lambda>rows bytes. rows) es + (\<Sum>p\<in>written_by es. unsealed (\<lambda>rows bytes. rows) es p)
    \<and> due_bytes (fold due_after es due_default)
      = sealed (\<lambda>rows bytes. bytes) es + (\<Sum>p\<in>written_by es. unsealed (\<lambda>rows bytes. bytes) es p)"
  using due_rows.due_is [OF assms(1)] due_bytes.due_is [OF assms(2)] by (simp add: due_rows_def due_bytes_def)

theorem due_counts_refine_witness:
  "(let es = [DueWritten 0 5 50, DueWritten 1 2 20, DueSealed 0 5 50, DueCommitting, DueWritten 0 3 30, DueUnanswered 1]
    in sum_list (map (event_amount (\<lambda>rows bytes. rows)) es) \<le> U64_MAX
       \<and> sum_list (map (event_amount (\<lambda>rows bytes. bytes)) es) \<le> U64_MAX
       \<and> due_rows (fold due_after es due_default) = 3 \<and> due_bytes (fold due_after es due_default) = 30)"
proof -
  let ?es = "[DueWritten 0 5 50, DueWritten 1 2 20, DueSealed 0 5 50, DueCommitting, DueWritten 0 3 30, DueUnanswered 1]"
  have fits: "sum_list (map (event_amount (\<lambda>rows bytes. rows)) ?es) \<le> U64_MAX"
    "sum_list (map (event_amount (\<lambda>rows bytes. bytes)) ?es) \<le> U64_MAX"
    by (simp_all add: U64_MAX_def)
  have "written_by ?es = {0, 1}" by (auto simp: written_by_def)
  then show ?thesis
    unfolding Let_def using fits due_counts_refine [OF fits] by (simp add: sealed_def unsealed_def)
qed

subsection \<open>The policy\<close>

record commit_policy =
  cp_every :: "nat option"
  cp_rows :: "nat option"
  cp_bytes :: "nat option"

datatype policy_error = NoThreshold | ZeroEvery | ZeroRows | ZeroBytes

definition nonzero :: "policy_error \<Rightarrow> nat option \<Rightarrow> policy_error + nat option" where
  "nonzero e v = (case v of Some 0 \<Rightarrow> Inl e | _ \<Rightarrow> Inr v)"

text \<open>Durations are numbers of nanoseconds.\<close>

definition commit_policy_new :: "nat option \<Rightarrow> nat option \<Rightarrow> nat option \<Rightarrow> policy_error + commit_policy" where
  "commit_policy_new every rows bytes =
     (if every = None \<and> rows = None \<and> bytes = None then Inl NoThreshold
      else if every = Some 0 then Inl ZeroEvery
      else rbind (nonzero ZeroRows rows) (\<lambda>rows.
           rbind (nonzero ZeroBytes bytes) (\<lambda>bytes.
             Inr \<lparr>cp_every = every, cp_rows = rows, cp_bytes = bytes\<rparr>)))"

definition is_due :: "commit_policy \<Rightarrow> nat \<Rightarrow> nat \<Rightarrow> bool" where
  "is_due p rows bytes \<longleftrightarrow>
     (case cp_rows p of Some limit \<Rightarrow> rows \<ge> limit | None \<Rightarrow> False)
     \<or> (case cp_bytes p of Some limit \<Rightarrow> bytes \<ge> limit | None \<Rightarrow> False)"

definition policy_default :: commit_policy where
  "policy_default = \<lparr>cp_every = Some (60 * 10 ^ 9), cp_rows = None, cp_bytes = Some (2 ^ 30)\<rparr>"

definition policy_streaming :: commit_policy where
  "policy_streaming = policy_default\<lparr>cp_every := Some (10 * 10 ^ 9)\<rparr>"

datatype trigger = TriggerInterval | TriggerSize | TriggerCursors | TriggerEnd

text \<open>What makes a commit due, where something does, of what is due, the bytes of the cursors
  waiting and their share of the budget.\<close>

definition commit_due :: "commit_policy \<Rightarrow> due \<Rightarrow> waiting_seals \<Rightarrow> nat \<Rightarrow> trigger option" where
  "commit_due policy d w share =
     (if is_due policy (due_rows d) (due_bytes d) then Some TriggerSize
      else if ws_cursor_bytes w \<ge> max (share div 2) 1 then Some TriggerCursors
      else None)"

text \<open>Nothing sealed or written makes no commit due: a policy has no threshold of zero.\<close>

lemma nothing_not_due:
  "commit_policy_new every rows bytes = Inr p \<Longrightarrow> commit_due p due_default waiting_seals_default share = None"
  by (auto simp: commit_policy_new_def nonzero_def commit_due_def is_due_def due_rows_def due_bytes_def due_default_def
      no_counts_def waiting_seals_default_def split: if_splits option.splits nat.splits)

end
