(* ===== verification/Acks.thy ===== *)
theory Acks
  imports Waiting
begin

text \<open>
  Acknowledging committed positions to the source (\<open>crates/rdlt-engine/src/coordinator/acks.rs\<close>): the
  cursors of a commit that landed are owed to their streams' sources until a report carries them; a
  report that fails leaves them owed to the next, and the attempt ends, or a partition recorded done
  is given up, once its reports are spent. What the source answers is a parameter. Every cursor owed
  is shown to be told, still owed, or given up for one of the reasons the code names.
\<close>

subsection \<open>Cursors owed\<close>

datatype turn = Within | LastTurn

record owing =
  ow_cursor :: cursor
  ow_done :: bool
  ow_failures :: nat

type_synonym owed_stream = "(partition_id, owing) btree"
type_synonym owed = "(nat, owed_stream) btree"

definition owe :: "nat \<Rightarrow> partition_id \<Rightarrow> cursor \<Rightarrow> partition_state \<Rightarrow> owed \<Rightarrow> owed" where
  "owe stream p c state =
     bt_entry stream []
       (\<lambda>ps. bt_insert p
          \<lparr>ow_cursor = c, ow_done = (state = Done),
           ow_failures = (case bt_get ps p of None \<Rightarrow> 0 | Some o' \<Rightarrow> ow_failures o')\<rparr> ps)"

record failed_report =
  fl_owed :: owed_stream
  fl_dropped :: nat
  fl_ends :: bool

definition spent :: "turn \<Rightarrow> nat \<Rightarrow> owing \<Rightarrow> bool" where
  "spent turn attempts o' \<longleftrightarrow> turn = LastTurn \<or> ow_failures o' \<ge> attempts"

text \<open>A report that failed: each cursor it carried has failed once more, and is kept owed or, of a
  partition recorded done, given up.\<close>

definition again :: "owing \<Rightarrow> owing" where
  "again o' = o'\<lparr>ow_failures := min 4294967295 (ow_failures o' + 1)\<rparr>"

definition given_up :: "turn \<Rightarrow> nat \<Rightarrow> bool \<Rightarrow> owing \<Rightarrow> bool" where
  "given_up turn attempts unsent o' \<longleftrightarrow> ow_done o' \<and> (spent turn attempts (again o') \<or> unsent)"

definition report_failed :: "owed_stream \<Rightarrow> bool \<Rightarrow> turn \<Rightarrow> nat \<Rightarrow> failed_report" where
  "report_failed owed unsent turn attempts =
     \<lparr>fl_owed = map (\<lambda>(p, o'). (p, again o')) (filter (\<lambda>(_, o'). \<not> given_up turn attempts unsent o') owed),
      fl_dropped = length (filter (\<lambda>(_, o'). given_up turn attempts unsent o') owed),
      fl_ends = list_ex (\<lambda>(_, o'). spent turn attempts (again o') \<and> \<not> ow_done o') owed\<rparr>"

subsection \<open>Reports\<close>

text \<open>What a source answers a report: it took it, or refused it, for cursors it never sent or for
  another reason; or the attempt is cancelled while the report is made.\<close>

datatype ack_answer = Told | Refused bool | AckCancelled

datatype ack_end = EndCancelled | EndStream nat

record acks =
  ak_failed :: nat
  ak_dropped :: nat

record acking =
  ag_acks :: acks
  ag_end :: "ack_end option"
  ag_owed :: owed

type_synonym source_answer = "nat \<Rightarrow> (partition_id \<times> cursor) list \<Rightarrow> ack_answer"

definition carried :: "owed_stream \<Rightarrow> (partition_id \<times> cursor) list" where
  "carried ps = map (\<lambda>(p, o'). (p, ow_cursor o')) ps"

fun report_streams_owed :: "source_answer \<Rightarrow> turn \<Rightarrow> nat \<Rightarrow> owed \<Rightarrow> acking \<Rightarrow> acking" where
  "report_streams_owed told turn attempts [] a = a"
| "report_streams_owed told turn attempts ((stream, ps) # rest) a =
     (case told stream (carried ps) of
        AckCancelled \<Rightarrow> a\<lparr>ag_end := Some EndCancelled\<rparr>
      | Told \<Rightarrow> report_streams_owed told turn attempts rest a
      | Refused unsent \<Rightarrow>
          let f = report_failed ps unsent turn attempts
          in report_streams_owed told turn attempts rest
               \<lparr>ag_acks = \<lparr>ak_failed = sadd (ak_failed (ag_acks a)) 1,
                           ak_dropped = sadd (ak_dropped (ag_acks a)) (fl_dropped f)\<rparr>,
                ag_end = (if fl_ends f \<and> ag_end a = None then Some (EndStream stream) else ag_end a),
                ag_owed = (if fl_owed f \<noteq> [] then bt_insert stream (fl_owed f) (ag_owed a) else ag_owed a)\<rparr>)"

text \<open>The cursors a commit reports are owed first: each partition, with its stream and its id, at the
  position the commit records, without which the code panics.\<close>

fun owe_reported :: "(nat \<Rightarrow> nat \<times> partition_id) \<Rightarrow> (nat, partition_state) btree \<Rightarrow> (nat \<times> cursor) list \<Rightarrow> owed
    \<Rightarrow> owed option" where
  "owe_reported place positions [] owed = Some owed"
| "owe_reported place positions ((p, c) # rest) owed =
     (case bt_get positions p of
        None \<Rightarrow> None
      | Some state \<Rightarrow> owe_reported place positions rest (owe (fst (place p)) (snd (place p)) c state owed))"

definition acknowledge :: "source_answer \<Rightarrow> turn \<Rightarrow> nat \<Rightarrow> owed \<Rightarrow> acking" where
  "acknowledge told turn attempts owed =
     report_streams_owed told turn attempts owed
       \<lparr>ag_acks = \<lparr>ak_failed = 0, ak_dropped = 0\<rparr>, ag_end = None, ag_owed = []\<rparr>"

subsection \<open>What becomes of an owed cursor\<close>

definition owed_to :: "owed \<Rightarrow> nat \<Rightarrow> partition_id \<Rightarrow> owing option" where
  "owed_to m stream p = (case bt_get m stream of None \<Rightarrow> None | Some ps \<Rightarrow> bt_get ps p)"

definition owed_wf :: "owed \<Rightarrow> bool" where
  "owed_wf m \<longleftrightarrow> bt_wf m \<and> (\<forall>(_, ps)\<in>set m. bt_wf ps)"

text \<open>What a report leaves of a stream's owed cursor.\<close>

definition tired :: "turn \<Rightarrow> nat \<Rightarrow> owing \<Rightarrow> bool" where
  "tired turn attempts o' \<longleftrightarrow> turn = LastTurn \<or> attempts \<le> min 4294967295 (ow_failures o' + 1)"

definition left_owed :: "source_answer \<Rightarrow> turn \<Rightarrow> nat \<Rightarrow> nat \<Rightarrow> owed_stream \<Rightarrow> owing \<Rightarrow> owing option" where
  "left_owed told turn attempts stream ps o' =
     (case told stream (carried ps) of
        Refused unsent \<Rightarrow>
          if ow_done o' \<and> (tired turn attempts o' \<or> unsent) then None
          else Some (o'\<lparr>ow_failures := min 4294967295 (ow_failures o' + 1)\<rparr>)
      | _ \<Rightarrow> None)"

lemma given_up_tired: "given_up turn attempts unsent o' \<longleftrightarrow> ow_done o' \<and> (tired turn attempts o' \<or> unsent)"
  by (simp add: given_up_def spent_def again_def tired_def)

lemma spent_tired: "spent turn attempts (again o') \<longleftrightarrow> tired turn attempts o'"
  by (simp add: spent_def again_def tired_def)

lemma report_failed_get:
  assumes "bt_wf ps"
  shows "bt_get (fl_owed (report_failed ps unsent turn attempts)) p =
     (case bt_get ps p of None \<Rightarrow> None | Some o' \<Rightarrow> if given_up turn attempts unsent o' then None else Some (again o'))"
  using assms
proof (induction ps arbitrary: p)
  case (Cons x ps)
  obtain k o' where x: "x = (k, o')" by (cases x)
  have none: "bt_get ps k = None" and wf: "bt_wf ps" using Cons.prems x bt_wf_get_Cons [of k o' ps] by (simp_all add: bt_wf_Cons)
  then have "bt_get (fl_owed (report_failed ps unsent turn attempts)) k = None" using Cons.IH by simp
  then show ?case using Cons.IH wf none x by (auto simp: report_failed_def)
qed (simp add: report_failed_def)

lemma owed_to_insert: "owed_to (bt_insert s ps m) stream p = (if stream = s then bt_get ps p else owed_to m stream p)"
  by (simp add: owed_to_def btree_simps)

text \<open>A report that is not cancelled leaves of each stream what its source's answer leaves, and nothing
  of the other streams.\<close>

definition uncancelled :: "source_answer \<Rightarrow> owed \<Rightarrow> bool" where
  "uncancelled told m \<longleftrightarrow> (\<forall>(stream, ps)\<in>set m. told stream (carried ps) \<noteq> AckCancelled)"

definition dropped_of :: "source_answer \<Rightarrow> turn \<Rightarrow> nat \<Rightarrow> nat \<times> owed_stream \<Rightarrow> nat" where
  "dropped_of told turn attempts = (\<lambda>(stream, ps).
     case told stream (carried ps) of
       Refused unsent \<Rightarrow> length (filter (\<lambda>(_, o'). ow_done o' \<and> (tired turn attempts o' \<or> unsent)) ps)
     | _ \<Rightarrow> 0)"

definition ends_at :: "source_answer \<Rightarrow> turn \<Rightarrow> nat \<Rightarrow> nat \<times> owed_stream \<Rightarrow> bool" where
  "ends_at told turn attempts = (\<lambda>(stream, ps).
     (\<exists>unsent. told stream (carried ps) = Refused unsent)
     \<and> (\<exists>(p, o')\<in>set ps. tired turn attempts o' \<and> \<not> ow_done o'))"

lemma report_streams_owed_to:
  "uncancelled told m \<Longrightarrow> owed_wf m \<Longrightarrow> \<forall>p. bt_get m stream \<noteq> None \<longrightarrow> owed_to (ag_owed a) stream p = None \<Longrightarrow>
   owed_to (ag_owed (report_streams_owed told turn attempts m a)) stream p =
     (case bt_get m stream of
        None \<Rightarrow> owed_to (ag_owed a) stream p
      | Some ps \<Rightarrow> (case bt_get ps p of None \<Rightarrow> None | Some o' \<Rightarrow> left_owed told turn attempts stream ps o'))"
proof (induction m arbitrary: a)
  case (Cons x m)
  obtain s ps where x: "x = (s, ps)" by (cases x)
  have wf: "owed_wf m" "bt_get m s = None" "bt_wf ps"
    using Cons.prems(2) x bt_wf_get_Cons [of s ps m] by (simp_all add: owed_wf_def bt_wf_Cons)
  have rest: "uncancelled told m" "told s (carried ps) \<noteq> AckCancelled"
    using Cons.prems(1) x by (auto simp: uncancelled_def)
  have get: "bt_get (x # m) stream = (if stream = s then Some ps else bt_get m stream)" using x by simp
  show ?case
  proof (cases "told s (carried ps)")
    case Told
    then have "report_streams_owed told turn attempts (x # m) a = report_streams_owed told turn attempts m a" using x by simp
    moreover have "owed_to (ag_owed a) stream p = None" if "stream = s" using Cons.prems(3) that x by simp
    ultimately show ?thesis
      using Cons.IH [OF rest(1) wf(1)] Cons.prems(3) get wf(2) Told
      by (cases "stream = s") (auto simp: left_owed_def split: option.splits)
  next
    case (Refused unsent)
    define f where "f = report_failed ps unsent turn attempts"
    define a' where "a' = \<lparr>ag_acks = \<lparr>ak_failed = sadd (ak_failed (ag_acks a)) 1,
                           ak_dropped = sadd (ak_dropped (ag_acks a)) (fl_dropped f)\<rparr>,
                ag_end = (if fl_ends f \<and> ag_end a = None then Some (EndStream s) else ag_end a),
                ag_owed = (if fl_owed f \<noteq> [] then bt_insert s (fl_owed f) (ag_owed a) else ag_owed a)\<rparr>"
    have step: "report_streams_owed told turn attempts (x # m) a = report_streams_owed told turn attempts m a'"
      using Refused x by (simp add: a'_def f_def Let_def)
    have owed': "owed_to (ag_owed a') q p' = (if q = s \<and> fl_owed f \<noteq> [] then bt_get (fl_owed f) p' else owed_to (ag_owed a) q p')" for q p'
      by (simp add: a'_def owed_to_insert)
    have mine: "bt_get (fl_owed f) p = (case bt_get ps p of None \<Rightarrow> None | Some o' \<Rightarrow> left_owed told turn attempts s ps o')"
      using report_failed_get [OF wf(3), of unsent turn attempts p] Refused
      by (cases "bt_get ps p") (simp_all add: f_def left_owed_def given_up_tired again_def)
    show ?thesis
    proof (cases "stream = s")
      case True
      moreover from this have "owed_to (ag_owed a) s p = None" using Cons.prems(3) x by simp
      ultimately show ?thesis
        using step Cons.IH [OF rest(1) wf(1), of a'] wf(2) get owed' [of s p] mine by auto
    next
      case False
      then show ?thesis
        using step Cons.IH [OF rest(1) wf(1), of a'] Cons.prems(3) get owed' [of stream]
        by (auto cong: option.case_cong)
    qed
  next
    case AckCancelled
    then show ?thesis using rest(2) by simp
  qed
qed simp

lemma report_streams_counts:
  "uncancelled told m \<Longrightarrow> ak_dropped (ag_acks a) \<le> U64_MAX \<Longrightarrow>
   ak_dropped (ag_acks (report_streams_owed told turn attempts m a))
     = min U64_MAX (ak_dropped (ag_acks a) + sum_list (map (dropped_of told turn attempts) m))"
proof (induction m arbitrary: a)
  case (Cons x m)
  obtain s ps where x: "x = (s, ps)" by (cases x)
  show ?case
    using Cons x by (cases "told s (carried ps)")
      (auto simp: uncancelled_def dropped_of_def Let_def report_failed_def sadd_def given_up_tired)
qed simp

lemma report_streams_ends:
  "uncancelled told m \<Longrightarrow>
   ag_end (report_streams_owed told turn attempts m a) = None \<longleftrightarrow> ag_end a = None \<and> (\<forall>x\<in>set m. \<not> ends_at told turn attempts x)"
proof (induction m arbitrary: a)
  case (Cons x m)
  obtain s ps where x: "x = (s, ps)" by (cases x)
  have ends: "fl_ends (report_failed ps unsent turn attempts) \<longleftrightarrow> (\<exists>(p, o')\<in>set ps. tired turn attempts o' \<and> \<not> ow_done o')" for unsent
    by (auto simp: report_failed_def list_ex_iff spent_tired)
  show ?case
    using Cons x by (cases "told s (carried ps)") (auto simp: uncancelled_def ends_at_def Let_def ends)
qed simp

text \<open>C37: A report that is not cancelled leaves of a cursor owed to a source nothing where the source
  took it; where it refused it, the cursor is owed on with one more failure, unless its partition is
  recorded done and its reports are spent or the source never sent it, when it is given up and
  counted. No cursor is owed that was not. The attempt goes on exactly where no source refused a
  partition at a cursor whose reports are spent.\<close>

theorem owed_until_told:
  assumes "owed_wf m" and "uncancelled told m"
  shows "(\<forall>stream p. owed_to (ag_owed (acknowledge told turn attempts m)) stream p =
       (case bt_get m stream of
          None \<Rightarrow> None
        | Some ps \<Rightarrow> (case bt_get ps p of None \<Rightarrow> None | Some o' \<Rightarrow> left_owed told turn attempts stream ps o')))
     \<and> ak_dropped (ag_acks (acknowledge told turn attempts m))
         = min U64_MAX (sum_list (map (dropped_of told turn attempts) m))
     \<and> (ag_end (acknowledge told turn attempts m) = None \<longleftrightarrow> (\<forall>x\<in>set m. \<not> ends_at told turn attempts x))"
proof -
  have none: "owed_to [] stream p = None" for stream p by (simp add: owed_to_def)
  show ?thesis
    unfolding acknowledge_def
    using report_streams_owed_to [OF assms(2,1)] report_streams_counts [OF assms(2)] report_streams_ends [OF assms(2)]
    by (simp add: none cong: option.case_cong)
qed

text \<open>A source that takes the first stream's report and refuses the second's: its partition at a cursor
  is owed on, its done one is given up once three reports failed.\<close>

theorem owed_until_told_witness:
  "(let c = \<lparr>cur_version = 1, cur_bytes = ''x''\<rparr>;
        m = [(0, [(''a'', \<lparr>ow_cursor = c, ow_done = False, ow_failures = 0\<rparr>)]),
             (1, [(''b'', \<lparr>ow_cursor = c, ow_done = False, ow_failures = 0\<rparr>), (''d'', \<lparr>ow_cursor = c, ow_done = True, ow_failures = 2\<rparr>)])];
        told = (\<lambda>stream _. if stream = 0 then Told else Refused False);
        r = acknowledge told Within 3 m
    in owed_wf m \<and> uncancelled told m \<and> owed_to (ag_owed r) 0 ''a'' = None
       \<and> owed_to (ag_owed r) 1 ''b'' = Some \<lparr>ow_cursor = c, ow_done = False, ow_failures = 1\<rparr>
       \<and> owed_to (ag_owed r) 1 ''d'' = None \<and> ak_dropped (ag_acks r) = 1 \<and> ag_end r = None)"
proof -
  let ?c = "\<lparr>cur_version = 1, cur_bytes = ''x''\<rparr>" and ?told = "\<lambda>stream _. if stream = 0 then Told else Refused False"
  let ?m = "[(0 :: nat, [(''a'', \<lparr>ow_cursor = ?c, ow_done = False, ow_failures = 0\<rparr>)]),
     (1, [(''b'', \<lparr>ow_cursor = ?c, ow_done = False, ow_failures = 0\<rparr>), (''d'', \<lparr>ow_cursor = ?c, ow_done = True, ow_failures = 2\<rparr>)])]"
  have wf: "owed_wf ?m" "uncancelled ?told ?m" by (simp_all add: owed_wf_def bt_wf_def uncancelled_def)
  show ?thesis
    unfolding Let_def using wf owed_until_told [OF wf, of Within 3]
    by (simp add: left_owed_def tired_def dropped_of_def ends_at_def U64_MAX_def)
qed

end
