(* ===== verification/Markers.thy ===== *)
theory Markers
  imports Acks
begin

text \<open>
  The partitions a destination holds done, followed through the commits that change them
  (\<open>crates/rdlt-engine/src/coordinator/done.rs\<close>): kept from each commit's changes without decoding the
  positions the session itself recorded, they are shown to be what the whole state, rebuilt, holds.
\<close>

subsection \<open>Done markers\<close>

type_synonym done_markers = "(stream_name \<times> partition_id, epoch) btree"

record recorded =
  re_epoch :: epoch
  re_states :: "(stream_name \<times> partition_id, partition_state) btree"

definition done_listed :: "done_markers \<Rightarrow> (epoch \<times> stream_name \<times> partition_id) list" where
  "done_listed d = sort (map (\<lambda>((stream, p), epoch). (epoch, stream, p)) d)"

definition done_put :: "json \<Rightarrow> recorded \<Rightarrow> state_record \<Rightarrow> done_markers \<Rightarrow> done_markers" where
  "done_put js rd r d =
     (case state_key_parse js (rec_key r) of
        Inr (PartitionKey stream p) \<Rightarrow>
          (case (case bt_get (re_states rd) (stream, p) of
                   Some state \<Rightarrow> Some (if state = Done then Some (re_epoch rd) else None)
                 | None \<Rightarrow>
                     (case from_record js r of
                        Inr (PartitionEntry _ _ state epoch) \<Rightarrow> Some (if state = Done then Some epoch else None)
                      | _ \<Rightarrow> None)) of
             None \<Rightarrow> d
           | Some (Some epoch) \<Rightarrow> bt_insert (stream, p) epoch d
           | Some None \<Rightarrow> bt_remove (stream, p) d)
      | _ \<Rightarrow> d)"

definition done_change :: "json \<Rightarrow> recorded \<Rightarrow> state_change \<Rightarrow> done_markers \<Rightarrow> done_markers" where
  "done_change js rd change d =
     (case change of
        Put r \<Rightarrow> done_put js rd r d
      | Delete key \<Rightarrow>
          (case state_key_parse js key of
             Inr (PartitionKey stream p) \<Rightarrow> bt_remove (stream, p) d
           | _ \<Rightarrow> d))"

definition done_landed :: "json \<Rightarrow> recorded \<Rightarrow> state_change list \<Rightarrow> done_markers \<Rightarrow> done_markers" where
  "done_landed js rd delta d = fold (done_change js rd) delta d"

definition done_partition :: "(stream_name \<times> partition_id, epoch) btree \<Rightarrow> stream_name
    \<Rightarrow> partition_id \<times> partition_state \<Rightarrow> done_markers \<Rightarrow> done_markers" where
  "done_partition recorded_by stream = (\<lambda>(p, position) d.
     case bt_get recorded_by (stream, p) of
       Some epoch \<Rightarrow> if position = Done then bt_insert (stream, p) epoch d else d
     | None \<Rightarrow> d)"

definition done_stream :: "(stream_name \<times> partition_id, epoch) btree \<Rightarrow> stream_name \<times> stream_state
    \<Rightarrow> done_markers \<Rightarrow> done_markers" where
  "done_stream recorded_by = (\<lambda>(stream, streamed). fold (done_partition recorded_by stream) (ss_partitions streamed))"

definition done_from :: "pipeline_state \<Rightarrow> done_markers" where
  "done_from s = fold (done_stream (ps_recorded_by s)) (ps_streams s) []"

subsection \<open>The state they come from\<close>

definition pipeline_wf :: "pipeline_state \<Rightarrow> bool" where
  "pipeline_wf s \<longleftrightarrow> bt_wf (ps_streams s) \<and> (\<forall>(_, x)\<in>set (ps_streams s). bt_wf (ss_partitions x)) \<and> bt_wf (ps_recorded_by s)"

text \<open>The marker a partition's part of the state amounts to.\<close>

fun part_done :: "part \<Rightarrow> epoch option" where
  "part_done (PartitionPart (Some Done) e) = e"
| "part_done _ = None"

lemma fold_done_partitions:
  assumes "bt_wf ps"
  shows "bt_get (fold (done_partition rb stream) ps d) (stream', p') =
     (if stream' = stream \<and> bt_get ps p' = Some Done \<and> bt_get rb (stream, p') \<noteq> None then bt_get rb (stream, p')
      else bt_get d (stream', p'))"
  using assms
proof (induction ps arbitrary: d)
  case (Cons x ps)
  obtain p position where x: "x = (p, position)" by (cases x)
  have "bt_wf ps" "bt_get ps p = None" using Cons.prems x bt_wf_get_Cons [of p position ps] by (simp_all add: bt_wf_Cons)
  then show ?case
    using Cons.IH x by (cases "bt_get rb (stream, p)"; cases "p' = p") (auto simp: btree_simps done_partition_def)
qed simp

lemma done_stream_wf: "bt_wf d \<Longrightarrow> bt_wf (done_stream rb x d)"
proof -
  have "bt_wf d \<Longrightarrow> bt_wf (fold (done_partition rb stream) ps d)" for stream ps
    by (induction ps arbitrary: d) (auto simp: done_partition_def split: option.splits)
  then show "bt_wf d \<Longrightarrow> bt_wf (done_stream rb x d)" by (simp add: done_stream_def split: prod.splits)
qed

lemma done_from_streams:
  assumes "bt_wf ss" and "\<forall>(_, x)\<in>set ss. bt_wf (ss_partitions x)"
  shows "bt_get (fold (done_stream rb) ss d) (stream', p') =
     (case bt_get ss stream' of
        Some x \<Rightarrow> if bt_get (ss_partitions x) p' = Some Done \<and> bt_get rb (stream', p') \<noteq> None
                  then bt_get rb (stream', p') else bt_get d (stream', p')
      | None \<Rightarrow> bt_get d (stream', p'))"
  using assms
proof (induction ss arbitrary: d)
  case (Cons y ss)
  obtain stream x where y: "y = (stream, x)" by (cases y)
  have wf: "bt_wf ss" "bt_get ss stream = None" "bt_wf (ss_partitions x)"
    using Cons.prems y bt_wf_get_Cons [of stream x ss] by (simp_all add: bt_wf_Cons)
  then show ?case
    using Cons.IH [OF wf(1)] Cons.prems(2) y fold_done_partitions [OF wf(3), of rb stream]
    by (cases "stream' = stream") (auto simp: done_stream_def split: option.splits)
qed simp

lemma done_from_wf: "bt_wf (done_from s)"
proof -
  have "bt_wf d \<Longrightarrow> bt_wf (fold (done_stream rb) ss d)" for rb ss d
    by (induction ss arbitrary: d) (simp_all add: done_stream_wf)
  then show ?thesis by (simp add: done_from_def)
qed

lemma done_from_part:
  assumes "pipeline_wf s"
  shows "bt_get (done_from s) (stream, p) = part_done (state_part s (PartitionKey stream p))"
proof -
  have "part_done (PartitionPart q e) = (if q = Some Done then e else None)" for q e
    by (cases q; cases "the q") auto
  then show ?thesis
    using assms done_from_streams [of "ps_streams s" "ps_recorded_by s" "[]" stream p]
    by (auto simp: done_from_def pipeline_wf_def bt_default_def stream_default_def split: option.splits)
qed

lemma pipeline_wf_put: "pipeline_wf s \<Longrightarrow> pipeline_wf (state_put e s)"
  by (cases e) (auto simp: pipeline_wf_def bt_entry_def stream_default_def bt_wf_def [of "[_]"] dest!: set_bt_insert_entry map_of_SomeD split: option.splits)

lemma pipeline_wf_delete: "pipeline_wf s \<Longrightarrow> pipeline_wf (state_delete k s)"
  by (cases k) (auto simp: pipeline_wf_def bt_modify_def dest!: set_bt_insert_entry map_of_SomeD split: option.splits)

subsection \<open>The markers follow the state\<close>

text \<open>What landing relies on: a record of a partition the session recorded holds the state it recorded
  it at, under the session's epoch.\<close>

definition agrees :: "json \<Rightarrow> recorded \<Rightarrow> state_change \<Rightarrow> bool" where
  "agrees js rd change \<longleftrightarrow>
     (case change of
        Put r \<Rightarrow>
          (case state_key_parse js (rec_key r) of
             Inr (PartitionKey stream p) \<Rightarrow>
               (case bt_get (re_states rd) (stream, p) of
                  Some state \<Rightarrow> from_record js r = Inr (PartitionEntry stream p state (re_epoch rd))
                | None \<Rightarrow> True)
           | _ \<Rightarrow> True)
      | Delete _ \<Rightarrow> True)"

lemma from_record_parse: "from_record js r = Inr e \<Longrightarrow> state_key_parse js (rec_key r) = Inr (entry_key e)"
  by (cases "state_key_parse js (rec_key r)") (auto simp: from_record_def split: option.splits reading.splits if_splits)

lemma done_put_partition:
  assumes "from_record js r = Inr (PartitionEntry stream p state epoch)" and "agrees js rd (Put r)"
  shows "done_put js rd r d = (if state = Done then bt_insert (stream, p) epoch d else bt_remove (stream, p) d)"
  using assms from_record_parse [OF assms(1)] by (cases "bt_get (re_states rd) (stream, p)") (auto simp: done_put_def agrees_def)

lemma done_put_other:
  assumes "from_record js r = Inr e" and "\<forall>stream p. entry_key e \<noteq> PartitionKey stream p"
  shows "done_put js rd r d = d"
  using assms(2) from_record_parse [OF assms(1)] by (cases "entry_key e") (simp_all add: done_put_def)

lemma part_done_entry: "part_done (PartitionPart (Some state) (Some epoch)) = (if state = Done then Some epoch else None)"
  by (cases state) simp_all

lemma done_change_follows:
  assumes s: "pipeline_wf s" and app: "state_apply js s c = Inr s'" and ok: "agrees js rd c"
    and d: "\<And>stream p. bt_get d (stream, p) = part_done (state_part s (PartitionKey stream p))"
  shows "bt_get (done_change js rd c d) (stream, p) = part_done (state_part s' (PartitionKey stream p))" and "pipeline_wf s'"
proof -
  show "pipeline_wf s'"
    using app s by (cases c) (auto simp: state_apply_def pipeline_wf_put pipeline_wf_delete)
  show "bt_get (done_change js rd c d) (stream, p) = part_done (state_part s' (PartitionKey stream p))"
  proof (cases c)
    case (Put r)
    then obtain e where e: "from_record js r = Inr e" "s' = state_put e s" using app by (auto simp: state_apply_def)
    have same: "state_part s' (PartitionKey stream p) =
        (if PartitionKey stream p = entry_key e then entry_part e else state_part s (PartitionKey stream p))"
      unfolding e(2) by (rule ps.part_put)
    show ?thesis
    proof (cases "\<exists>a b. entry_key e = PartitionKey a b")
      case True
      then obtain a b st ep where ent: "e = PartitionEntry a b st ep" by (cases e) auto
      have "done_change js rd c d = (if st = Done then bt_insert (a, b) ep d else bt_remove (a, b) d)"
        using done_put_partition [of js r a b st ep rd d] e(1) ent ok Put by (simp add: done_change_def)
      then show ?thesis using same ent d by (auto simp: btree_simps part_done_entry)
    next
      case False
      then have "done_put js rd r d = d" using done_put_other e(1) by blast
      moreover have "PartitionKey stream p \<noteq> entry_key e" using False by metis
      ultimately show ?thesis using same d Put by (simp add: done_change_def del: state_part.simps)
    qed
  next
    case (Delete key)
    then obtain k where k: "state_key_parse js key = Inr k" "s' = state_delete k s" using app by (auto simp: state_apply_def)
    have same: "state_part s' (PartitionKey stream p) =
        (if PartitionKey stream p = k then default_part (PartitionKey stream p) else state_part s (PartitionKey stream p))"
      unfolding k(2) by (rule ps.part_del)
    have none: "part_done (default_part (PartitionKey stream p)) = None"
      by (simp add: default_part_def pipeline_default_def bt_default_def stream_default_def)
    show ?thesis
      using Delete k(1) same none d by (cases k) (auto simp: done_change_def btree_simps)
  qed
qed

lemma done_landed_follows:
  "pipeline_wf s \<Longrightarrow> state_apply_all js s delta = Inr s' \<Longrightarrow> \<forall>c\<in>set delta. agrees js rd c \<Longrightarrow>
   (\<And>stream p. bt_get d (stream, p) = part_done (state_part s (PartitionKey stream p))) \<Longrightarrow>
   (\<forall>stream p. bt_get (done_landed js rd delta d) (stream, p) = part_done (state_part s' (PartitionKey stream p))) \<and> pipeline_wf s'"
proof (induction delta arbitrary: s d)
  case Nil
  then show ?case by (simp add: done_landed_def)
next
  case (Cons c delta)
  then obtain s1 where s1: "state_apply js s c = Inr s1" "state_apply_all js s1 delta = Inr s'" by auto
  have ok: "agrees js rd c" "\<forall>c\<in>set delta. agrees js rd c" using Cons.prems(3) by simp_all
  note step = done_change_follows [OF Cons.prems(1) s1(1) ok(1) Cons.prems(4)]
  show ?case
    using Cons.IH [OF step(2) s1(2) ok(2) step(1)] by (simp add: done_landed_def)
qed

lemma done_landed_wf: "bt_wf d \<Longrightarrow> bt_wf (done_landed js rd delta d)"
proof -
  have "bt_wf d \<Longrightarrow> bt_wf (done_change js rd c d)" for c d
    by (auto simp: done_change_def done_put_def split: state_change.splits sum.splits state_key.splits option.splits)
  then show "bt_wf d \<Longrightarrow> bt_wf (done_landed js rd delta d)"
    by (induction delta arbitrary: d) (simp_all add: done_landed_def)
qed

text \<open>C38: Following a commit's changes gives the done markers the changed state holds: the partitions
  recorded done, each with the epoch of the session that recorded it so.\<close>

theorem done_markers_follow:
  assumes "pipeline_wf s" and "state_apply_all js s delta = Inr s'" and "\<forall>c\<in>set delta. agrees js rd c"
  shows "done_landed js rd delta (done_from s) = done_from s'"
proof (rule bt_ext)
  show "bt_wf (done_landed js rd delta (done_from s))" by (rule done_landed_wf [OF done_from_wf])
  show "bt_wf (done_from s')" by (rule done_from_wf)
  fix k :: "stream_name \<times> partition_id"
  show "bt_get (done_landed js rd delta (done_from s)) k = bt_get (done_from s') k"
    using done_landed_follows [OF assms done_from_part [OF assms(1)]] done_from_part by (cases k) auto
qed

text \<open>Texts whose values are those of one partition's marker.\<close>

definition marker_json :: json where
  "marker_json = plain_json\<lparr>
     js_value := (\<lambda>_ e. case e of PartitionEntry _ _ _ n \<Rightarrow> replicate n CHR ''i'' | _ \<Rightarrow> ''x''),
     js_read_value := (\<lambda>v. Some (ReadEntry (PartitionEntry (None, ''s'') ''p'' Done (length v))))\<rparr>"

theorem done_markers_follow_witness:
  "\<exists>s'. pipeline_wf pipeline_default
     \<and> state_apply_all marker_json pipeline_default [Put (to_record marker_json (PartitionEntry (None, ''s'') ''p'' Done 3))] = Inr s'
     \<and> done_landed marker_json \<lparr>re_epoch = 3, re_states = [(((None, ''s''), ''p''), Done)]\<rparr>
         [Put (to_record marker_json (PartitionEntry (None, ''s'') ''p'' Done 3))] (done_from pipeline_default) = done_from s'
     \<and> done_from s' = [(((None, ''s''), ''p''), 3)]"
proof -
  let ?e = "PartitionEntry (None, ''s'') ''p'' Done 3" and ?rd = "\<lparr>re_epoch = 3, re_states = [(((None, ''s''), ''p''), Done)]\<rparr>"
  let ?delta = "[Put (to_record marker_json ?e)]"
  have wf: "pipeline_wf pipeline_default" by (simp add: pipeline_wf_def pipeline_default_def)
  have rec: "from_record marker_json (to_record marker_json ?e) = Inr ?e"
    "state_key_parse marker_json (rec_key (to_record marker_json ?e)) = Inr (PartitionKey (None, ''s'') ''p'')"
    by code_simp+
  have app: "state_apply_all marker_json pipeline_default ?delta = Inr (state_put ?e pipeline_default)"
    using rec(1) by (simp add: state_apply_def)
  have "\<forall>c\<in>set ?delta. agrees marker_json ?rd c" using rec by (simp add: agrees_def)
  from done_markers_follow [OF wf app this] have
    "done_landed marker_json ?rd ?delta (done_from pipeline_default) = done_from (state_put ?e pipeline_default)" .
  moreover have "done_from (state_put ?e pipeline_default) = [(((None, ''s''), ''p''), 3)]" by code_simp
  ultimately show ?thesis using wf app by blast
qed

end
