(* ===== verification/Stored.thy ===== *)
theory Stored
  imports Markers
begin

text \<open>
  The size of the state a destination stores, as the engine follows it through the commits that land
  (\<open>crates/rdlt-engine/src/stored.rs\<close>), and making room in it for a commit that would pass its limit
  (\<open>coordinator/pressure.rs\<close>): done markers of partitions no plan names any more are deleted with the
  commit, as few as it takes, the earliest recorded first. What a record and a request weigh decoded,
  which the generated messages decide, is a parameter.
\<close>

subsection \<open>What is stored and what a commit changes\<close>

record weigher =
  wg_record :: "state_record \<Rightarrow> nat"
  wg_empty :: nat
  wg_commit :: "commit_meta \<Rightarrow> nat"

type_synonym changed_sizes = "(string, nat option) btree"

record state_limits =
  li_stored :: nat
  li_request :: nat

definition state_limits_of :: "nat \<Rightarrow> state_limits" where
  "state_limits_of limit = \<lparr>li_stored = limit, li_request = limit\<rparr>"

record stored =
  so_records :: "(string, nat) btree"
  so_total :: nat
  so_limits :: state_limits

record measured =
  me_changed :: changed_sizes
  me_request :: nat

definition measure_change :: "weigher \<Rightarrow> state_change \<Rightarrow> changed_sizes \<Rightarrow> changed_sizes" where
  "measure_change w change c =
     (case change of
        Put r \<Rightarrow> bt_insert (rec_key r) (Some (wg_record w r)) c
      | Delete key \<Rightarrow> bt_insert key None c)"

definition measured_of :: "weigher \<Rightarrow> commit_meta \<Rightarrow> measured" where
  "measured_of w meta =
     \<lparr>me_changed = fold (measure_change w) (cm_state_delta meta) [], me_request = wg_commit w meta\<rparr>"

definition with_deleted :: "string list \<Rightarrow> changed_sizes \<Rightarrow> changed_sizes" where
  "with_deleted keys c = fold (\<lambda>key. bt_insert key None) keys c"

definition measured_deleting :: "weigher \<Rightarrow> commit_meta \<Rightarrow> string list \<Rightarrow> measured \<Rightarrow> measured" where
  "measured_deleting w meta deleted m =
     \<lparr>me_changed = with_deleted deleted (me_changed m), me_request = wg_commit w meta\<rparr>"

definition stored_of :: "weigher \<Rightarrow> state_record list \<Rightarrow> state_limits \<Rightarrow> stored" where
  "stored_of w records limits =
     (let sizes = bt_of_list (map (\<lambda>r. (rec_key r, wg_record w r)) records)
      in \<lparr>so_records = sizes, so_total = foldl sadd (wg_empty w) (map snd sizes), so_limits = limits\<rparr>)"

definition held_at :: "stored \<Rightarrow> string \<Rightarrow> nat" where
  "held_at s key = (case bt_get (so_records s) key of Some n \<Rightarrow> n | None \<Rightarrow> 0)"

definition new_bytes :: "nat option \<Rightarrow> nat" where
  "new_bytes b = (case b of Some n \<Rightarrow> n | None \<Rightarrow> 0)"

definition stored_after :: "stored \<Rightarrow> changed_sizes \<Rightarrow> nat" where
  "stored_after s c = foldl (\<lambda>total (key, bytes). sadd (total - held_at s key) (new_bytes bytes)) (so_total s) c"

definition growth :: "stored \<Rightarrow> changed_sizes \<Rightarrow> nat" where
  "growth s c =
     (case foldl (\<lambda>(gain, loss) (key, bytes).
         (sadd gain (new_bytes bytes - held_at s key), sadd loss (held_at s key - new_bytes bytes))) (0, 0) c of
        (gain, loss) \<Rightarrow> gain - loss)"

definition excess :: "stored \<Rightarrow> changed_sizes \<Rightarrow> nat" where
  "excess s c = min (stored_after s c - li_stored (so_limits s)) (growth s c)"

definition stored_fits :: "stored \<Rightarrow> changed_sizes \<Rightarrow> bool" where
  "stored_fits s c \<longleftrightarrow> excess s c = 0"

fun relief_loop :: "stored \<Rightarrow> nat \<Rightarrow> nat \<Rightarrow> string list \<Rightarrow> nat option" where
  "relief_loop s over deleted [] = (if over = 0 then Some deleted else None)"
| "relief_loop s over deleted (key # keys) =
     (if over = 0 then Some deleted else relief_loop s (over - held_at s key) (Suc deleted) keys)"

definition relief :: "stored \<Rightarrow> measured \<Rightarrow> string list \<Rightarrow> nat option" where
  "relief s m keys = relief_loop s (excess s (me_changed m)) 0 keys"

datatype stored_error = ChildTablesExceeded stream_name | StateBytesExceeded

text \<open>Admits a commit by the state it leaves and by its request; the records of child tables state
  does not record yet, with their streams, are blamed first.\<close>

definition stored_admit :: "stored \<Rightarrow> measured \<Rightarrow> (stream_name \<times> string) list \<Rightarrow> stored_error + unit" where
  "stored_admit s m born =
     (let request_fits = me_request m \<le> li_request (so_limits s);
          unborn = filter (\<lambda>(key, bytes). bytes = None \<or> \<not> list_ex (\<lambda>(_, b). b = key) born) (me_changed m)
      in if request_fits \<and> stored_fits s (me_changed m) then Inr ()
         else (case born of
                 (stream, _) # _ \<Rightarrow>
                   if request_fits \<and> stored_fits s unborn then Inl (ChildTablesExceeded stream) else Inl StateBytesExceeded
               | [] \<Rightarrow> Inl StateBytesExceeded))"

definition apply_size :: "string \<times> nat option \<Rightarrow> (string, nat) btree \<Rightarrow> (string, nat) btree" where
  "apply_size = (\<lambda>(key, bytes) sizes. case bytes of Some n \<Rightarrow> bt_insert key n sizes | None \<Rightarrow> bt_remove key sizes)"

definition stored_apply :: "measured \<Rightarrow> stored \<Rightarrow> stored" where
  "stored_apply m s =
     s\<lparr>so_total := stored_after s (me_changed m), so_records := fold apply_size (me_changed m) (so_records s)\<rparr>"

subsection \<open>Making room\<close>

fun change_of :: "state_change \<Rightarrow> string" where
  "change_of (Put r) = rec_key r"
| "change_of (Delete key) = key"

text \<open>The done markers that may go: of streams of the attempt whose latest plans leave the partition
  out, that the commit does not change, the earliest recorded first, each with its key.\<close>

definition unplanned :: "json \<Rightarrow> done_markers \<Rightarrow> (stream_name, partition_id list) btree \<Rightarrow> commit_meta
    \<Rightarrow> (stream_name \<times> partition_id \<times> string) list" where
  "unplanned js d named meta =
     filter (\<lambda>(_, _, key). key \<notin> change_of ` set (cm_state_delta meta))
       (map (\<lambda>(_, stream, p). (stream, p, state_key_encode js (PartitionKey stream p)))
         (filter (\<lambda>(_, stream, p). case bt_get named stream of Some ps \<Rightarrow> p \<notin> set ps | None \<Rightarrow> False) (done_listed d)))"

text \<open>Deletes so many of the markers that may go with the commit, and admits it so.\<close>

definition forget_with :: "weigher \<Rightarrow> stored \<Rightarrow> (stream_name \<times> string) list \<Rightarrow> commit_meta \<Rightarrow> measured
    \<Rightarrow> (stream_name \<times> partition_id \<times> string) list
    \<Rightarrow> stored_error + commit_meta \<times> measured \<times> (stream_name, partition_id list) btree" where
  "forget_with w s born meta m gone =
     (let deleted = map (\<lambda>(_, _, key). key) gone;
          meta' = meta\<lparr>cm_state_delta := cm_state_delta meta @ map Delete deleted\<rparr>;
          forgotten = fold (\<lambda>(stream, p, _). bt_entry stream [] (\<lambda>ps. ps @ [p])) gone [];
          m' = measured_deleting w meta' deleted m
      in rbind (stored_admit s m' born) (\<lambda>_. Inr (meta', m', forgotten)))"

definition relieve :: "json \<Rightarrow> weigher \<Rightarrow> stored \<Rightarrow> done_markers \<Rightarrow> (stream_name, partition_id list) btree
    \<Rightarrow> (stream_name \<times> string) list \<Rightarrow> commit_meta
    \<Rightarrow> stored_error + commit_meta \<times> measured \<times> (stream_name, partition_id list) btree" where
  "relieve js w s d named born meta =
     (let m = measured_of w meta
      in case stored_admit s m born of
           Inr _ \<Rightarrow> Inr (meta, m, [])
         | Inl (ChildTablesExceeded stream) \<Rightarrow> Inl (ChildTablesExceeded stream)
         | Inl StateBytesExceeded \<Rightarrow>
             let free = unplanned js d named meta
             in case relief s m (map (\<lambda>(_, _, key). key) free) of
                  None \<Rightarrow> Inl StateBytesExceeded
                | Some count \<Rightarrow>
                    if count > 0 then forget_with w s born meta m (take count free) else Inl StateBytesExceeded)"

subsection \<open>Sums over what is stored\<close>

definition old_sum :: "stored \<Rightarrow> changed_sizes \<Rightarrow> nat" where
  "old_sum s c = sum_list (map (\<lambda>(key, _). held_at s key) c)"

definition new_sum :: "changed_sizes \<Rightarrow> nat" where
  "new_sum c = bt_sum new_bytes c"

text \<open>What is kept of the stored state: the answer without records, and every record.\<close>

definition stored_ok :: "stored \<Rightarrow> nat \<Rightarrow> bool" where
  "stored_ok s base \<longleftrightarrow> bt_wf (so_records s) \<and> so_total s = base + bt_sum (\<lambda>n. n) (so_records s)"

lemma sum_looked_up:
  assumes "bt_wf m" and "distinct ks"
  shows "sum_list (map (\<lambda>k. case bt_get m k of Some n \<Rightarrow> n | None \<Rightarrow> 0) ks) \<le> bt_sum (\<lambda>n. n) m"
  using assms
proof (induction ks arbitrary: m)
  case (Cons k ks)
  have "sum_list (map (\<lambda>k. case bt_get m k of Some n \<Rightarrow> n | None \<Rightarrow> 0) ks)
      = sum_list (map (\<lambda>k'. case bt_get (bt_remove k m) k' of Some n \<Rightarrow> n | None \<Rightarrow> 0) ks)"
    using Cons.prems(2) by (intro arg_cong [where f = sum_list] map_cong) (auto simp: btree_simps)
  also have "\<dots> \<le> bt_sum (\<lambda>n. n) (bt_remove k m)" using Cons.prems by (intro Cons.IH) auto
  finally show ?case using bt_sum_remove [OF Cons.prems(1), of "\<lambda>n. n" k] by (simp split: option.splits)
qed simp

lemma old_sum_le:
  assumes "stored_ok s base" and "distinct (map fst c)"
  shows "old_sum s c \<le> so_total s"
proof -
  have "old_sum s c = sum_list (map (\<lambda>k. case bt_get (so_records s) k of Some n \<Rightarrow> n | None \<Rightarrow> 0) (map fst c))"
    by (induction c) (auto simp: old_sum_def held_at_def)
  then show ?thesis
    using sum_looked_up [of "so_records s" "map fst c"] assms by (simp add: stored_ok_def)
qed

lemma after_fold:
  "old_sum s c \<le> t \<Longrightarrow> t + new_sum c \<le> U64_MAX \<Longrightarrow>
   foldl (\<lambda>total (key, bytes). sadd (total - held_at s key) (new_bytes bytes)) t c = t - old_sum s c + new_sum c"
proof (induction c arbitrary: t)
  case (Cons x c)
  obtain k b where x: "x = (k, b)" by (cases x)
  have "sadd (t - held_at s k) (new_bytes b) = t - held_at s k + new_bytes b"
    using Cons.prems x by (intro sadd_exact) (simp add: new_sum_def)
  then show ?case
    using Cons.IH [of "t - held_at s k + new_bytes b"] Cons.prems x by (simp add: old_sum_def new_sum_def)
qed (simp add: old_sum_def new_sum_def)

lemma growth_fold:
  "gain + new_sum c \<le> U64_MAX \<Longrightarrow> loss + old_sum s c \<le> U64_MAX \<Longrightarrow>
   \<exists>gain' loss'. foldl (\<lambda>(gain, loss) (key, bytes).
       (sadd gain (new_bytes bytes - held_at s key), sadd loss (held_at s key - new_bytes bytes))) (gain, loss) c = (gain', loss')
     \<and> gain' + loss + old_sum s c = loss' + gain + new_sum c"
proof (induction c arbitrary: gain loss)
  case (Cons x c)
  obtain k b where x: "x = (k, b)" by (cases x)
  let ?g = "gain + (new_bytes b - held_at s k)" and ?l = "loss + (held_at s k - new_bytes b)"
  have exact: "sadd gain (new_bytes b - held_at s k) = ?g" "sadd loss (held_at s k - new_bytes b) = ?l"
    using Cons.prems x by (auto intro!: sadd_exact simp: new_sum_def old_sum_def)
  have "?g + new_sum c \<le> U64_MAX" "?l + old_sum s c \<le> U64_MAX"
    using Cons.prems x by (auto simp: new_sum_def old_sum_def)
  from Cons.IH [OF this] obtain g' l' where "foldl (\<lambda>(gain, loss) (key, bytes).
       (sadd gain (new_bytes bytes - held_at s key), sadd loss (held_at s key - new_bytes bytes))) (?g, ?l) c = (g', l')"
    "g' + ?l + old_sum s c = l' + ?g + new_sum c" by blast
  then show ?case using exact x by (auto simp: old_sum_def new_sum_def)
qed (simp add: old_sum_def new_sum_def)

lemma excess_is:
  assumes "stored_ok s base" and "distinct (map fst c)" and "so_total s + new_sum c \<le> U64_MAX"
  shows "stored_after s c = so_total s - old_sum s c + new_sum c"
    and "excess s c = min (so_total s - old_sum s c + new_sum c - li_stored (so_limits s)) (new_sum c - old_sum s c)"
proof -
  have le: "old_sum s c \<le> so_total s" using assms(1,2) by (rule old_sum_le)
  show after: "stored_after s c = so_total s - old_sum s c + new_sum c"
    unfolding stored_after_def using le assms(3) by (rule after_fold)
  obtain g l where "foldl (\<lambda>(gain, loss) (key, bytes).
       (sadd gain (new_bytes bytes - held_at s key), sadd loss (held_at s key - new_bytes bytes))) (0, 0) c = (g, l)"
    "g + 0 + old_sum s c = l + 0 + new_sum c"
    using growth_fold [of 0 c 0 s] le assms(3) by auto
  then have "growth s c = new_sum c - old_sum s c" by (simp add: growth_def)
  with after show "excess s c = min (so_total s - old_sum s c + new_sum c - li_stored (so_limits s)) (new_sum c - old_sum s c)"
    by (simp add: excess_def)
qed

text \<open>Deleting a stored record the commit does not change frees what it holds, and nothing else.\<close>

lemma with_deleted_wf: "bt_wf c \<Longrightarrow> bt_wf (with_deleted keys c)"
  by (induction keys arbitrary: c) (simp_all add: with_deleted_def)

lemma old_sum_insert:
  "bt_wf c \<Longrightarrow> bt_get c key = None \<Longrightarrow> old_sum s (bt_insert key b c) = held_at s key + old_sum s c"
proof (induction key b c rule: bt_insert.induct)
  case (2 k v k' v' m)
  then show ?case by (auto simp: old_sum_def bt_wf_Cons split: if_splits)
qed (simp add: old_sum_def)

lemma deleted_sums:
  "bt_wf c \<Longrightarrow> distinct keys \<Longrightarrow> \<forall>k\<in>set keys. bt_get c k = None \<Longrightarrow>
   old_sum s (with_deleted keys c) = old_sum s c + sum_list (map (held_at s) keys) \<and> new_sum (with_deleted keys c) = new_sum c"
proof (induction keys arbitrary: c)
  case (Cons k keys)
  have new: "new_sum (bt_insert k None c) = new_sum c"
    using bt_sum_insert [OF Cons.prems(1), of new_bytes k None] Cons.prems(3) by (simp add: new_sum_def new_bytes_def)
  have "old_sum s (with_deleted keys (bt_insert k None c)) = old_sum s (bt_insert k None c) + sum_list (map (held_at s) keys)
      \<and> new_sum (with_deleted keys (bt_insert k None c)) = new_sum (bt_insert k None c)"
    using Cons.prems by (intro Cons.IH) (auto simp: btree_simps)
  then show ?case
    using old_sum_insert [OF Cons.prems(1)] Cons.prems(3) new by (simp add: with_deleted_def)
qed (simp add: with_deleted_def)

lemma min_freed:
  fixes t n h l f :: nat
  assumes "h + f \<le> t"
  shows "min (t - (h + f) + n - l) (n - (h + f)) = min (t - h + n - l) (n - h) - f"
proof (cases "t - h + n - l \<le> n - h")
  case True
  then show ?thesis using assms by (simp add: min_absorb1)
next
  case False
  then show ?thesis using assms by (simp add: min_absorb2)
qed

lemma excess_deleted:
  assumes ok: "stored_ok s base" and c: "bt_wf c" "so_total s + new_sum c \<le> U64_MAX"
    and keys: "distinct keys" "\<forall>k\<in>set keys. bt_get c k = None"
  shows "excess s (with_deleted keys c) = excess s c - sum_list (map (held_at s) keys)"
proof -
  let ?d = "with_deleted keys c" and ?f = "sum_list (map (held_at s) keys)"
  have sums: "old_sum s ?d = old_sum s c + ?f" "new_sum ?d = new_sum c"
    using deleted_sums [OF c(1) keys] by simp_all
  have d: "distinct (map fst ?d)" "distinct (map fst c)" using with_deleted_wf [OF c(1)] c(1) bt_wf_distinct by blast+
  have le: "old_sum s c + ?f \<le> so_total s" using old_sum_le [OF ok d(1)] sums(1) by simp
  have "excess s ?d = min (so_total s - (old_sum s c + ?f) + new_sum c - li_stored (so_limits s)) (new_sum c - (old_sum s c + ?f))"
    using excess_is(2) [OF ok d(1)] c(2) sums by simp
  moreover have "excess s c = min (so_total s - old_sum s c + new_sum c - li_stored (so_limits s)) (new_sum c - old_sum s c)"
    using excess_is(2) [OF ok d(2) c(2)] .
  ultimately show ?thesis using min_freed [OF le] by simp
qed

subsection \<open>As few markers as it takes\<close>

lemma relief_loop_least:
  "case relief_loop s over d keys of
     Some n \<Rightarrow> d \<le> n \<and> n - d \<le> length keys \<and> over \<le> sum_list (map (held_at s) (take (n - d) keys))
       \<and> (\<forall>k < n - d. sum_list (map (held_at s) (take k keys)) < over)
   | None \<Rightarrow> \<forall>k \<le> length keys. sum_list (map (held_at s) (take k keys)) < over"
proof (induction keys arbitrary: over d)
  case (Cons key keys)
  show ?case
  proof (cases "over = 0")
    case False
    let ?f = "held_at s key"
    have take: "sum_list (map (held_at s) (take k (key # keys)))
        = (if k = 0 then 0 else ?f + sum_list (map (held_at s) (take (k - 1) keys)))" for k
      by (cases k) simp_all
    show ?thesis
    proof (cases "relief_loop s (over - ?f) (Suc d) keys")
      case None
      have "sum_list (map (held_at s) (take k (key # keys))) < over" if "k \<le> Suc (length keys)" for k
        using Cons.IH [of "over - ?f" "Suc d"] None False that take [of k] by (cases k) fastforce+
      then show ?thesis using None False by simp
    next
      case (Some n)
      then have n: "Suc d \<le> n" "n - Suc d \<le> length keys" "over - ?f \<le> sum_list (map (held_at s) (take (n - Suc d) keys))"
        "\<forall>k < n - Suc d. sum_list (map (held_at s) (take k keys)) < over - ?f"
        using Cons.IH [of "over - ?f" "Suc d"] by simp_all
      have "sum_list (map (held_at s) (take k (key # keys))) < over" if k: "k < n - d" for k
      proof (cases k)
        case (Suc j)
        then have "sum_list (map (held_at s) (take j keys)) < over - ?f" using n(4) k by simp
        then show ?thesis using take [of k] Suc by simp
      qed (use False in simp)
      moreover have "over \<le> sum_list (map (held_at s) (take (n - d) (key # keys)))"
        using n(1,3) take [of "n - d"] by simp
      ultimately show ?thesis using Some False n(1,2) by simp
    qed
  qed simp
qed simp

text \<open>C40: The markers deleted to make room are as few as it takes: deleting the first of them, so many
  as the search says, makes the state the commit leaves fit, and no fewer of them would; where it
  says there is no room to be made, deleting all of them would not do.\<close>

theorem relief_least:
  assumes "stored_ok s base" and "bt_wf (me_changed m)" and "so_total s + new_sum (me_changed m) \<le> U64_MAX"
    and "distinct keys" and "\<forall>k\<in>set keys. bt_get (me_changed m) k = None"
  shows "case relief s m keys of
     Some n \<Rightarrow> n \<le> length keys \<and> stored_fits s (with_deleted (take n keys) (me_changed m))
       \<and> (\<forall>k<n. \<not> stored_fits s (with_deleted (take k keys) (me_changed m)))
   | None \<Rightarrow> \<forall>k \<le> length keys. \<not> stored_fits s (with_deleted (take k keys) (me_changed m))"
proof -
  have "excess s (with_deleted (take k keys) (me_changed m)) = excess s (me_changed m) - sum_list (map (held_at s) (take k keys))" for k
    using assms(4,5) by (intro excess_deleted [OF assms(1-3)]) (auto dest: in_set_takeD)
  then have fits: "stored_fits s (with_deleted (take k keys) (me_changed m)) \<longleftrightarrow>
      excess s (me_changed m) \<le> sum_list (map (held_at s) (take k keys))" for k
    by (simp add: stored_fits_def)
  show ?thesis
    using relief_loop_least [where s = s and over = "excess s (me_changed m)" and d = 0 and keys = keys]
    by (auto simp: relief_def fits not_le split: option.splits)
qed

theorem relief_least_witness:
  "(let s = \<lparr>so_records = [(''a'', 30), (''b'', 40), (''c'', 20)], so_total = 100, so_limits = \<lparr>li_stored = 100, li_request = 100\<rparr>\<rparr>;
        m = \<lparr>me_changed = [(''c'', Some 70)], me_request = 10\<rparr>
    in stored_ok s 10 \<and> so_total s + new_sum (me_changed m) \<le> U64_MAX \<and> relief s m [''a'', ''b''] = Some 2
       \<and> stored_fits s (with_deleted [''a'', ''b''] (me_changed m)) \<and> \<not> stored_fits s (with_deleted [''a''] (me_changed m)))"
proof -
  let ?s = "\<lparr>so_records = [(''a'', 30), (''b'', 40), (''c'', 20)], so_total = 100, so_limits = \<lparr>li_stored = 100, li_request = 100\<rparr>\<rparr>"
  let ?m = "\<lparr>me_changed = [(''c'', Some 70)], me_request = 10\<rparr>"
  have ok: "stored_ok ?s 10" "bt_wf (me_changed ?m)" "so_total ?s + new_sum (me_changed ?m) \<le> U64_MAX"
    "distinct [''a'', ''b'']" "\<forall>k\<in>set [''a'', ''b'']. bt_get (me_changed ?m) k = None"
    by (simp_all add: stored_ok_def bt_wf_def new_sum_def new_bytes_def U64_MAX_def)
  moreover have two: "relief ?s ?m [''a'', ''b''] = Some 2" by code_simp
  ultimately have all: "case Some 2 of
     Some n \<Rightarrow> n \<le> length [''a'', ''b''] \<and> stored_fits ?s (with_deleted (take n [''a'', ''b'']) (me_changed ?m))
       \<and> (\<forall>k<n. \<not> stored_fits ?s (with_deleted (take k [''a'', ''b'']) (me_changed ?m)))
   | None \<Rightarrow> \<forall>k \<le> length [''a'', ''b'']. \<not> stored_fits ?s (with_deleted (take k [''a'', ''b'']) (me_changed ?m))"
    using relief_least [OF ok] by simp
  then have "\<forall>k<2. \<not> stored_fits ?s (with_deleted (take k [''a'', ''b'']) (me_changed ?m))" by simp
  then have "\<not> stored_fits ?s (with_deleted (take 1 [''a'', ''b'']) (me_changed ?m))" by (rule allE [of _ 1]) simp
  with all ok(1,3) two show ?thesis unfolding Let_def by simp
qed

subsection \<open>What is kept is what is stored\<close>

lemma bt_of_list_wf: "bt_wf m \<Longrightarrow> bt_wf (fold (\<lambda>(k, v). bt_insert k v) kvs m)"
  by (induction kvs arbitrary: m) auto

lemma bt_of_list_get:
  "distinct (map fst kvs) \<Longrightarrow>
   bt_get (fold (\<lambda>(k, v). bt_insert k v) kvs m) k = (case map_of kvs k of Some v \<Rightarrow> Some v | None \<Rightarrow> bt_get m k)"
proof (induction kvs arbitrary: m)
  case (Cons x kvs)
  obtain k' v where x: "x = (k', v)" by (cases x)
  have "map_of kvs k' = None" using Cons.prems x by (simp add: map_of_eq_None_iff)
  then show ?case using Cons x by (auto simp: btree_simps split: option.splits)
qed simp

lemma bt_of_list_sorted: "bt_wf m \<Longrightarrow> bt_of_list m = m"
proof (rule bt_ext)
  assume wf: "bt_wf m"
  then show "bt_wf (bt_of_list m)" "bt_wf m" using bt_of_list_wf [of "[]" m] by (simp_all add: bt_of_list_def)
  show "bt_get (bt_of_list m) k = bt_get m k" for k
    using bt_of_list_get [of m "[]" k] bt_wf_distinct [OF wf] by (simp add: bt_of_list_def split: option.splits)
qed

definition sizes_of :: "weigher \<Rightarrow> (string, state_record) btree \<Rightarrow> (string, nat) btree" where
  "sizes_of w recs = bt_map (wg_record w) recs"

lemma foldl_sadd_exact: "b + sum_list ns \<le> U64_MAX \<Longrightarrow> foldl sadd b ns = b + sum_list ns"
  by (induction ns arbitrary: b) (simp_all add: sadd_exact)

lemma bt_sum_snd: "bt_sum (\<lambda>n. n) m = sum_list (map snd m)"
  by (simp add: bt_sum_def case_prod_beta')

lemma stored_of_sizes:
  assumes "records_wf recs"
  shows "so_records (stored_of w (map snd recs) limits) = sizes_of w recs"
    and "wg_empty w + bt_sum (\<lambda>n. n) (sizes_of w recs) \<le> U64_MAX \<Longrightarrow>
      so_total (stored_of w (map snd recs) limits) = wg_empty w + bt_sum (\<lambda>n. n) (sizes_of w recs)"
proof -
  have "map (\<lambda>r. (rec_key r, wg_record w r)) (map snd recs) = sizes_of w recs"
    using assms by (auto simp: sizes_of_def bt_map_def records_wf_def)
  moreover have "bt_wf (sizes_of w recs)" using assms by (simp add: sizes_of_def records_wf_def)
  ultimately have sizes: "bt_of_list (map (\<lambda>r. (rec_key r, wg_record w r)) (map snd recs)) = sizes_of w recs"
    using bt_of_list_sorted by simp
  then show "so_records (stored_of w (map snd recs) limits) = sizes_of w recs"
    by (simp add: stored_of_def Let_def)
  show "so_total (stored_of w (map snd recs) limits) = wg_empty w + bt_sum (\<lambda>n. n) (sizes_of w recs)"
    if "wg_empty w + bt_sum (\<lambda>n. n) (sizes_of w recs) \<le> U64_MAX"
    using sizes foldl_sadd_exact [of "wg_empty w" "map snd (sizes_of w recs)"] that
    by (simp add: stored_of_def Let_def bt_sum_snd)
qed

lemma apply_size_get:
  "distinct (map fst c) \<Longrightarrow>
   bt_get (fold apply_size c m) k = (case bt_get c k of Some b \<Rightarrow> b | None \<Rightarrow> bt_get m k)"
proof (induction c arbitrary: m)
  case (Cons x c)
  obtain k' b where x: "x = (k', b)" by (cases x)
  have "map_of c k' = None" using Cons.prems x by (simp add: map_of_eq_None_iff)
  then show ?case using Cons x by (cases b) (auto simp: apply_size_def btree_simps split: option.splits)
qed simp

lemma apply_size_wf: "bt_wf m \<Longrightarrow> bt_wf (fold apply_size c m)"
  by (induction c arbitrary: m) (auto simp: apply_size_def split: option.splits)

lemma apply_size_sum:
  "distinct (map fst c) \<Longrightarrow> bt_wf m \<Longrightarrow>
   bt_sum (\<lambda>n. n) (fold apply_size c m) + sum_list (map (\<lambda>(k, _). case bt_get m k of Some n \<Rightarrow> n | None \<Rightarrow> 0) c)
     = bt_sum (\<lambda>n. n) m + new_sum c"
proof (induction c arbitrary: m)
  case (Cons x c)
  obtain k b where x: "x = (k, b)" by (cases x)
  let ?m = "apply_size x m"
  have keys: "\<forall>y\<in>set c. fst y \<noteq> k" using Cons.prems x by (auto simp: image_iff)
  have "sum_list (map (\<lambda>(k, _). case bt_get ?m k of Some n \<Rightarrow> n | None \<Rightarrow> 0) c)
      = sum_list (map (\<lambda>(k, _). case bt_get m k of Some n \<Rightarrow> n | None \<Rightarrow> 0) c)"
    using keys x by (intro arg_cong [where f = sum_list] map_cong) (auto simp: apply_size_def btree_simps split: option.splits)
  moreover have "bt_sum (\<lambda>n. n) ?m + (case bt_get m k of Some n \<Rightarrow> n | None \<Rightarrow> 0) = bt_sum (\<lambda>n. n) m + new_bytes b"
    using bt_sum_insert [OF Cons.prems(2), of "\<lambda>n. n" k] bt_sum_remove [OF Cons.prems(2), of "\<lambda>n. n" k] x
    by (cases b; cases "bt_get m k") (auto simp: apply_size_def new_bytes_def)
  moreover have "bt_wf ?m" using Cons.prems(2) apply_size_wf [of m "[x]"] by simp
  ultimately show ?case using Cons.IH [of ?m] Cons.prems(1) x by (simp add: new_sum_def)
qed (simp add: new_sum_def)

text \<open>Measuring a commit's changes and applying them to the records keep step.\<close>

fun change_weight :: "weigher \<Rightarrow> state_change \<Rightarrow> nat" where
  "change_weight w (Put r) = wg_record w r"
| "change_weight w (Delete key) = 0"

lemma measure_change_simps [simp]:
  "measure_change w (Put r) c = bt_insert (rec_key r) (Some (wg_record w r)) c"
  "measure_change w (Delete key) c = bt_insert key None c"
  by (simp_all add: measure_change_def)

lemma records_apply_simps:
  "records_apply recs (Put r) = bt_insert (rec_key r) r recs" "records_apply recs (Delete key) = bt_remove key recs"
  by (simp_all add: records_apply_def)

lemma measured_follows:
  "records_wf recs \<Longrightarrow>
   bt_wf (fold (measure_change w) delta [])
   \<and> new_sum (fold (measure_change w) delta []) \<le> sum_list (map (change_weight w) delta)
   \<and> records_wf (foldl records_apply recs delta)
   \<and> (\<forall>k. bt_get (sizes_of w (foldl records_apply recs delta)) k =
       (case bt_get (fold (measure_change w) delta []) k of Some b \<Rightarrow> b | None \<Rightarrow> bt_get (sizes_of w recs) k))"
proof (induction delta rule: rev_induct)
  case Nil
  then show ?case by (simp add: new_sum_def)
next
  case (snoc c delta)
  let ?m = "fold (measure_change w) delta []"
  have IH: "bt_wf ?m" "new_sum ?m \<le> sum_list (map (change_weight w) delta)" "records_wf (foldl records_apply recs delta)"
    "\<forall>k. bt_get (sizes_of w (foldl records_apply recs delta)) k = (case bt_get ?m k of Some b \<Rightarrow> b | None \<Rightarrow> bt_get (sizes_of w recs) k)"
    using snoc by simp_all
  have "new_sum (measure_change w c ?m) \<le> new_sum ?m + change_weight w c"
    using bt_sum_insert [OF IH(1), of new_bytes "change_of c" "case c of Put r \<Rightarrow> Some (wg_record w r) | Delete _ \<Rightarrow> None"]
    by (cases c) (auto simp: new_sum_def new_bytes_def split: option.splits)
  then show ?case
    using IH records_apply_wf [OF IH(3), of c]
    by (cases c) (auto simp: records_apply_simps sizes_of_def btree_simps)
qed

text \<open>C39: The size the engine keeps of a pipeline's stored state, changed by each commit that lands, is
  the size of the records the destination then holds, measured afresh.\<close>

theorem stored_follows:
  assumes "records_wf recs"
    and "wg_empty w + sum_list (map (wg_record w) (map snd recs)) + sum_list (map (change_weight w) (cm_state_delta meta)) \<le> U64_MAX"
  shows "stored_apply (measured_of w meta) (stored_of w (map snd recs) limits)
    = stored_of w (map snd (foldl records_apply recs (cm_state_delta meta))) limits"
proof -
  let ?s = "stored_of w (map snd recs) limits" and ?c = "fold (measure_change w) (cm_state_delta meta) []"
  let ?recs = "foldl records_apply recs (cm_state_delta meta)"
  note follows = measured_follows [OF assms(1), of w "cm_state_delta meta"]
  have sum: "bt_sum (\<lambda>n. n) (sizes_of w recs) = sum_list (map (wg_record w) (map snd recs))"
    by (simp add: bt_sum_snd sizes_of_def bt_map_def o_def case_prod_beta)
  have s: "so_records ?s = sizes_of w recs" "so_total ?s = wg_empty w + bt_sum (\<lambda>n. n) (sizes_of w recs)"
    using stored_of_sizes [OF assms(1)] assms(2) sum by simp_all
  have c: "distinct (map fst ?c)" using follows bt_wf_distinct by blast
  have wf: "bt_wf (sizes_of w recs)" "bt_wf (sizes_of w ?recs)"
    using assms(1) follows by (simp_all add: sizes_of_def records_wf_def)
  have sizes: "fold apply_size ?c (sizes_of w recs) = sizes_of w ?recs"
    using follows apply_size_get [OF c] apply_size_wf [OF wf(1)] wf(2) by (intro bt_ext) auto
  have ok: "stored_ok ?s (wg_empty w)" using s wf(1) by (simp add: stored_ok_def)
  have fits: "so_total ?s + new_sum ?c \<le> U64_MAX" using follows assms(2) s(2) sum by simp
  have old: "old_sum ?s ?c = sum_list (map (\<lambda>(k, _). case bt_get (sizes_of w recs) k of Some n \<Rightarrow> n | None \<Rightarrow> 0) ?c)"
    by (simp add: old_sum_def held_at_def s(1) cong: map_cong)
  have "stored_after ?s ?c = wg_empty w + bt_sum (\<lambda>n. n) (sizes_of w ?recs)"
    using excess_is(1) [OF ok c fits] old_sum_le [OF ok c] apply_size_sum [OF c wf(1)] sizes old s(2) by simp
  moreover from this have "wg_empty w + bt_sum (\<lambda>n. n) (sizes_of w ?recs) \<le> U64_MAX"
    using excess_is(1) [OF ok c fits] fits by simp
  ultimately have "so_total (stored_of w (map snd ?recs) limits) = stored_after ?s ?c"
    using stored_of_sizes(2) [of ?recs w limits] follows by simp
  moreover have "so_records (stored_of w (map snd ?recs) limits) = sizes_of w ?recs"
    using stored_of_sizes(1) follows by blast
  ultimately show ?thesis
    using s(1) sizes by (simp add: stored_apply_def measured_of_def stored_of_def Let_def)
qed

theorem stored_follows_witness:
  "(let w = \<lparr>wg_record = (\<lambda>r. 8 + length (rec_key r) + length (rec_value r)), wg_empty = 16, wg_commit = (\<lambda>_. 0)\<rparr>;
        recs = [(''a'', \<lparr>rec_key = ''a'', rec_value = ''xx''\<rparr>)];
        meta = \<lparr>cm_key = CommitKey 1 1, cm_after = None, cm_segments = [], cm_abandoned = [],
          cm_state_delta = [Put \<lparr>rec_key = ''b'', rec_value = ''y''\<rparr>, Delete ''a''], cm_finish_generations = [],
          cm_child_tables = [], cm_drop_tables = []\<rparr>
    in records_wf recs
       \<and> stored_apply (measured_of w meta) (stored_of w (map snd recs) (state_limits_of 100)) =
         stored_of w [\<lparr>rec_key = ''b'', rec_value = ''y''\<rparr>] (state_limits_of 100))"
proof -
  let ?w = "\<lparr>wg_record = (\<lambda>r. 8 + length (rec_key r) + length (rec_value r)), wg_empty = 16, wg_commit = (\<lambda>_. 0)\<rparr>"
  let ?recs = "[(''a'', \<lparr>rec_key = ''a'', rec_value = ''xx''\<rparr>)]"
  let ?meta = "\<lparr>cm_key = CommitKey 1 1, cm_after = None, cm_segments = [], cm_abandoned = [],
          cm_state_delta = [Put \<lparr>rec_key = ''b'', rec_value = ''y''\<rparr>, Delete ''a''], cm_finish_generations = [],
          cm_child_tables = [], cm_drop_tables = []\<rparr>"
  have wf: "records_wf ?recs" by (simp add: records_wf_def bt_wf_def)
  have fits: "wg_empty ?w + sum_list (map (wg_record ?w) (map snd ?recs)) + sum_list (map (change_weight ?w) (cm_state_delta ?meta)) \<le> U64_MAX"
    by (simp add: U64_MAX_def)
  have "map snd (foldl records_apply ?recs [Put \<lparr>rec_key = ''b'', rec_value = ''y''\<rparr>, Delete ''a'']) = [\<lparr>rec_key = ''b'', rec_value = ''y''\<rparr>]"
    by code_simp
  then show ?thesis unfolding Let_def using wf stored_follows [OF wf fits, of "state_limits_of 100"] by simp
qed

text \<open>A commit relieved is admitted as measured, and deletes with it only markers of partitions held
  done whose streams' plans leave them out and that it does not change itself.\<close>

lemma unplanned_free:
  assumes "(stream, p, key) \<in> set (unplanned js d named meta)"
  shows "key = state_key_encode js (PartitionKey stream p) \<and> (stream, p) \<in> fst ` set d
    \<and> (\<exists>ps. bt_get named stream = Some ps \<and> p \<notin> set ps) \<and> key \<notin> change_of ` set (cm_state_delta meta)"
proof -
  have "\<exists>epoch. ((stream, p), epoch) \<in> set d" "case bt_get named stream of Some ps \<Rightarrow> p \<notin> set ps | None \<Rightarrow> False"
      "key = state_key_encode js (PartitionKey stream p)" "key \<notin> change_of ` set (cm_state_delta meta)"
    using assms by (auto simp: unplanned_def done_listed_def)
  moreover from this(1) have "(stream, p) \<in> fst ` set d" by force
  ultimately show ?thesis by (auto split: option.splits)
qed

lemma forget_with_admitted:
  assumes "forget_with w s born meta (measured_of w meta) gone = Inr (meta', m', forgotten)"
  shows "m' = measured_of w meta' \<and> stored_admit s m' born = Inr ()
    \<and> meta' = meta\<lparr>cm_state_delta := cm_state_delta meta @ map (\<lambda>(_, _, key). Delete key) gone\<rparr>"
proof -
  let ?deleted = "map (\<lambda>(_, _, key). key) gone"
  let ?meta' = "meta\<lparr>cm_state_delta := cm_state_delta meta @ map Delete ?deleted\<rparr>"
  have r: "meta' = ?meta'" "m' = measured_deleting w ?meta' ?deleted (measured_of w meta)" "stored_admit s m' born = Inr ()"
    using assms unfolding forget_with_def Let_def by auto
  have "fold (measure_change w) (map Delete ks) c = with_deleted ks c" for ks c
    by (induction ks arbitrary: c) (simp_all add: with_deleted_def)
  then have "m' = measured_of w ?meta'"
    unfolding r(2) by (simp add: measured_deleting_def measured_of_def del: map_map)
  moreover have "map Delete ?deleted = map (\<lambda>(_, _, key). Delete key) gone"
    by (simp add: case_prod_beta')
  ultimately show ?thesis using r(1,3) by simp
qed

lemma relieved_admitted:
  assumes "relieve js w s d named born meta = Inr (meta', m', forgotten)"
  shows "m' = measured_of w meta' \<and> stored_admit s m' born = Inr ()
    \<and> (\<exists>n. meta' = meta\<lparr>cm_state_delta := cm_state_delta meta @ map (\<lambda>(_, _, key). Delete key) (take n (unplanned js d named meta))\<rparr>)"
proof (cases "stored_admit s (measured_of w meta) born")
  case (Inr u)
  then show ?thesis using assms by (auto simp: relieve_def Let_def intro: exI [of _ 0])
next
  case (Inl e)
  then obtain n where "forget_with w s born meta (measured_of w meta) (take n (unplanned js d named meta)) = Inr (meta', m', forgotten)"
    using assms by (cases e) (auto simp: relieve_def Let_def split: option.splits if_splits)
  from forget_with_admitted [OF this] show ?thesis by blast
qed

end
