(* ===== verification/Spec2Isabelle.thy ===== *)
theory Spec2Isabelle
  imports Owners Flow Lending Admits Text Stored
begin

text \<open>
  A verification library of rdlt, a data loader that moves rows from sources to destinations exactly
  once.
\<close>

end
